(* ===== verification/Prelude.thy ===== *)
theory Prelude
  imports Main "HOL-Library.Word"
begin

text \<open>
  Shared vocabulary of the development.

  \<^item> \<open>fault\<close> and \<open>'a res\<close>: every way a C++ operation of the program can fail
    to return normally (a thrown standard exception, an undefined operation, a
    recursion that does not come back, the default action of a signal) is a value \<open>Inl f\<close>; a normal return is
    \<open>Inr x\<close>. Nothing in the program catches an exception, so \<open>Inl\<close> always means
    that the process is gone.
  \<^item> \<open>bind_res\<close>, \<open>fold_res\<close>: sequencing of such operations, and a range-for loop
    whose body may fail.
  \<^item> the locale \<open>transition_system\<close>: invariants of step relations by rule induction;
    the locale \<open>kv_store\<close>: the contract of a mutable key-value store, with the
    lemmas on loops of insertions and deletions that every client needs.
  \<^item> generic lemmas on lists, association lists and maps.
\<close>

section \<open>Failure as a value\<close>

datatype fault =
    Invalid_argument
  | Out_of_range
  | Length_error
  | Signed_overflow
  | Out_of_bounds
  | Dangling
  | Bad_optional
  | Division_by_zero
  | Diverges
  | Killed

type_synonym 'a res = "fault + 'a"

fun bind_res :: "'a res \<Rightarrow> ('a \<Rightarrow> 'b res) \<Rightarrow> 'b res" where
  "bind_res (Inl f) k = Inl f"
| "bind_res (Inr x) k = k x"

primrec fold_res :: "('s \<Rightarrow> 'a \<Rightarrow> 's res) \<Rightarrow> 'a list \<Rightarrow> 's \<Rightarrow> 's res" where
  "fold_res f [] s = Inr s"
| "fold_res f (x # xs) s = bind_res (f s x) (fold_res f xs)"

lemma bind_res_eq_Inr [simp]:
  "bind_res m k = Inr y \<longleftrightarrow> (\<exists>x. m = Inr x \<and> k x = Inr y)"
  by (cases m) auto

lemma bind_res_eq_Inl:
  "bind_res m k = Inl f \<longleftrightarrow> m = Inl f \<or> (\<exists>x. m = Inr x \<and> k x = Inl f)"
  by (cases m) auto

lemma bind_res_cong [fundef_cong]:
  "m = m' \<Longrightarrow> (\<And>x. m' = Inr x \<Longrightarrow> k x = k' x) \<Longrightarrow> bind_res m k = bind_res m' k'"
  by (cases m') auto

lemma fold_res_append:
  "fold_res f (xs @ ys) s = bind_res (fold_res f xs s) (fold_res f ys)"
proof (induction xs arbitrary: s)
  case (Cons x xs)
  then show ?case by (cases "f s x") auto
qed simp

lemma fold_res_invariant:
  assumes "\<And>s x s'. I s \<Longrightarrow> f s x = Inr s' \<Longrightarrow> I s'" "fold_res f xs s = Inr s'" "I s"
  shows "I s'"
  using assms(2,3)
proof (induction xs arbitrary: s)
  case (Cons x xs)
  then obtain t where "f s x = Inr t" "fold_res f xs t = Inr s'" by auto
  with Cons assms(1) show ?case by blast
qed simp

lemma foldl_invariant: "(\<And>s x. I s \<Longrightarrow> I (f s x)) \<Longrightarrow> I s \<Longrightarrow> I (foldl f s xs)"
  by (induction xs arbitrary: s) auto

lemma fold_res_Inr:
  "(\<And>s x. f s x = Inr (g s x)) \<Longrightarrow> fold_res f xs s = Inr (foldl g s xs)"
  by (induction xs arbitrary: s) auto

section \<open>Arithmetic\<close>

lemma mod_le_mod_same_div:
  fixes x y b :: nat
  assumes "x \<le> y" "x div b = y div b"
  shows "x mod b \<le> y mod b"
proof -
  have "b * (y div b) + x mod b = x" using assms(2) by (metis mult_div_mod_eq)
  moreover have "b * (y div b) + y mod b = y" by (rule mult_div_mod_eq)
  ultimately show ?thesis using assms(1) by linarith
qed

section \<open>Association lists and maps\<close>

lemma map_of_concat_unique:
  assumes "\<And>i k v. i < length bs \<Longrightarrow> (k, v) \<in> set (bs ! i) \<Longrightarrow> f k = i"
    and "f k < length bs"
  shows "map_of (concat bs) k = map_of (bs ! f k) k"
proof -
  have "map_of (concat bs) k = map_of (bs ! i) k"
    if "i < length bs" "\<forall>j < length bs. j \<noteq> i \<longrightarrow> map_of (bs ! j) k = None" for i
    using that
  proof (induction bs arbitrary: i)
    case (Cons b bs)
    show ?case
    proof (cases i)
      case 0
      have "\<forall>c \<in> set bs. map_of c k = None"
        using Cons.prems 0 by (force simp: in_set_conv_nth)
      then have "map_of (concat bs) k = None"
        by (auto simp: map_of_eq_None_iff)
      with 0 show ?thesis by (auto simp: map_add_def split: option.splits)
    next
      case (Suc j)
      have "map_of b k = None" using Cons.prems Suc by force
      moreover have "map_of (concat bs) k = map_of (bs ! j) k"
      proof (rule Cons.IH)
        show "j < length bs" using Cons.prems Suc by simp
        show "\<forall>l < length bs. l \<noteq> j \<longrightarrow> map_of (bs ! l) k = None"
        proof (intro allI impI)
          fix l assume "l < length bs" "l \<noteq> j"
          then show "map_of (bs ! l) k = None" using Cons.prems(2)[rule_format, of "Suc l"] Suc by simp
        qed
      qed
      ultimately show ?thesis using Suc by (simp add: map_add_def split: option.splits)
    qed
  qed simp
  moreover have "\<forall>j < length bs. j \<noteq> f k \<longrightarrow> map_of (bs ! j) k = None"
    using assms(1) by (force simp: map_of_eq_None_iff)
  ultimately show ?thesis using assms(2) by blast
qed

lemma map_of_rev_snoc: "map_of (rev (xs @ [(k, v)])) = (map_of (rev xs))(k \<mapsto> v)"
  by simp

lemma map_add_upd_assoc: "(m(k \<mapsto> v)) ++ map_of (rev xs) = m ++ map_of (rev ((k, v) # xs))"
  by (rule ext) (auto simp: map_add_def split: option.splits)

lemma restrict_upd_None: "(m(k := None)) |` (- S) = m |` (- (insert k S))"
  by (rule ext) (auto simp: restrict_map_def)

lemma distinct_map_fst_map_of_rev:
  "distinct (map fst xs) \<Longrightarrow> map_of (rev xs) = map_of xs"
proof (induction xs)
  case (Cons x xs)
  then have "map_of xs (fst x) = None" by (simp add: map_of_eq_None_iff)
  with Cons show ?case by (cases x) (auto simp: map_add_def split: option.splits)
qed simp

section \<open>Step relations\<close>

locale transition_system =
  fixes init :: "'s \<Rightarrow> bool"
    and step :: "'s \<Rightarrow> 's \<Rightarrow> bool"
    and inv :: "'s \<Rightarrow> bool"
  assumes inv_init: "init s \<Longrightarrow> inv s"
    and inv_step: "inv s \<Longrightarrow> step s t \<Longrightarrow> inv t"
begin

lemma inv_steps: "step\<^sup>*\<^sup>* s t \<Longrightarrow> inv s \<Longrightarrow> inv t"
  by (induction rule: rtranclp_induct) (auto intro: inv_step)

lemma inv_reachable: "init s \<Longrightarrow> step\<^sup>*\<^sup>* s t \<Longrightarrow> inv t"
  by (rule inv_steps) (auto intro: inv_init)

end

text \<open>A relation whose runs are bounded can be run until it is stuck.\<close>

lemma bounded_run_ends:
  assumes "\<And>m t. (step ^^ m) s t \<Longrightarrow> m \<le> bound"
  shows "\<exists>m t. (step ^^ m) s t \<and> \<not> (\<exists>u. step t u)"
proof (rule ccontr)
  assume stuck: "\<not> ?thesis"
  have "\<exists>t. (step ^^ m) s t" for m
  proof (induction m)
    case (Suc m)
    then show ?case using stuck by (meson relpowp_Suc_I)
  qed auto
  from this[of "Suc bound"] assms show False by (meson not_less_eq_eq order_refl)
qed

section \<open>The contract of a key-value store\<close>

locale kv_store =
  fixes ok :: "'s \<Rightarrow> bool"
    and view :: "'s \<Rightarrow> 'k \<Rightarrow> 'e option"
    and put :: "'s \<Rightarrow> 'k \<Rightarrow> 'v \<Rightarrow> 's res"
    and del :: "'s \<Rightarrow> 'k \<Rightarrow> 's"
    and mk :: "'v \<Rightarrow> 'e"
  assumes put_ok: "ok s \<Longrightarrow> \<exists>s'. put s k v = Inr s' \<and> ok s' \<and> view s' = (view s)(k \<mapsto> mk v)"
    and del_ok: "ok s \<Longrightarrow> ok (del s k)"
    and del_view: "ok s \<Longrightarrow> view (del s k) = (view s)(k := None)"
begin

lemma put_all:
  "ok s \<Longrightarrow> \<exists>s'. fold_res (\<lambda>s (k, v). put s k v) xs s = Inr s' \<and> ok s'
     \<and> view s' = view s ++ map_of (rev (map (\<lambda>(k, v). (k, mk v)) xs))"
proof (induction xs arbitrary: s)
  case (Cons x xs)
  obtain k v where x: "x = (k, v)" by (cases x)
  from put_ok[OF Cons.prems] obtain s1
    where s1: "put s k v = Inr s1" "ok s1" "view s1 = (view s)(k \<mapsto> mk v)" by blast
  from Cons.IH[OF s1(2)] obtain s'
    where s': "fold_res (\<lambda>s (k, v). put s k v) xs s1 = Inr s'" "ok s'"
      "view s' = view s1 ++ map_of (rev (map (\<lambda>(k, v). (k, mk v)) xs))" by blast
  have "view s' = view s ++ map_of (rev ((k, mk v) # map (\<lambda>(k, v). (k, mk v)) xs))"
    unfolding s'(3) s1(3) by (rule map_add_upd_assoc)
  then show ?case using s1(1) s'(1,2) x by simp
qed simp

lemma del_all_ok: "ok s \<Longrightarrow> ok (foldl del s ks)"
  by (induction ks arbitrary: s) (auto intro: del_ok)

lemma del_all_view: "ok s \<Longrightarrow> view (foldl del s ks) = view s |` (- set ks)"
proof (induction ks arbitrary: s)
  case Nil
  then show ?case by (simp add: restrict_map_def)
next
  case (Cons k ks)
  then show ?case by (simp add: del_ok del_view restrict_upd_None[unfolded fun_upd_def])
qed

end


section \<open>The contract of a queue\<close>

locale fifo =
  fixes enq :: "'q \<Rightarrow> 'a \<Rightarrow> 'q"
    and deq :: "'q \<Rightarrow> ('a \<times> 'q) option"
    and contents :: "'q \<Rightarrow> 'a list"
  assumes enq_contents: "contents (enq q x) = contents q @ [x]"
    and deq_empty: "contents q = [] \<Longrightarrow> deq q = None"
    and deq_first: "contents q = x # xs \<Longrightarrow> \<exists>q'. deq q = Some (x, q') \<and> contents q' = xs"
begin

primrec drain :: "nat \<Rightarrow> 'q \<Rightarrow> 'a list \<times> 'q" where
  "drain 0 q = ([], q)"
| "drain (Suc n) q =
     (case deq q of
        None \<Rightarrow> ([], q)
      | Some (x, q') \<Rightarrow> (let (xs, q'') = drain n q' in (x # xs, q'')))"

lemma enq_all: "contents (foldl enq q xs) = contents q @ xs"
  by (induction xs arbitrary: q) (simp_all add: enq_contents)

lemma drain_prefix: "fst (drain n q) = take n (contents q) \<and> contents (snd (drain n q)) = drop n (contents q)"
proof (induction n arbitrary: q)
  case (Suc n)
  show ?case
  proof (cases "contents q")
    case Nil
    then show ?thesis by (simp add: deq_empty)
  next
    case (Cons x xs)
    then obtain q' where "deq q = Some (x, q')" "contents q' = xs" using deq_first by blast
    with Cons Suc[of q'] show ?thesis by (simp add: case_prod_unfold Let_def)
  qed
qed simp

lemma first_in_first_out:
  "contents q = [] \<Longrightarrow> fst (drain (length xs) (foldl enq q xs)) = xs"
  by (simp add: drain_prefix enq_all)

end

end
