(* ===== verification/Cxx_Strings.thy ===== *)
theory Cxx_Strings
  imports Prelude
begin

text \<open>
  What the program uses of the C++ string and number library, as executable functions
  on \<open>string\<close> (a list of bytes): the classic locale's \<open>isspace\<close>, \<open>std::to_string\<close>,
  \<open>std::stoll\<close> and \<open>std::stoull\<close> (leading white space, one sign, decimal digits,
  anything after them ignored; \<open>std::invalid_argument\<close> without a digit,
  \<open>std::out_of_range\<close> outside 64 bits; \<open>stoull\<close> negates a signed argument modulo
  \<open>2^64\<close>), \<open>std::string::find\<close> and \<open>std::getline\<close>. The lemmas are the round trips
  of printing and parsing and the splitting of a file into lines.
\<close>

section \<open>Characters\<close>

definition newline :: char where "newline = CHR 0x0A"

definition carriage_return :: char where "carriage_return = CHR 0x0D"

definition crlf :: string where "crlf = [carriage_return, newline]"

definition isspace :: "char \<Rightarrow> bool" where
  "isspace c \<longleftrightarrow> c \<in> set [CHR '' '', CHR 0x09, CHR 0x0A, CHR 0x0B, CHR 0x0C, CHR 0x0D]"

definition isdigit :: "char \<Rightarrow> bool" where
  "isdigit c \<longleftrightarrow> 48 \<le> (of_char c :: nat) \<and> (of_char c :: nat) \<le> 57"

definition toupper :: "char \<Rightarrow> char" where
  "toupper c =
     (if 97 \<le> (of_char c :: nat) \<and> (of_char c :: nat) \<le> 122 then char_of ((of_char c :: nat) - 32) else c)"

definition digit_char :: "nat \<Rightarrow> char" where
  "digit_char d = char_of (48 + d)"

definition digit_val :: "char \<Rightarrow> nat" where
  "digit_val c = of_char c - 48"

section \<open>Numbers\<close>

fun show_nat :: "nat \<Rightarrow> string" where
  "show_nat n = (if n < 10 then [digit_char n] else show_nat (n div 10) @ [digit_char (n mod 10)])"

declare show_nat.simps [simp del]

definition show_int :: "int \<Rightarrow> string" where
  "show_int i = (if i < 0 then CHR ''-'' # show_nat (nat (- i)) else show_nat (nat i))"

definition digits_val :: "string \<Rightarrow> nat" where
  "digits_val ds = foldl (\<lambda>n c. 10 * n + digit_val c) 0 ds"

definition strip_sign :: "string \<Rightarrow> bool \<times> string" where
  "strip_sign s =
     (case s of
        c # r \<Rightarrow> if c = CHR ''-'' then (True, r) else if c = CHR ''+'' then (False, r) else (False, s)
      | [] \<Rightarrow> (False, s))"

definition scan_number :: "string \<Rightarrow> bool \<times> string" where
  "scan_number s =
     (let (neg, r) = strip_sign (dropWhile isspace s) in (neg, takeWhile isdigit r))"

definition stoll :: "string \<Rightarrow> int res" where
  "stoll s =
     (let (neg, ds) = scan_number s;
          v = (if neg then - int (digits_val ds) else int (digits_val ds)) in
      if ds = [] then Inl Invalid_argument
      else if v < - (2 ^ 63) \<or> v > 2 ^ 63 - 1 then Inl Out_of_range
      else Inr v)"

definition stoull :: "string \<Rightarrow> nat res" where
  "stoull s =
     (let (neg, ds) = scan_number s; n = digits_val ds in
      if ds = [] then Inl Invalid_argument
      else if n > 2 ^ 64 - 1 then Inl Out_of_range
      else Inr (if neg then (2 ^ 64 - n) mod 2 ^ 64 else n))"

section \<open>Searching and lines\<close>

fun find_char :: "char \<Rightarrow> string \<Rightarrow> nat option" where
  "find_char c [] = None"
| "find_char c (x # xs) = (if x = c then Some 0 else map_option Suc (find_char c xs))"

definition starts_with :: "string \<Rightarrow> string \<Rightarrow> bool" where
  "starts_with p s \<longleftrightarrow> take (length p) s = p"

fun find_substring :: "string \<Rightarrow> string \<Rightarrow> nat option" where
  "find_substring needle [] = (if needle = [] then Some 0 else None)"
| "find_substring needle (x # xs) =
     (if starts_with needle (x # xs) then Some 0 else map_option Suc (find_substring needle xs))"

function getlines :: "string \<Rightarrow> string list" where
  "getlines s =
     (if s = [] then []
      else takeWhile (\<lambda>c. c \<noteq> newline) s
           # (case dropWhile (\<lambda>c. c \<noteq> newline) s of [] \<Rightarrow> [] | _ # r \<Rightarrow> getlines r))"
  by pat_completeness auto
termination
proof (relation "measure length", goal_cases)
  case (2 s c r)
  then have "length (c # r) \<le> length s" by (metis length_dropWhile_le)
  then show ?case by simp
qed simp

declare getlines.simps [simp del]

primrec join_words :: "string list \<Rightarrow> string" where
  "join_words [] = []"
| "join_words (w # ws) = foldl (\<lambda>acc x. acc @ CHR '' '' # x) w ws"

section \<open>Printing and parsing numbers\<close>

lemma of_char_digit [simp]: "d < 10 \<Longrightarrow> of_char (digit_char d) = 48 + (d :: nat)"
  by (simp add: digit_char_def)

lemma isdigit_digit [simp]: "d < 10 \<Longrightarrow> isdigit (digit_char d)"
  by (simp add: isdigit_def)

lemma digit_val_digit [simp]: "d < 10 \<Longrightarrow> digit_val (digit_char d) = d"
  by (simp add: digit_val_def)

lemma show_nat_digits: "\<forall>c \<in> set (show_nat n). isdigit c"
proof (induction n rule: show_nat.induct)
  case (1 n)
  then show ?case by (cases "n < 10") (auto simp: show_nat.simps[of n])
qed

lemma show_nat_nonempty [simp]: "show_nat n \<noteq> []"
  by (simp add: show_nat.simps[of n])

lemma digits_val_snoc: "digits_val (ds @ [c]) = 10 * digits_val ds + digit_val c"
  by (simp add: digits_val_def)

lemma digits_val_show_nat [simp]: "digits_val (show_nat n) = n"
proof (induction n rule: show_nat.induct)
  case (1 n)
  show ?case
  proof (cases "n < 10")
    case True
    then show ?thesis by (simp add: show_nat.simps[of n] digits_val_def)
  next
    case False
    with 1 show ?thesis by (simp add: show_nat.simps[of n] digits_val_snoc)
  qed
qed

lemma isdigit_not_special: "isdigit c \<Longrightarrow> \<not> isspace c \<and> c \<noteq> CHR ''-'' \<and> c \<noteq> CHR ''+'' \<and> c \<noteq> CHR '':''"
  by (auto simp: isdigit_def isspace_def)

lemma show_nat_hd: "\<exists>c cs. show_nat n = c # cs \<and> isdigit c"
  using show_nat_digits[of n] show_nat_nonempty[of n] by (cases "show_nat n") auto

lemma takeWhile_show_nat:
  "s = [] \<or> \<not> isdigit (hd s) \<Longrightarrow> takeWhile isdigit (show_nat n @ s) = show_nat n"
  using show_nat_digits[of n] by (cases s) (auto simp: takeWhile_append)

lemma scan_number_show_nat:
  assumes "s = [] \<or> \<not> isdigit (hd s)"
  shows "scan_number (show_nat n @ s) = (False, show_nat n)"
proof -
  obtain c cs where c: "show_nat n = c # cs" "isdigit c" using show_nat_hd by blast
  then have "dropWhile isspace (show_nat n @ s) = show_nat n @ s"
    using isdigit_not_special by simp
  moreover have "strip_sign (show_nat n @ s) = (False, show_nat n @ s)"
    using c isdigit_not_special by (simp add: strip_sign_def)
  ultimately show ?thesis using takeWhile_show_nat[OF assms] by (simp add: scan_number_def)
qed

lemma scan_number_neg: "scan_number (CHR ''-'' # show_nat n) = (True, show_nat n)"
  using takeWhile_show_nat[of "[]" n] by (simp add: scan_number_def strip_sign_def isspace_def)

lemma stoull_show_nat: "n < 2 ^ 64 \<Longrightarrow> stoull (show_nat n) = Inr n"
  using scan_number_show_nat[of "[]" n] by (simp add: stoull_def)

lemma stoll_show_int:
  assumes "- (2 ^ 63) \<le> i" "i < 2 ^ 63"
  shows "stoll (show_int i) = Inr i"
proof (cases "i < 0")
  case True
  then show ?thesis using assms by (simp add: stoll_def show_int_def scan_number_neg)
next
  case False
  then show ?thesis using assms scan_number_show_nat[of "[]" "nat i"]
    by (simp add: stoll_def show_int_def)
qed

lemma stoll_range: "stoll s = Inr i \<Longrightarrow> - (2 ^ 63) \<le> i \<and> i < 2 ^ 63"
  by (auto simp: stoll_def Let_def split: prod.splits if_splits)

lemma stoull_range:
  assumes "stoull s = Inr n"
  shows "n < 2 ^ 64"
proof -
  have "(2 ^ 64 - m) mod 2 ^ 64 < (2 ^ 64 :: nat)" for m by (rule mod_less_divisor) simp
  then show ?thesis using assms by (auto simp: stoull_def Let_def split: prod.splits if_splits)
qed

section \<open>Searching\<close>

lemma find_char_None: "find_char c s = None \<longleftrightarrow> c \<notin> set s"
  by (induction s) auto

lemma find_char_append: "c \<notin> set a \<Longrightarrow> find_char c (a @ c # b) = Some (length a)"
  by (induction a) auto

lemma find_char_Some:
  "find_char c s = Some i \<Longrightarrow> i < length s \<and> s ! i = c \<and> c \<notin> set (take i s)"
  by (induction s arbitrary: i) (auto split: if_splits)

lemma starts_with_append [simp]: "starts_with p (p @ s)"
  by (simp add: starts_with_def)

lemma starts_with_iff: "starts_with p s \<longleftrightarrow> (\<exists>r. s = p @ r)"
  by (metis append_eq_conv_conj append_take_drop_id starts_with_def)

lemma find_substring_Some: "find_substring needle s \<noteq> None \<longleftrightarrow> (\<exists>a b. s = a @ needle @ b)"
proof (induction s)
  case (Cons x xs)
  have "(\<exists>a b. x # xs = a @ needle @ b) \<longleftrightarrow>
      starts_with needle (x # xs) \<or> (\<exists>a b. xs = a @ needle @ b)"
    unfolding starts_with_iff by (metis append_Cons append_Nil list.exhaust list.inject)
  with Cons show ?case by (cases "find_substring needle xs") auto
qed simp

section \<open>Lines\<close>

lemma getlines_Nil [simp]: "getlines [] = []"
  by (simp add: getlines.simps)

lemma getlines_line: "newline \<notin> set l \<Longrightarrow> getlines (l @ newline # r) = l # getlines r"
  by (subst getlines.simps) (auto simp: takeWhile_append dropWhile_append)

lemma getlines_unlines:
  "\<forall>l \<in> set ls. newline \<notin> set l \<Longrightarrow> getlines (concat (map (\<lambda>l. l @ [newline]) ls)) = ls"
  by (induction ls) (auto simp: getlines_line)

lemma getlines_unlines_append:
  "\<forall>l \<in> set ls. newline \<notin> set l \<Longrightarrow>
     getlines (concat (map (\<lambda>l. l @ [newline]) ls) @ r) = ls @ getlines r"
  by (induction ls) (auto simp: getlines_line)

end
