(* ===== verification/Protocol.thy ===== *)
theory Protocol
  imports Cxx_Strings
begin

text \<open>
  The text protocol: \<open>src/protocol/command.cpp\<close> (command names), \<open>src/protocol/parser.cpp\<close>
  (a request line becomes a command) and \<open>src/protocol/response.cpp\<close> (replies). The lemmas
  give the parser a grammar: a line is read as its maximal runs of non-space bytes, whatever
  white space separates or surrounds them, and a command that is printed with single spaces
  parses back to itself.
\<close>

section \<open>Commands\<close>

datatype CommandType =
    Unknown
  | Ping
  | Get
  | Set
  | Delete
  | Exists
  | Expire
  | Subscribe
  | Publish
  | Info
  | Mget
  | Mset
  | Incr
  | Decr
  | Incrby
  | Scan
  | Auth
  | Config
  | Flushdb
  | Dbsize
  | Bgrewriteaof

record ParsedCommand =
  cmd_type :: CommandType
  cmd_name :: string
  cmd_args :: "string list"

definition upper :: "string \<Rightarrow> string" where
  "upper s = map toupper s"

definition command_type_from_name :: "string \<Rightarrow> CommandType" where
  "command_type_from_name name =
     (let key = upper name in
      if key = ''PING'' then Ping
      else if key = ''GET'' then Get
      else if key = ''SET'' then Set
      else if key = ''DEL'' \<or> key = ''DELETE'' then Delete
      else if key = ''EXISTS'' then Exists
      else if key = ''EXPIRE'' then Expire
      else if key = ''SUBSCRIBE'' then Subscribe
      else if key = ''PUBLISH'' then Publish
      else if key = ''INFO'' then Info
      else if key = ''MGET'' then Mget
      else if key = ''MSET'' then Mset
      else if key = ''INCR'' then Incr
      else if key = ''DECR'' then Decr
      else if key = ''INCRBY'' then Incrby
      else if key = ''SCAN'' then Scan
      else if key = ''AUTH'' then Auth
      else if key = ''CONFIG'' then Config
      else if key = ''FLUSHDB'' then Flushdb
      else if key = ''DBSIZE'' then Dbsize
      else if key = ''BGREWRITEAOF'' then Bgrewriteaof
      else Unknown)"

section \<open>The parser\<close>

definition trim :: "string \<Rightarrow> string" where
  "trim s = rev (dropWhile isspace (rev (dropWhile isspace s)))"

text \<open>
  \<open>stream >> token\<close> skips white space, then takes bytes up to the next white space; it fails
  when no byte is left, which ends the loop.
\<close>

function tokenize :: "string \<Rightarrow> string list" where
  "tokenize line =
     (let r = dropWhile isspace line in
      if r = [] then []
      else takeWhile (\<lambda>c. \<not> isspace c) r # tokenize (dropWhile (\<lambda>c. \<not> isspace c) r))"
  by pat_completeness auto
termination
proof (relation "measure length", goal_cases)
  case (2 line r)
  then obtain c cs where r: "r = c # cs" by (meson neq_Nil_conv)
  with 2 have "\<not> isspace c" by (metis hd_dropWhile list.sel(1))
  with r have "length (dropWhile (\<lambda>c. \<not> isspace c) r) < length r"
    by (simp add: length_dropWhile_le less_Suc_eq_le)
  also have "\<dots> \<le> length line" using 2 length_dropWhile_le by metis
  finally show ?case by simp
qed simp

declare tokenize.simps [simp del]

definition parse_line :: "string \<Rightarrow> ParsedCommand option" where
  "parse_line raw =
     (let line = trim raw in
      if line = [] then None
      else case tokenize line of
             [] \<Rightarrow> None
           | name # args \<Rightarrow>
               Some \<lparr> cmd_type = command_type_from_name name, cmd_name = name, cmd_args = args \<rparr>)"

section \<open>Replies\<close>

definition ok_response :: string where
  "ok_response = ''+OK''"

definition err_response :: "string \<Rightarrow> string" where
  "err_response message = ''-ERR '' @ message"

definition integer_response :: "int \<Rightarrow> string" where
  "integer_response value = '':'' @ show_int value"

definition bulk_string_response :: "string \<Rightarrow> string" where
  "bulk_string_response value = ''$'' @ show_nat (length value) @ crlf @ value"

definition null_bulk_response :: string where
  "null_bulk_response = ''$-1''"

section \<open>The grammar of a request line\<close>

definition is_word :: "string \<Rightarrow> bool" where
  "is_word w \<longleftrightarrow> w \<noteq> [] \<and> (\<forall>c \<in> set w. \<not> isspace c)"

definition is_blank :: "string \<Rightarrow> bool" where
  "is_blank s \<longleftrightarrow> (\<forall>c \<in> set s. isspace c)"

lemma tokenize_blank: "is_blank s \<Longrightarrow> tokenize s = []"
  by (subst tokenize.simps) (simp add: is_blank_def Let_def)

lemma dropWhile_blank: "is_blank s \<Longrightarrow> dropWhile isspace (s @ r) = dropWhile isspace r"
  by (induction s) (auto simp: is_blank_def)

lemma tokenize_skip: "is_blank s \<Longrightarrow> tokenize (s @ r) = tokenize r"
  by (subst (1 2) tokenize.simps) (simp add: dropWhile_blank)

lemma tokenize_word:
  assumes "is_word w" "r = [] \<or> isspace (hd r)"
  shows "tokenize (w @ r) = w # tokenize r"
proof -
  have "dropWhile isspace (w @ r) = w @ r"
    using assms(1) by (cases w) (auto simp: is_word_def)
  moreover have "takeWhile (\<lambda>c. \<not> isspace c) (w @ r) = w"
    using assms by (cases r) (auto simp: is_word_def takeWhile_append)
  moreover have "dropWhile (\<lambda>c. \<not> isspace c) (w @ r) = r"
    using assms by (cases r) (auto simp: is_word_def dropWhile_append)
  ultimately show ?thesis
    using assms(1) by (subst tokenize.simps) (auto simp: is_word_def)
qed

lemma tokenize_words: "w \<in> set (tokenize s) \<Longrightarrow> is_word w"
proof (induction s rule: tokenize.induct)
  case (1 s)
  define r where "r = dropWhile isspace s"
  show ?case
  proof (cases "r = []")
    case True
    then show ?thesis using 1(2) by (subst (asm) tokenize.simps) (simp add: r_def)
  next
    case False
    then have h: "\<not> isspace (hd r)" using hd_dropWhile r_def by metis
    have word: "is_word (takeWhile (\<lambda>c. \<not> isspace c) r)"
      using False h by (cases r) (auto simp: is_word_def dest: set_takeWhileD)
    have "w = takeWhile (\<lambda>c. \<not> isspace c) r \<or> w \<in> set (tokenize (dropWhile (\<lambda>c. \<not> isspace c) r))"
      using 1(2) False by (subst (asm) tokenize.simps) (simp add: r_def[symmetric] Let_def)
    then show ?thesis using 1(1)[OF r_def False] word by blast
  qed
qed

lemma tokenize_concat: "concat (tokenize s) = filter (\<lambda>c. \<not> isspace c) s"
proof (induction s rule: tokenize.induct)
  case (1 s)
  define r where "r = dropWhile isspace s"
  have blank: "filter (\<lambda>c. \<not> isspace c) s = filter (\<lambda>c. \<not> isspace c) r"
    unfolding r_def by (induction s) auto
  show ?case
  proof (cases "r = []")
    case True
    then show ?thesis using blank by (subst tokenize.simps) (simp add: r_def)
  next
    case False
    have "filter (\<lambda>c. \<not> isspace c) r =
        takeWhile (\<lambda>c. \<not> isspace c) r @ filter (\<lambda>c. \<not> isspace c) (dropWhile (\<lambda>c. \<not> isspace c) r)"
      by (induction r) auto
    then show ?thesis
      using 1[OF r_def False] False blank by (subst tokenize.simps) (simp add: r_def[symmetric] Let_def)
  qed
qed

lemma tokenize_snoc_blank: "isspace c \<Longrightarrow> tokenize (s @ [c]) = tokenize s"
proof (induction s rule: tokenize.induct)
  case (1 s)
  define r where "r = dropWhile isspace s"
  show ?case
  proof (cases "r = []")
    case True
    then have "is_blank s" by (simp add: r_def is_blank_def)
    with 1(2) have "is_blank (s @ [c])" by (simp add: is_blank_def)
    with \<open>is_blank s\<close> show ?thesis by (simp add: tokenize_blank)
  next
    case False
    then have drop: "dropWhile isspace (s @ [c]) = r @ [c]"
      by (auto simp: r_def dropWhile_append)
    have "takeWhile (\<lambda>c. \<not> isspace c) (r @ [c]) = takeWhile (\<lambda>c. \<not> isspace c) r"
      and "dropWhile (\<lambda>c. \<not> isspace c) (r @ [c]) = dropWhile (\<lambda>c. \<not> isspace c) r @ [c]"
      using 1(2) by (induction r) auto
    then show ?thesis
      using 1(1)[OF r_def False 1(2)] False drop
      by (subst (1 2) tokenize.simps) (simp add: r_def[symmetric] Let_def)
  qed
qed

lemma tokenize_trail_blank: "is_blank b \<Longrightarrow> tokenize (s @ b) = tokenize s"
proof (induction b rule: rev_induct)
  case (snoc c b)
  then have "isspace c" "is_blank b" by (auto simp: is_blank_def)
  with snoc.IH show ?case using tokenize_snoc_blank[of c "s @ b"] by simp
qed simp

lemma trim_decomp: "\<exists>a b. s = a @ trim s @ b \<and> is_blank a \<and> is_blank b"
proof -
  define m where "m = dropWhile isspace s"
  have "s = takeWhile isspace s @ m" by (simp add: m_def)
  moreover have "m = rev (dropWhile isspace (rev m)) @ rev (takeWhile isspace (rev m))"
    by (metis rev_append rev_rev_ident takeWhile_dropWhile_id)
  ultimately have "s = takeWhile isspace s @ trim s @ rev (takeWhile isspace (rev m))"
    by (simp add: trim_def m_def)
  moreover have "is_blank (takeWhile isspace s)" "is_blank (rev (takeWhile isspace (rev m)))"
    by (auto simp: is_blank_def dest: set_takeWhileD)
  ultimately show ?thesis by blast
qed

lemma tokenize_trim [simp]: "tokenize (trim s) = tokenize s"
proof -
  obtain a b where "s = a @ trim s @ b" "is_blank a" "is_blank b" using trim_decomp by blast
  then show ?thesis by (metis append_assoc tokenize_skip tokenize_trail_blank)
qed

lemma parse_line_tokens:
  "parse_line raw =
     (case tokenize raw of
        [] \<Rightarrow> None
      | name # args \<Rightarrow>
          Some \<lparr> cmd_type = command_type_from_name name, cmd_name = name, cmd_args = args \<rparr>)"
proof (cases "trim raw = []")
  case True
  then have "tokenize raw = []" by (metis tokenize_trim tokenize_blank is_blank_def empty_iff list.set(1))
  with True show ?thesis by (simp add: parse_line_def)
qed (simp add: parse_line_def Let_def)

section \<open>Printing a command\<close>

lemma join_words_Cons: "join_words (w # ws) = w @ concat (map (\<lambda>x. CHR '' '' # x) ws)"
proof -
  have "foldl (\<lambda>acc x. acc @ CHR '' '' # x) w ws = w @ concat (map (\<lambda>x. CHR '' '' # x) ws)" for w
    by (induction ws arbitrary: w) auto
  then show ?thesis by simp
qed

lemma join_words_Cons2: "join_words (w # v # ws) = w @ CHR '' '' # join_words (v # ws)"
  by (simp only: join_words_Cons) simp

lemma isspace_blank [simp]: "isspace (CHR '' '')"
  by (simp add: isspace_def)

lemma tokenize_join_words: "\<forall>w \<in> set ws. is_word w \<Longrightarrow> tokenize (join_words ws) = ws"
proof (induction ws)
  case Nil
  show ?case by (simp add: tokenize_blank is_blank_def)
next
  case (Cons w ws)
  show ?case
  proof (cases ws)
    case Nil
    then show ?thesis using Cons.prems tokenize_word[of w "[]"] tokenize_blank[of "[]"]
      by (simp add: is_blank_def)
  next
    case (Cons v vs)
    have "tokenize (join_words (w # v # vs)) = w # tokenize (CHR '' '' # join_words (v # vs))"
      unfolding join_words_Cons2 by (rule tokenize_word) (use Cons.prems in auto)
    also have "\<dots> = w # tokenize (join_words (v # vs))"
      using tokenize_skip[of "'' ''" "join_words (v # vs)"] by (simp add: is_blank_def)
    finally show ?thesis using Cons Cons.IH Cons.prems by simp
  qed
qed

lemma parse_line_join_words:
  assumes "\<forall>w \<in> set (name # args). is_word w"
  shows "parse_line (join_words (name # args)) =
    Some \<lparr> cmd_type = command_type_from_name name, cmd_name = name, cmd_args = args \<rparr>"
  unfolding parse_line_tokens tokenize_join_words[OF assms] by simp

lemma upper_upper [simp]: "upper (upper s) = upper s"
proof -
  have "toupper (toupper c) = toupper c" for c
    by (auto simp: toupper_def)
  then show ?thesis by (simp add: upper_def comp_def)
qed

lemma command_type_upper: "command_type_from_name (upper name) = command_type_from_name name"
  by (simp add: command_type_from_name_def)

lemma parse_line_words:
  assumes "parse_line raw = Some cmd"
  shows "is_word (cmd_name cmd) \<and> (\<forall>a \<in> set (cmd_args cmd). is_word a)
    \<and> cmd_type cmd = command_type_from_name (cmd_name cmd)
    \<and> tokenize raw = cmd_name cmd # cmd_args cmd"
proof -
  from assms obtain name args where
    "tokenize raw = name # args"
    "cmd = \<lparr> cmd_type = command_type_from_name name, cmd_name = name, cmd_args = args \<rparr>"
    by (auto simp: parse_line_tokens split: list.splits)
  then show ?thesis using tokenize_words[of _ raw] by auto
qed

section \<open>Properties\<close>

text \<open>
  C32: a command name and arguments without white space, joined by single spaces and
  surrounded by any white space, parse back to that name and those arguments.
\<close>

theorem parse_print_roundtrip:
  assumes "\<forall>w \<in> set (name # args). is_word w" "is_blank before" "is_blank after"
  shows "parse_line (before @ join_words (name # args) @ after) =
    Some \<lparr> cmd_type = command_type_from_name name, cmd_name = name, cmd_args = args \<rparr>"
proof -
  have "tokenize (before @ join_words (name # args) @ after) = name # args"
    unfolding tokenize_skip[OF assms(2)] tokenize_trail_blank[OF assms(3)] by (rule tokenize_join_words[OF assms(1)])
  then show ?thesis unfolding parse_line_tokens by simp
qed

theorem parse_print_roundtrip_witness:
  "parse_line ''  set k v1 v2 '' = Some \<lparr> cmd_type = Set, cmd_name = ''set'', cmd_args = [''k'', ''v1'', ''v2''] \<rparr>"
proof -
  have "command_type_from_name ''set'' = Set" by code_simp
  then show ?thesis using parse_print_roundtrip[of "''set''" "[''k'', ''v1'', ''v2'']" "''  ''" "'' ''"]
    by (simp add: is_word_def is_blank_def isspace_def)
qed

text \<open>
  C33: the parser neither loses nor invents bytes: a line gives no command just when it is
  all white space, and otherwise the name and arguments are non-empty, free of white space,
  and their concatenation is the line without its white space; command names are recognised
  in any case.
\<close>

theorem parse_line_grammar:
  "(case parse_line raw of
      None \<Rightarrow> is_blank raw
    | Some cmd \<Rightarrow> (\<forall>w \<in> set (cmd_name cmd # cmd_args cmd). is_word w)
        \<and> concat (cmd_name cmd # cmd_args cmd) = filter (\<lambda>c. \<not> isspace c) raw
        \<and> cmd_type cmd = command_type_from_name (upper (cmd_name cmd)))"
proof (cases "tokenize raw")
  case Nil
  then have "filter (\<lambda>c. \<not> isspace c) raw = []" using tokenize_concat[of raw] by simp
  with Nil show ?thesis by (simp add: parse_line_tokens is_blank_def filter_empty_conv)
next
  case (Cons name args)
  then show ?thesis
    using tokenize_words[of _ raw] tokenize_concat[of raw] by (simp add: parse_line_tokens command_type_upper)
qed

theorem parse_line_grammar_witness:
  "case parse_line ''get k'' of
     None \<Rightarrow> False
   | Some cmd \<Rightarrow> concat (cmd_name cmd # cmd_args cmd) = ''getk'' \<and> cmd_type cmd = Get"
proof -
  have t: "command_type_from_name ''GET'' = Get" "upper ''get'' = ''GET''" by code_simp+
  have "parse_line ''get k'' = Some \<lparr>cmd_type = Get, cmd_name = ''get'', cmd_args = [''k'']\<rparr>"
    using parse_line_join_words[of "''get''" "[''k'']"] t command_type_upper[of "''get''"]
    by (simp add: is_word_def isspace_def)
  then show ?thesis using parse_line_grammar[of "''get k''"] by (simp add: isspace_def)
qed

end
