(* ===== verification/Memory_Pool.thy ===== *)
theory Memory_Pool
  imports Prelude
begin

text \<open>
  The fixed-block pool of src/memory/buffer_pool.cpp and the string copier on top of it,
  src/memory/string_pool.cpp.

  The bytes a pool owns are explicit: \<open>slabs\<close> is the list of slabs, each a list of
  bytes, and a \<open>char*\<close> into them is a pair of a slab number and an offset (growing the
  vector of slabs moves the slab headers, never their bytes, so such a pointer stays
  valid). \<open>memcpy\<close> and the string constructor check the bounds of the slab they touch
  and are \<open>Inl Out_of_bounds\<close> outside them. The mutex of the pool makes each operation
  one atomic step.

  Shown here: the free blocks and the blocks handed out always lie inside their slab and
  never overlap (\<open>pool_inv\<close>), so \<open>StringPool::copy\<close> never touches memory out of
  bounds and returns exactly its argument.
\<close>

section \<open>Buffer pool\<close>

type_synonym ptr = "nat \<times> nat"

record BufferPool =
  block_size :: nat
  free_list :: "ptr list"
  slabs :: "string list"

definition zero_bytes :: "nat \<Rightarrow> string" where
  "zero_bytes n = replicate n (CHR 0x00)"

definition slab_blocks :: "nat \<Rightarrow> nat \<Rightarrow> nat \<Rightarrow> ptr list" where
  "slab_blocks slab bs n = map (\<lambda>i. (slab, i * bs)) [0..<n]"

definition BufferPool_new :: "nat \<Rightarrow> nat \<Rightarrow> BufferPool" where
  "BufferPool_new bs initial_blocks =
     \<lparr>block_size = bs,
      free_list = slab_blocks 0 bs initial_blocks,
      slabs = [zero_bytes (initial_blocks * bs)]\<rparr>"

definition BufferPool_refill :: "BufferPool \<Rightarrow> BufferPool" where
  "BufferPool_refill p =
     (if free_list p = [] then
        p\<lparr>free_list := slab_blocks (length (slabs p)) (block_size p) 64,
          slabs := slabs p @ [zero_bytes (block_size p * 64)]\<rparr>
      else p)"

definition BufferPool_acquire :: "BufferPool \<Rightarrow> nat \<Rightarrow> BufferPool \<times> ptr" where
  "BufferPool_acquire p min_size =
     (if min_size > block_size p then
        (p\<lparr>slabs := slabs p @ [zero_bytes min_size]\<rparr>, (length (slabs p), 0))
      else
        let p' = BufferPool_refill p
        in (p'\<lparr>free_list := butlast (free_list p')\<rparr>, last (free_list p')))"

definition BufferPool_release :: "BufferPool \<Rightarrow> ptr option \<Rightarrow> BufferPool" where
  "BufferPool_release p block =
     (case block of None \<Rightarrow> p | Some b \<Rightarrow> p\<lparr>free_list := free_list p @ [b]\<rparr>)"

definition BufferPool_allocated_blocks :: "BufferPool \<Rightarrow> nat res" where
  "BufferPool_allocated_blocks p =
     fold_res (\<lambda>total slab. if block_size p = 0 then Inl Division_by_zero
                           else Inr (total + length slab div block_size p)) (slabs p) 0"

definition BufferPool_free_blocks :: "BufferPool \<Rightarrow> nat" where
  "BufferPool_free_blocks p = length (free_list p)"

section \<open>String pool\<close>

record StringPool =
  pool :: BufferPool
  copies :: "64 word"

definition StringPool_new :: "BufferPool \<Rightarrow> StringPool" where
  "StringPool_new p = \<lparr>pool = p, copies = 0\<rparr>"

definition memcpy :: "BufferPool \<Rightarrow> ptr \<Rightarrow> string \<Rightarrow> BufferPool res" where
  "memcpy p b source =
     (let (i, off) = b in
      if i < length (slabs p) \<and> off + length source \<le> length (slabs p ! i)
      then Inr (p\<lparr>slabs := (slabs p)[i :=
             take off (slabs p ! i) @ source @ drop (off + length source) (slabs p ! i)]\<rparr>)
      else Inl Out_of_bounds)"

definition read_bytes :: "BufferPool \<Rightarrow> ptr \<Rightarrow> nat \<Rightarrow> string res" where
  "read_bytes p b n =
     (let (i, off) = b in
      if i < length (slabs p) \<and> off + n \<le> length (slabs p ! i)
      then Inr (take n (drop off (slabs p ! i)))
      else Inl Out_of_bounds)"

definition StringPool_copy :: "StringPool \<Rightarrow> string \<Rightarrow> (StringPool \<times> string) res" where
  "StringPool_copy sp source =
     (let sp1 = sp\<lparr>copies := copies sp + 1\<rparr> in
      if length source \<le> block_size (pool sp1) then
        let (p, block) = BufferPool_acquire (pool sp1) (length source) in
        bind_res (memcpy p block source) (\<lambda>p1.
        bind_res (read_bytes p1 block (length source)) (\<lambda>result.
        Inr (sp1\<lparr>pool := BufferPool_release p1 (Some block)\<rparr>, result)))
      else Inr (sp1, source))"

definition StringPool_reset_stats :: "StringPool \<Rightarrow> StringPool" where
  "StringPool_reset_stats sp = sp\<lparr>copies := 0\<rparr>"

section \<open>Invariants\<close>

text \<open>
  \<open>pool_inv used p\<close>: the blocks in the hands of clients are \<open>used\<close>. Free and used
  blocks are distinct, start at multiples of the block size of their slab or at its
  beginning, and lie inside it.
\<close>

definition block_ok :: "BufferPool \<Rightarrow> ptr \<Rightarrow> bool" where
  "block_ok p b \<longleftrightarrow>
     fst b < length (slabs p)
     \<and> snd b + block_size p \<le> length (slabs p ! fst b)
     \<and> block_size p dvd snd b"

definition pool_inv :: "ptr list \<Rightarrow> BufferPool \<Rightarrow> bool" where
  "pool_inv used p \<longleftrightarrow>
     0 < block_size p
     \<and> distinct (free_list p @ used)
     \<and> (\<forall>b \<in> set (free_list p @ used). block_ok p b)"

definition blocks_overlap :: "nat \<Rightarrow> ptr \<Rightarrow> ptr \<Rightarrow> bool" where
  "blocks_overlap n a b \<longleftrightarrow> fst a = fst b \<and> snd a < snd b + n \<and> snd b < snd a + n"

abbreviation pool_ok :: "StringPool \<Rightarrow> bool" where
  "pool_ok sp \<equiv> pool_inv [] (pool sp)"

text \<open>
  Clients of a pool: any interleaving of acquisitions (each by some thread, one at a
  time under the mutex) and releases of a block that is in use.
\<close>

inductive pool_step :: "ptr list \<times> BufferPool \<Rightarrow> ptr list \<times> BufferPool \<Rightarrow> bool" where
  acquire: "BufferPool_acquire p n = (p', b) \<Longrightarrow> pool_step (used, p) (b # used, p')"
| release: "b \<in> set used \<Longrightarrow> pool_step (used, p) (remove1 b used, BufferPool_release p (Some b))"

inductive_cases pool_stepE: "pool_step s t"

section \<open>Blocks\<close>

lemma dvd_distinct_apart:
  fixes a b n :: nat
  assumes "n dvd a" "n dvd b" "a < b + n" "b < a + n" "0 < n"
  shows "a = b"
proof -
  obtain x y where xy: "a = n * x" "b = n * y" using assms(1,2) by (auto elim!: dvdE)
  have "n * x < n * Suc y" "n * y < n * Suc x" using assms(3,4) xy by simp_all
  then have "x < Suc y" "y < Suc x" using assms(5) by (simp_all only: mult_less_cancel1)
  with xy show ?thesis by simp
qed

lemma block_ok_apart:
  "block_ok p a \<Longrightarrow> block_ok p b \<Longrightarrow> 0 < block_size p \<Longrightarrow> a \<noteq> b \<Longrightarrow> \<not> blocks_overlap (block_size p) a b"
  by (auto simp: block_ok_def blocks_overlap_def prod_eq_iff dest: dvd_distinct_apart)

lemma block_ok_append: "block_ok p b \<Longrightarrow> block_ok (p\<lparr>slabs := slabs p @ ss, free_list := fl\<rparr>) b"
  by (auto simp: block_ok_def nth_append)

lemma block_ok_slab_append: "block_ok p b \<Longrightarrow> block_ok (p\<lparr>slabs := slabs p @ ss\<rparr>) b"
  by (auto simp: block_ok_def nth_append)

lemma block_ok_free_list [simp]: "block_ok (p\<lparr>free_list := fl\<rparr>) b = block_ok p b"
  by (simp add: block_ok_def)

lemma slab_blocks_new:
  assumes "b \<in> set (slab_blocks (length ss) bs n)"
  shows "fst b = length ss" "snd b + bs \<le> n * bs" "bs dvd snd b"
proof -
  from assms have "b \<in> (\<lambda>i. (length ss, i * bs)) ` {0..<n}" by (simp add: slab_blocks_def)
  then obtain i where i: "b = (length ss, i * bs)" "i < n" by (blast dest: atLeastLessThan_iff[THEN iffD1])
  then have "Suc i * bs \<le> n * bs" by (intro mult_le_mono1) simp
  with i show "fst b = length ss" "snd b + bs \<le> n * bs" "bs dvd snd b" by auto
qed

lemma distinct_slab_blocks: "0 < bs \<Longrightarrow> distinct (slab_blocks slab bs n)"
  by (auto simp: slab_blocks_def distinct_map inj_on_def)

lemma pool_invD:
  assumes "pool_inv used p"
  shows "0 < block_size p" "distinct (free_list p)" "distinct used"
    "set (free_list p) \<inter> set used = {}" "\<And>b. b \<in> set (free_list p) \<Longrightarrow> block_ok p b"
    "\<And>b. b \<in> set used \<Longrightarrow> block_ok p b"
  using assms unfolding pool_inv_def by auto

lemma pool_invI:
  assumes "0 < block_size p" "distinct (free_list p)" "distinct used"
    "set (free_list p) \<inter> set used = {}" "\<And>b. b \<in> set (free_list p) \<Longrightarrow> block_ok p b"
    "\<And>b. b \<in> set used \<Longrightarrow> block_ok p b"
  shows "pool_inv used p"
  using assms unfolding pool_inv_def by auto

lemma block_ok_fst: "block_ok p b \<Longrightarrow> fst b < length (slabs p)"
  by (simp add: block_ok_def)

lemma pool_inv_new: "0 < bs \<Longrightarrow> pool_inv [] (BufferPool_new bs n)"
  using slab_blocks_new[of _ "[] :: string list" bs n]
  by (fastforce simp: pool_inv_def BufferPool_new_def block_ok_def distinct_slab_blocks zero_bytes_def)

lemma pool_inv_refill:
  assumes "pool_inv used p"
  shows "pool_inv used (BufferPool_refill p)" "free_list (BufferPool_refill p) \<noteq> []"
    "block_size (BufferPool_refill p) = block_size p"
proof -
  let ?fresh = "slab_blocks (length (slabs p)) (block_size p) 64"
  show "block_size (BufferPool_refill p) = block_size p" by (simp add: BufferPool_refill_def)
  show "free_list (BufferPool_refill p) \<noteq> []" by (simp add: BufferPool_refill_def slab_blocks_def)
  show "pool_inv used (BufferPool_refill p)"
  proof (cases "free_list p = []")
    case True
    note d = pool_invD[OF assms]
    show ?thesis
    proof (rule pool_invI)
      have "b \<notin> set used" if "b \<in> set ?fresh" for b
        using slab_blocks_new(1)[OF that] d(6)[THEN block_ok_fst] by (metis less_irrefl)
      then show "set (free_list (BufferPool_refill p)) \<inter> set used = {}"
        using True by (auto simp: BufferPool_refill_def)
      show "block_ok (BufferPool_refill p) b" if "b \<in> set (free_list (BufferPool_refill p))" for b
        using that True slab_blocks_new[of b "slabs p" "block_size p" 64]
        by (simp add: BufferPool_refill_def block_ok_def zero_bytes_def mult.commute)
      show "block_ok (BufferPool_refill p) b" if "b \<in> set used" for b
        using d(6)[OF that] True by (auto simp: BufferPool_refill_def block_ok_def nth_append)
    qed (use True d in \<open>auto simp: BufferPool_refill_def distinct_slab_blocks\<close>)
  next
    case False
    then show ?thesis using assms by (simp add: BufferPool_refill_def)
  qed
qed

lemma acquire_inv:
  assumes "pool_inv used p" "BufferPool_acquire p n = (p', b)"
  shows "pool_inv (b # used) p'" "block_size p' = block_size p"
    "n \<le> length (slabs p' ! fst b) - snd b"
proof -
  have bs: "0 < block_size p" using assms(1) by (simp add: pool_inv_def)
  have "pool_inv (b # used) p' \<and> block_size p' = block_size p \<and> n \<le> length (slabs p' ! fst b) - snd b"
  proof (cases "n > block_size p")
    case True
    with assms(2) have p': "p' = p\<lparr>slabs := slabs p @ [zero_bytes n]\<rparr>" "b = (length (slabs p), 0)"
      by (auto simp: BufferPool_acquire_def)
    note d = pool_invD[OF assms(1)]
    have "\<not> block_ok p b" using block_ok_fst[of p b] p'(2) by auto
    then have new: "b \<notin> set used" "b \<notin> set (free_list p)" using d(5,6) by blast+
    have "block_ok p' b" using p' True by (simp add: block_ok_def zero_bytes_def)
    moreover have "block_ok p' c" if "block_ok p c" for c
      unfolding p' using that by (rule block_ok_slab_append)
    ultimately have "pool_inv (b # used) p'"
      using d new by (intro pool_invI) (auto simp: p'(1))
    then show ?thesis by (simp add: p' zero_bytes_def)
  next
    case False
    let ?q = "BufferPool_refill p"
    note r = pool_inv_refill[OF assms(1)]
    from False assms(2) have p': "p' = ?q\<lparr>free_list := butlast (free_list ?q)\<rparr>" "b = last (free_list ?q)"
      by (auto simp: BufferPool_acquire_def Let_def)
    have fl: "free_list ?q = butlast (free_list ?q) @ [b]" using r(2) p' by simp
    have "distinct (butlast (free_list ?q) @ b # used)"
      "\<forall>c \<in> set (butlast (free_list ?q) @ b # used). block_ok ?q c"
      using r(1) fl unfolding pool_inv_def by (metis append.assoc append_Cons append_Nil)+
    then show ?thesis using bs r(3) False by (auto simp: pool_inv_def p' block_ok_def)
  qed
  then show "pool_inv (b # used) p'" "block_size p' = block_size p"
    "n \<le> length (slabs p' ! fst b) - snd b" by blast+
qed

lemma release_inv:
  "pool_inv used p \<Longrightarrow> b \<in> set used \<Longrightarrow> pool_inv (remove1 b used) (BufferPool_release p (Some b))"
  unfolding BufferPool_release_def pool_inv_def
  by (auto simp: Let_def simp del: split_paired_All dest: set_remove1_subset[THEN subsetD])

lemma memcpy_frame:
  assumes "memcpy p b s = Inr p'"
  shows "block_size p' = block_size p" "free_list p' = free_list p"
    "map length (slabs p') = map length (slabs p)"
  using assms
  by (auto simp: memcpy_def Let_def map_update list_update_same_conv split: if_splits prod.splits)

lemma memcpy_inv:
  assumes "pool_inv used p" "memcpy p b s = Inr p'"
  shows "pool_inv used p'"
proof -
  note f = memcpy_frame[OF assms(2)]
  have "length (slabs p') = length (slabs p)" using f(3) by (metis length_map)
  moreover from this have "length (slabs p' ! i) = length (slabs p ! i)" if "i < length (slabs p)" for i
    using f(3) that by (metis nth_map)
  ultimately have "block_ok p c \<Longrightarrow> block_ok p' c" for c using f(1) by (simp add: block_ok_def)
  then show ?thesis using assms(1) f(1,2) unfolding pool_inv_def by auto
qed

lemma memcpy_read:
  assumes "pool_inv used p" "b \<in> set used" "length s \<le> block_size p"
  shows "\<exists>p'. memcpy p b s = Inr p' \<and> read_bytes p' b (length s) = Inr s"
proof -
  have "block_ok p b" using assms by (simp add: pool_inv_def)
  with assms(3) show ?thesis by (auto simp: memcpy_def read_bytes_def block_ok_def Let_def split: prod.splits)
qed

section \<open>Copying\<close>

lemma copy_correct:
  assumes "pool_ok sp"
  shows "\<exists>sp'. StringPool_copy sp source = Inr (sp', source) \<and> pool_ok sp'
     \<and> copies sp' = copies sp + 1 \<and> block_size (pool sp') = block_size (pool sp)"
proof (cases "length source \<le> block_size (pool sp)")
  case True
  obtain p b where acq: "BufferPool_acquire (pool sp) (length source) = (p, b)" by (rule prod.exhaust)
  note inv = acquire_inv[OF assms acq]
  from memcpy_read[OF inv(1), of b source] True inv(2) obtain p1 where
    p1: "memcpy p b source = Inr p1" "read_bytes p1 b (length source) = Inr source" by auto
  have "pool_inv [b] p1" "block_size p1 = block_size p"
    using memcpy_inv[OF inv(1) p1(1)] memcpy_frame(1)[OF p1(1)] by simp_all
  with release_inv[of "[b]" p1 b] inv(2)
  show ?thesis using True acq p1 by (simp add: StringPool_copy_def Let_def BufferPool_release_def)
next
  case False
  then show ?thesis using assms by (simp add: StringPool_copy_def Let_def)
qed

interpretation pools: transition_system
  "\<lambda>(used, p). \<exists>bs n. 0 < bs \<and> used = [] \<and> p = BufferPool_new bs n"
  pool_step
  "\<lambda>(used, p). pool_inv used p"
proof (unfold_locales, goal_cases)
  case (1 s)
  then show ?case by (auto simp: pool_inv_new)
next
  case (2 s t)
  then show ?case by (auto elim!: pool_stepE intro: acquire_inv release_inv)
qed

section \<open>Properties\<close>



text \<open>
  C28: \<open>StringPool::copy\<close> never writes or reads outside its block, returns the bytes it was
  given whether they fit in a block or not, gives the block back and counts the copy.
\<close>

theorem string_copy_safe:
  assumes "pool_ok sp"
  shows "\<exists>sp'. StringPool_copy sp source = Inr (sp', source) \<and> pool_ok sp'
     \<and> copies sp' = copies sp + 1 \<and> block_size (pool sp') = block_size (pool sp)"
  using assms by (rule copy_correct)

theorem string_copy_safe_witness:
  "\<exists>sp'. StringPool_copy (StringPool_new (BufferPool_new 4 1)) ''abc'' = Inr (sp', ''abc'') \<and> copies sp' = 1"
  using string_copy_safe[of "StringPool_new (BufferPool_new 4 1)" "''abc''"] pool_inv_new[of 4 1]
  by (auto simp: StringPool_new_def)

end
