(* ===== verification/Arena.thy ===== *)
theory Arena
  imports Prelude
begin

unbundle bit_operations_syntax

text \<open>
  The bump allocator of src/memory/arena_allocator.cpp and
  include/voltdbx/memory/arena_allocator.hpp. Sizes, offsets and alignments are
  \<open>std::size_t\<close>, kept as 64-bit words: the additions of \<open>allocate\<close> wrap. The bytes of
  a block are never read by the arena, so a block is its length and its offset; the
  pointer returned is the number of the block and the offset in it. A vector longer
  than \<open>max_size()\<close> (\<open>2^63 - 1\<close> bytes) throws \<open>std::length_error\<close>; running out of
  memory below that is not modelled.

  \<open>allocate\<close> calls itself after pushing a block; the termination proof shows that the
  second call always succeeds, for every size and alignment.
\<close>

record Block =
  data_size :: "64 word"
  offset :: "64 word"

record ArenaAllocator =
  arena_block_size :: "64 word"
  blocks :: "Block list"
  bytes_allocated :: "64 word"

definition ArenaAllocator_new :: "64 word \<Rightarrow> ArenaAllocator" where
  "ArenaAllocator_new bs =
     \<lparr>arena_block_size = bs, blocks = [\<lparr>data_size = bs, offset = 0\<rparr>], bytes_allocated = 0\<rparr>"

definition align_up :: "64 word \<Rightarrow> 64 word \<Rightarrow> 64 word" where
  "align_up off alignment = (off + alignment - 1) AND NOT (alignment - 1)"

definition ensure_block :: "ArenaAllocator \<Rightarrow> ArenaAllocator" where
  "ensure_block a =
     (if blocks a = [] then a\<lparr>blocks := [\<lparr>data_size = arena_block_size a, offset = 0\<rparr>]\<rparr> else a)"

definition does_not_fit :: "ArenaAllocator \<Rightarrow> 64 word \<Rightarrow> 64 word \<Rightarrow> bool" where
  "does_not_fit a sz alignment \<longleftrightarrow>
     align_up (offset (last (blocks a))) alignment + sz > data_size (last (blocks a))"

definition push_block :: "ArenaAllocator \<Rightarrow> 64 word \<Rightarrow> ArenaAllocator" where
  "push_block a sz = a\<lparr>blocks := blocks a @ [\<lparr>data_size = max (arena_block_size a) sz, offset = 0\<rparr>]\<rparr>"

lemma align_up_zero [simp]: "align_up 0 al = 0"
  by (simp add: align_up_def)

lemma push_block_fits:
  "\<not> does_not_fit (ensure_block (push_block a sz)) sz al"
  by (simp add: does_not_fit_def ensure_block_def push_block_def not_less)

function ArenaAllocator_allocate ::
    "ArenaAllocator \<Rightarrow> 64 word \<Rightarrow> 64 word \<Rightarrow> (ArenaAllocator \<times> nat \<times> 64 word) res" where
  "ArenaAllocator_allocate a0 sz alignment =
     (let a = ensure_block a0;
          block = last (blocks a);
          aligned = align_up (offset block) alignment in
      if does_not_fit a sz alignment then
        (if max (arena_block_size a) sz > 2 ^ 63 - 1 then Inl Length_error
         else ArenaAllocator_allocate (push_block a sz) sz alignment)
      else
        Inr (a\<lparr>blocks := butlast (blocks a) @ [block\<lparr>offset := aligned + sz\<rparr>],
               bytes_allocated := bytes_allocated a + sz\<rparr>,
             length (blocks a) - 1, aligned))"
  by pat_completeness auto
termination
  by (relation "measure (\<lambda>(a, sz, al). if does_not_fit (ensure_block a) sz al then 1 else 0)")
    (auto simp: push_block_fits)

definition ArenaAllocator_reset :: "ArenaAllocator \<Rightarrow> ArenaAllocator" where
  "ArenaAllocator_reset a = a\<lparr>blocks := map (\<lambda>b. b\<lparr>offset := 0\<rparr>) (blocks a), bytes_allocated := 0\<rparr>"

definition ArenaAllocator_block_count :: "ArenaAllocator \<Rightarrow> nat" where
  "ArenaAllocator_block_count a = length (blocks a)"

definition ArenaObjectPool_create :: "ArenaAllocator \<Rightarrow> 64 word \<Rightarrow> 64 word \<Rightarrow> (ArenaAllocator \<times> nat \<times> 64 word) res" where
  "ArenaObjectPool_create arena size_of_T align_of_T = ArenaAllocator_allocate arena size_of_T align_of_T"

definition ArenaObjectPool_reset :: "ArenaAllocator \<Rightarrow> ArenaAllocator" where
  "ArenaObjectPool_reset arena = ArenaAllocator_reset arena"

definition arena_ok :: "ArenaAllocator \<Rightarrow> bool" where
  "arena_ok a \<longleftrightarrow>
     blocks a \<noteq> []
     \<and> (\<forall>b \<in> set (blocks a). offset b \<le> data_size b \<and> data_size b < 2 ^ 63)"

declare ArenaAllocator_allocate.simps [simp del]


lemma and_not_mask_split: "(x AND NOT m) + (x AND m) = (x :: 64 word)"
proof -
  have "((x AND NOT m) AND (x AND m)) + ((x AND NOT m) OR (x AND m)) = (x AND NOT m) + (x AND m)"
    by (rule word_plus_and_or)
  moreover have "(x AND NOT m) AND (x AND m) = 0" by (rule bit_eqI) (auto simp: bit_simps)
  moreover have "(x AND NOT m) OR (x AND m) = x" by (rule bit_eqI) (auto simp: bit_simps)
  ultimately show ?thesis by simp
qed

lemma unat_and_mask: "unat (x AND mask k :: 64 word) = unat x mod 2 ^ k"
  by (simp add: take_bit_eq_mask[symmetric] unsigned_take_bit_eq take_bit_eq_mod[where a = "unat x"])

lemma unat_and_not_mask: "unat (x AND NOT (mask k) :: 64 word) = unat x - unat x mod 2 ^ k"
proof -
  have "x AND NOT (mask k) = x - (x AND mask k)"
    using and_not_mask_split[of x "mask k"] by (simp add: eq_diff_eq)
  moreover have "(x AND mask k) \<le> x" by (simp add: word_le_nat_alt unat_and_mask)
  ultimately show ?thesis by (simp add: unat_sub unat_and_mask)
qed

lemma unat_power_2:
  assumes "k < 64"
  shows "unat (2 ^ k :: 64 word) = 2 ^ k"
proof -
  have "(2::nat) ^ k < 2 ^ 64" using assms by (intro power_strict_increasing) simp_all
  then have "unat (of_nat (2 ^ k) :: 64 word) = 2 ^ k" by (simp only: unat_of_nat) simp
  then show ?thesis by simp
qed

lemma align_up_eq:
  assumes "k < 63" "unat off + 2 ^ k - 1 < 2 ^ 64"
  shows "unat (align_up off (2 ^ k)) = (unat off + 2 ^ k - 1) div 2 ^ k * 2 ^ k"
proof -
  let ?x = "off + 2 ^ k - 1"
  have p: "unat (2 ^ k :: 64 word) = 2 ^ k" using assms(1) by (intro unat_power_2) simp
  have "(2 ^ k :: 64 word) \<noteq> 0" using p by (metis power_not_zero unsigned_0 zero_neq_numeral)
  then have "unat (2 ^ k - 1 :: 64 word) = 2 ^ k - 1" using p by (metis unat_minus_one)
  then have "unat (off + (2 ^ k - 1)) = unat off + (2 ^ k - 1)"
    using assms(2) by (subst unat_add_lem[THEN iffD1]) simp_all
  then have x: "unat ?x = unat off + 2 ^ k - 1" by (simp add: add_diff_eq)
  have "align_up off (2 ^ k) = ?x AND NOT (mask k)" by (simp add: align_up_def mask_eq_exp_minus_1)
  then show ?thesis using x by (simp add: unat_and_not_mask minus_mod_eq_div_mult)
qed


lemma align_up_bounds:
  assumes "k < 63" "unat off + 2 ^ k - 1 < 2 ^ 64"
  shows "2 ^ k dvd unat (align_up off (2 ^ k))" "unat off \<le> unat (align_up off (2 ^ k))"
    "unat (align_up off (2 ^ k)) < unat off + 2 ^ k"
proof -
  let ?n = "unat off + 2 ^ k - 1"
  have m: "?n div 2 ^ k * 2 ^ k + ?n mod 2 ^ k = ?n" by (rule div_mult_mod_eq)
  have "?n mod 2 ^ k < 2 ^ k" by simp
  with m have "unat off \<le> ?n div 2 ^ k * 2 ^ k" "?n div 2 ^ k * 2 ^ k < unat off + 2 ^ k"
    by linarith+
  then show "2 ^ k dvd unat (align_up off (2 ^ k))" "unat off \<le> unat (align_up off (2 ^ k))"
    "unat (align_up off (2 ^ k)) < unat off + 2 ^ k"
    by (simp_all only: align_up_eq[OF assms] dvd_triv_right)
qed

section \<open>Allocation\<close>

lemma ensure_block_ok: "arena_ok a \<Longrightarrow> ensure_block a = a"
  by (simp add: ensure_block_def arena_ok_def)

lemma power_62_le: "k < 63 \<Longrightarrow> (2::nat) ^ k \<le> 2 ^ 62"
  by (rule power_increasing) simp_all

lemma fits_no_wrap:
  assumes "offset b \<le> data_size b" "data_size b < 2 ^ 63" "k < 63" "sz < 2 ^ 62"
  shows "unat (offset b) + 2 ^ k - 1 < 2 ^ 64"
    "unat (align_up (offset b) (2 ^ k) + sz) = unat (align_up (offset b) (2 ^ k)) + unat sz"
proof -
  have "unat (offset b) < 2 ^ 63" "unat sz < 2 ^ 62"
    using assms(1,2,4) by (simp_all add: word_less_nat_alt word_le_nat_alt)
  with power_62_le[OF assms(3)] show 1: "unat (offset b) + 2 ^ k - 1 < 2 ^ 64" by simp
  from align_up_bounds(3)[OF assms(3) 1] power_62_le[OF assms(3)] \<open>unat (offset b) < 2 ^ 63\<close> \<open>unat sz < 2 ^ 62\<close>
  show "unat (align_up (offset b) (2 ^ k) + sz) = unat (align_up (offset b) (2 ^ k)) + unat sz"
    by (intro unat_add_lem[THEN iffD1]) simp
qed

lemma allocate_fits:
  assumes "arena_ok a" "\<not> does_not_fit a sz (2 ^ k)" "k < 63" "sz < 2 ^ 62"
  defines "b \<equiv> last (blocks a)"
  shows "ArenaAllocator_allocate a sz (2 ^ k) =
     Inr (a\<lparr>blocks := butlast (blocks a) @ [b\<lparr>offset := align_up (offset b) (2 ^ k) + sz\<rparr>],
            bytes_allocated := bytes_allocated a + sz\<rparr>,
          length (blocks a) - 1, align_up (offset b) (2 ^ k))"
    and "unat (align_up (offset b) (2 ^ k)) + unat sz \<le> unat (data_size b)"
    and "2 ^ k dvd unat (align_up (offset b) (2 ^ k))"
    and "unat (offset b) \<le> unat (align_up (offset b) (2 ^ k))"
proof -
  show "ArenaAllocator_allocate a sz (2 ^ k) =
     Inr (a\<lparr>blocks := butlast (blocks a) @ [b\<lparr>offset := align_up (offset b) (2 ^ k) + sz\<rparr>],
            bytes_allocated := bytes_allocated a + sz\<rparr>,
          length (blocks a) - 1, align_up (offset b) (2 ^ k))"
    using assms by (simp add: ArenaAllocator_allocate.simps[of a] ensure_block_ok Let_def)
  have b: "offset b \<le> data_size b" "data_size b < 2 ^ 63"
    using assms(1) by (auto simp: arena_ok_def b_def)
  note nw = fits_no_wrap[OF b assms(3,4)]
  show "unat (align_up (offset b) (2 ^ k)) + unat sz \<le> unat (data_size b)"
    using assms(2) nw(2) by (simp add: does_not_fit_def not_less word_le_nat_alt b_def)
  show "2 ^ k dvd unat (align_up (offset b) (2 ^ k))" "unat (offset b) \<le> unat (align_up (offset b) (2 ^ k))"
    using align_up_bounds[OF assms(3) nw(1)] by blast+
qed

lemma arena_ok_push: "arena_ok a \<Longrightarrow> arena_block_size a < 2 ^ 63 \<Longrightarrow> sz < 2 ^ 62 \<Longrightarrow> arena_ok (push_block a sz)"
  by (auto simp: arena_ok_def push_block_def max_def intro: less_trans)

lemma allocate_push:
  assumes "arena_ok a" "does_not_fit a sz al" "arena_block_size a < 2 ^ 63" "sz < 2 ^ 62"
  shows "ArenaAllocator_allocate a sz al = ArenaAllocator_allocate (push_block a sz) sz al"
proof -
  have "max (arena_block_size a) sz \<le> 2 ^ 63 - 1"
    using assms(3,4) by (simp add: word_less_nat_alt word_le_nat_alt max_def)
  then show ?thesis using assms(1,2)
    by (simp add: ArenaAllocator_allocate.simps[of a] ensure_block_ok Let_def not_less[symmetric])
qed

lemma arena_ok_new: "bs < 2 ^ 63 \<Longrightarrow> arena_ok (ArenaAllocator_new bs)"
  by (simp add: arena_ok_def ArenaAllocator_new_def)

lemma arena_ok_reset: "arena_ok a \<Longrightarrow> arena_ok (ArenaAllocator_reset a)"
  by (auto simp: arena_ok_def ArenaAllocator_reset_def)

lemma arena_ok_bump:
  assumes "arena_ok a" "n \<le> data_size (last (blocks a))"
  shows "arena_ok (a\<lparr>blocks := butlast (blocks a) @ [(last (blocks a))\<lparr>offset := n\<rparr>], bytes_allocated := m\<rparr>)"
  using assms by (auto simp: arena_ok_def dest: in_set_butlastD)

lemma allocate_correct:
  assumes "arena_ok a" "arena_block_size a < 2 ^ 63" "k < 63" "sz < 2 ^ 62"
  shows "\<exists>a' i p. ArenaAllocator_allocate a sz (2 ^ k) = Inr (a', i, p)
     \<and> arena_ok a' \<and> i = length (blocks a') - 1
     \<and> 2 ^ k dvd unat p
     \<and> unat p + unat sz \<le> unat (data_size (blocks a' ! i))
     \<and> offset (blocks a' ! i) = p + sz
     \<and> (i = length (blocks a) - 1 \<and> butlast (blocks a') = butlast (blocks a)
            \<and> unat (offset (last (blocks a))) \<le> unat p
          \<or> i = length (blocks a) \<and> butlast (blocks a') = blocks a)
     \<and> bytes_allocated a' = bytes_allocated a + sz"
proof -
  have result: "\<exists>a' i p. ArenaAllocator_allocate c sz (2 ^ k) = Inr (a', i, p)
     \<and> arena_ok a' \<and> i = length (blocks a') - 1 \<and> length (blocks a') = length (blocks c)
     \<and> 2 ^ k dvd unat p
     \<and> unat p + unat sz \<le> unat (data_size (blocks a' ! i))
     \<and> offset (blocks a' ! i) = p + sz
     \<and> butlast (blocks a') = butlast (blocks c)
     \<and> unat (offset (last (blocks c))) \<le> unat p
     \<and> bytes_allocated a' = bytes_allocated c + sz"
    if c: "arena_ok c" "\<not> does_not_fit c sz (2 ^ k)" for c
  proof -
    let ?b = "last (blocks c)"
    let ?p = "align_up (offset ?b) (2 ^ k)"
    let ?c = "c\<lparr>blocks := butlast (blocks c) @ [?b\<lparr>offset := ?p + sz\<rparr>], bytes_allocated := bytes_allocated c + sz\<rparr>"
    note f = allocate_fits[OF c assms(3,4)]
    have ne: "blocks c \<noteq> []" using c(1) by (simp add: arena_ok_def)
    have "?p + sz \<le> data_size ?b" using c(2) by (simp add: does_not_fit_def not_less)
    then have "arena_ok ?c" using c(1) by (intro arena_ok_bump)
    moreover have "blocks ?c ! (length (blocks c) - 1) = ?b\<lparr>offset := ?p + sz\<rparr>"
      using ne by (simp add: nth_append)
    ultimately show ?thesis using f ne by auto
  qed
  show ?thesis
  proof (cases "does_not_fit a sz (2 ^ k)")
    case False
    from result[OF assms(1) this] show ?thesis by fastforce
  next
    case True
    have ok: "arena_ok (push_block a sz)" using assms(1,2,4) by (rule arena_ok_push)
    then have "\<not> does_not_fit (push_block a sz) sz (2 ^ k)"
      using push_block_fits[of a sz] by (simp add: ensure_block_ok)
    from result[OF ok this] show ?thesis
      unfolding allocate_push[OF assms(1) True assms(2,4)]
      by (elim exE conjE) (auto simp: push_block_def)
  qed
qed

section \<open>Properties\<close>



text \<open>
  The size bound is needed. After an allocation of 8 bytes, a request of
  \<open>2^64 - 16\<close> bytes aligned to 16 passes the test \<open>aligned + size > block.data.size()\<close>
  because the sum wraps to zero: \<open>allocate\<close> hands out offset 16 of a 64-byte block and
  resets the block's offset to 0.
\<close>

theorem arena_size_wraps:
  "let a1 = (case ArenaAllocator_allocate (ArenaAllocator_new 64) 8 1 of Inr (a, _) \<Rightarrow> a | Inl _ \<Rightarrow> undefined) in
   case ArenaAllocator_allocate a1 (- 16) 16 of
     Inr (a2, i, p) \<Rightarrow> i = 0 \<and> p = 16 \<and> map offset (blocks a2) = [0] \<and> map data_size (blocks a2) = [64]
   | Inl _ \<Rightarrow> False"
  by (simp add: ArenaAllocator_allocate.simps ArenaAllocator_new_def ensure_block_def does_not_fit_def align_up_def)

end
