(* ===== verification/Float_Load.thy ===== *)
theory Float_Load
  imports Prelude
begin

text \<open>
  The load-factor test of \<open>HashTable::rehash_if_needed\<close> (src/storage/hash_table.cpp)
  is done in single precision:
  \<^verbatim>\<open>static_cast<float>(size_) / static_cast<float>(buckets_.size()) <= 0.75f\<close>.
  The theory computes it bit for bit: conversion of an unsigned integer and division,
  each rounded to a 24-bit significand, ties to even. Quotients are kept as multiples
  of \<open>2^-91\<close>, whose lowest bit is the sticky bit of the division; operands are below
  \<open>2^64\<close>, so at least two bits are left below the 24-bit significand and no exponent
  is out of the range of the format.

  The hash table needs three laws of the test only (locale \<open>load_policy\<close>); they
  follow from the monotonicity of rounding. The exact shape of the test for tables of
  at most \<open>2^22\<close> buckets is \<open>load_within_exact\<close>.
\<close>

section \<open>Rounding to a significand of p bits, ties to even\<close>

fun bit_length :: "nat \<Rightarrow> nat" where
  "bit_length n = (if n = 0 then 0 else Suc (bit_length (n div 2)))"

definition round_up :: "nat \<Rightarrow> nat \<Rightarrow> bool" where
  "round_up k n \<longleftrightarrow>
     (let r = n mod 2 ^ k; half = 2 ^ (k - 1) in half < r \<or> (r = half \<and> odd (n div 2 ^ k)))"

definition round_bits :: "nat \<Rightarrow> nat \<Rightarrow> nat" where
  "round_bits p n =
     (if bit_length n \<le> p then n
      else let k = bit_length n - p; q = n div 2 ^ k
           in (if round_up k n then Suc q else q) * 2 ^ k)"

definition float_of_size :: "nat \<Rightarrow> nat" where
  "float_of_size n = round_bits 24 n"

definition float_quotient :: "nat \<Rightarrow> nat \<Rightarrow> nat" where
  "float_quotient a b =
     round_bits 24 (let x = a * 2 ^ 90 in 2 * (x div b) + (if x mod b = 0 then 0 else 1))"

definition max_load_factor :: nat where
  "max_load_factor = 3 * 2 ^ 89"

definition load_within :: "nat \<Rightarrow> nat \<Rightarrow> bool" where
  "load_within n buckets \<longleftrightarrow>
     float_quotient (float_of_size n) (float_of_size buckets) \<le> max_load_factor"

section \<open>The contract of a load test\<close>

locale load_policy =
  fixes within :: "nat \<Rightarrow> nat \<Rightarrow> bool"
  assumes within_mono: "m \<le> n \<Longrightarrow> within n b \<Longrightarrow> within m b"
    and within_half: "2 * n \<le> b \<Longrightarrow> within n b"
    and within_less: "0 < b \<Longrightarrow> within n b \<Longrightarrow> n < b"
begin

lemma within_zero: "within 0 b"
  by (rule within_half) simp

lemma within_doubled:
  assumes "0 < b" "within n b" "m \<le> Suc n"
  shows "within m (2 * b)"
proof -
  from assms have "n < b" by (blast intro: within_less)
  with assms(3) have "2 * m \<le> 2 * b" by simp
  then show ?thesis by (rule within_half)
qed

end

section \<open>Rounding is monotone\<close>

declare bit_length.simps [simp del]

lemma bit_length_0 [simp]: "bit_length 0 = 0"
  by (simp add: bit_length.simps)

lemma bit_length_double: "0 < n \<Longrightarrow> bit_length (2 * n) = Suc (bit_length n)"
  by (simp add: bit_length.simps[of "2 * n"])

lemma bit_length_upper: "n < 2 ^ bit_length n"
proof (induction n rule: bit_length.induct)
  case (1 n)
  then show ?case by (cases "n = 0") (auto simp: bit_length.simps[of n])
qed

lemma bit_length_lower: "0 < n \<Longrightarrow> 2 ^ (bit_length n - 1) \<le> n"
proof (induction n rule: bit_length.induct)
  case (1 n)
  show ?case
  proof (cases "n div 2 = 0")
    case True
    with 1 show ?thesis by (simp add: bit_length.simps[of n])
  next
    case False
    with 1 have IH: "2 ^ (bit_length (n div 2) - 1) \<le> n div 2" by simp
    have "0 < bit_length (n div 2)" using False by (simp add: bit_length.simps[of "n div 2"])
    then have "2 ^ bit_length (n div 2) = 2 * (2::nat) ^ (bit_length (n div 2) - 1)"
      by (simp add: power_eq_if)
    also have "\<dots> \<le> n" using IH by linarith
    finally show ?thesis using 1 by (simp add: bit_length.simps[of n])
  qed
qed

lemma bit_length_mono: "m \<le> n \<Longrightarrow> bit_length m \<le> bit_length n"
proof (induction n arbitrary: m rule: bit_length.induct)
  case (1 n)
  show ?case
  proof (cases "m = 0")
    case False
    with 1 have "bit_length (m div 2) \<le> bit_length (n div 2)" by (simp add: div_le_mono)
    with False "1.prems" show ?thesis by (simp add: bit_length.simps[of n] bit_length.simps[of m])
  qed simp
qed

lemma bit_length_power [simp]: "bit_length (2 ^ e) = Suc e"
  by (induction e) (simp_all add: bit_length.simps[of "Suc 0"] bit_length_double)

lemma bit_length_le: "n < 2 ^ p \<Longrightarrow> bit_length n \<le> p"
proof (rule ccontr)
  assume n: "n < 2 ^ p" and "\<not> bit_length n \<le> p"
  then have "p \<le> bit_length n - 1" "0 < n" by (auto intro: gr0I)
  then have "2 ^ p \<le> (2::nat) ^ (bit_length n - 1)" by (simp add: power_increasing)
  also have "\<dots> \<le> n" using \<open>0 < n\<close> by (rule bit_length_lower)
  finally show False using n by simp
qed

lemma round_bits_small: "n < 2 ^ p \<Longrightarrow> round_bits p n = n"
  by (simp add: round_bits_def bit_length_le)

lemma round_bits_upper: "round_bits p n \<le> 2 ^ bit_length n"
proof (cases "bit_length n \<le> p")
  case True
  then show ?thesis using bit_length_upper[of n] by (simp add: round_bits_def)
next
  case False
  define k where "k = bit_length n - p"
  have b: "bit_length n = p + k" using False by (simp add: k_def)
  have "n div 2 ^ k < 2 ^ p"
    using bit_length_upper[of n] by (simp add: b power_add less_mult_imp_div_less mult.commute)
  then have "(if round_up k n then Suc (n div 2 ^ k) else n div 2 ^ k) \<le> 2 ^ p" by simp
  then have "(if round_up k n then Suc (n div 2 ^ k) else n div 2 ^ k) * 2 ^ k \<le> 2 ^ p * 2 ^ k"
    by (rule mult_le_mono1)
  then show ?thesis using False by (simp add: round_bits_def Let_def k_def[symmetric] b power_add)
qed

lemma round_bits_lower:
  assumes "0 < p" "0 < n"
  shows "2 ^ (bit_length n - 1) \<le> round_bits p n"
proof (cases "bit_length n \<le> p")
  case True
  then show ?thesis using bit_length_lower[OF assms(2)] by (simp add: round_bits_def)
next
  case False
  define k where "k = bit_length n - p"
  have b: "bit_length n - Suc 0 = (p - 1) + k" using False assms by (simp add: k_def)
  have "2 ^ (p - 1) * 2 ^ k \<le> n" using bit_length_lower[OF assms(2)] by (simp add: b power_add)
  then have "2 ^ (p - 1) \<le> n div 2 ^ k" by (simp add: less_eq_div_iff_mult_less_eq)
  then have "2 ^ (p - 1) * 2 ^ k \<le> (if round_up k n then Suc (n div 2 ^ k) else n div 2 ^ k) * 2 ^ k"
    by simp
  then show ?thesis using False by (simp add: round_bits_def Let_def k_def[symmetric] b power_add)
qed

lemma round_up_mono:
  assumes "m \<le> n" "m div 2 ^ k = n div 2 ^ k" "round_up k m"
  shows "round_up k n"
proof -
  have "m mod 2 ^ k \<le> n mod 2 ^ k" using assms(1,2) by (rule mod_le_mod_same_div)
  with assms(2,3) show ?thesis by (auto simp: round_up_def Let_def)
qed

lemma round_bits_mono:
  assumes "0 < p" "m \<le> n"
  shows "round_bits p m \<le> round_bits p n"
proof (cases "bit_length m = bit_length n")
  case True
  define k where "k = bit_length n - p"
  have le: "m div 2 ^ k \<le> n div 2 ^ k" using assms by (simp add: div_le_mono)
  have "(if round_up k m then Suc (m div 2 ^ k) else m div 2 ^ k)
      \<le> (if round_up k n then Suc (n div 2 ^ k) else n div 2 ^ k)"
    using le round_up_mono[OF assms(2), of k] by (auto simp: le_less)
  with True assms show ?thesis by (simp add: round_bits_def Let_def k_def[symmetric])
next
  case False
  with assms have less: "bit_length m < bit_length n" by (simp add: bit_length_mono le_neq_implies_less)
  then have n: "0 < n" by (auto intro: gr0I)
  have "round_bits p m \<le> 2 ^ bit_length m" by (rule round_bits_upper)
  also have "\<dots> \<le> 2 ^ (bit_length n - 1)" using less by (simp add: power_increasing)
  also have "\<dots> \<le> round_bits p n" using assms(1) n by (rule round_bits_lower)
  finally show ?thesis .
qed

lemma round_bits_double:
  assumes "0 < p"
  shows "round_bits p (2 * n) = 2 * round_bits p n"
proof (cases "n = 0")
  case False
  then have b: "bit_length (2 * n) = Suc (bit_length n)" by (simp add: bit_length_double)
  consider "bit_length n < p" | "bit_length n = p" | k where "bit_length n = p + Suc k"
    by (metis add_Suc_right less_imp_Suc_add linorder_less_linear)
  then show ?thesis
  proof cases
    case (3 k)
    have "2 * n mod (2 * 2 ^ Suc k) = 2 * (n mod 2 ^ Suc k)" by (rule mult_mod_right[symmetric])
    then have "round_up (Suc (Suc k)) (2 * n) = round_up (Suc k) n"
      by (simp add: round_up_def Let_def)
    moreover have "2 * n div 2 ^ Suc (Suc k) = n div 2 ^ Suc k" by simp
    ultimately show ?thesis using 3 b by (simp add: round_bits_def Let_def)
  qed (simp_all add: round_bits_def b Let_def round_up_def)
qed (simp add: round_bits_def)

lemma round_bits_scaled: "0 < p \<Longrightarrow> round_bits p (n * 2 ^ k) = round_bits p n * 2 ^ k"
proof (induction k)
  case (Suc k)
  have "round_bits p (n * 2 ^ Suc k) = round_bits p (2 * (n * 2 ^ k))"
    by (simp add: mult.left_commute)
  with Suc show ?case by (simp add: round_bits_double)
qed simp

lemma round_bits_pos: "0 < p \<Longrightarrow> 0 < n \<Longrightarrow> 0 < round_bits p n"
  using round_bits_lower[of p n] by (auto intro: gr0I simp: le_less_trans)

section \<open>The load test meets the contract\<close>

lemma float_quotient_le:
  assumes "0 < b" "a * 2 ^ 90 \<le> c * b" "0 < d" "round_bits 24 (2 * c) = d"
  shows "float_quotient a b \<le> d"
proof -
  have "2 * (a * 2 ^ 90 div b) + (if a * 2 ^ 90 mod b = 0 then 0 else 1) \<le> 2 * c"
  proof (cases "a * 2 ^ 90 div b = c")
    case True
    have "b * c + a * 2 ^ 90 mod b = a * 2 ^ 90" using True by (metis mult_div_mod_eq)
    then have "a * 2 ^ 90 mod b = 0" using assms(2) by (simp add: mult.commute)
    with True show ?thesis by simp
  next
    case False
    have "a * 2 ^ 90 div b \<le> c * b div b" using assms(2) by (rule div_le_mono)
    with False assms(1) have "a * 2 ^ 90 div b < c" by simp
    then show ?thesis by simp
  qed
  then show ?thesis unfolding float_quotient_def Let_def assms(4)[symmetric]
    by (rule round_bits_mono[rotated]) simp
qed

lemma float_quotient_ge:
  assumes "0 < b" "c * b \<le> a * 2 ^ 90"
  shows "round_bits 24 (2 * c) \<le> float_quotient a b"
proof -
  have "c \<le> a * 2 ^ 90 div b" using assms by (simp add: less_eq_div_iff_mult_less_eq)
  then show ?thesis unfolding float_quotient_def Let_def by (intro round_bits_mono) simp_all
qed

lemma float_quotient_mono:
  assumes "a \<le> a'"
  shows "float_quotient a b \<le> float_quotient a' b"
proof (cases "b = 0")
  case False
  have "2 * (a * 2 ^ 90 div b) + (if a * 2 ^ 90 mod b = 0 then 0 else 1)
      \<le> 2 * (a' * 2 ^ 90 div b) + (if a' * 2 ^ 90 mod b = 0 then 0 else 1)"
  proof (cases "a * 2 ^ 90 div b = a' * 2 ^ 90 div b")
    case True
    moreover have "a * 2 ^ 90 \<le> a' * 2 ^ 90" using assms by (rule mult_le_mono1)
    ultimately have "a * 2 ^ 90 mod b \<le> a' * 2 ^ 90 mod b" by (intro mod_le_mod_same_div)
    with True show ?thesis by auto
  next
    case False
    moreover have "a * 2 ^ 90 div b \<le> a' * 2 ^ 90 div b" using assms by (simp add: div_le_mono)
    ultimately show ?thesis by simp
  qed
  then show ?thesis unfolding float_quotient_def Let_def by (intro round_bits_mono) simp_all
next
  case True
  then show ?thesis using assms by (auto simp: float_quotient_def Let_def intro: round_bits_mono)
qed

lemma load_within_mono: "m \<le> n \<Longrightarrow> load_within n b \<Longrightarrow> load_within m b"
  unfolding load_within_def float_of_size_def
  by (meson float_quotient_mono order_trans round_bits_mono zero_less_numeral)

lemma load_within_half:
  assumes "2 * n \<le> b"
  shows "load_within n b"
proof (cases "b = 0")
  case False
  let ?a = "float_of_size n" and ?b = "float_of_size b"
  have "2 * ?a \<le> ?b"
    using round_bits_mono[of 24, OF _ assms] by (simp add: float_of_size_def round_bits_double)
  then have "?a * 2 ^ 90 \<le> 2 ^ 89 * ?b" by simp
  moreover have "0 < ?b" using False by (simp add: float_of_size_def round_bits_pos)
  moreover have "round_bits 24 (2 * 2 ^ 89) = 2 ^ 90"
    using round_bits_scaled[of 24 1 90] by (simp add: round_bits_small)
  ultimately have "float_quotient ?a ?b \<le> 2 ^ 90" by (intro float_quotient_le[of _ _ "2 ^ 89"]) simp_all
  then show ?thesis by (simp add: load_within_def max_load_factor_def)
qed (use assms in \<open>simp add: load_within_def float_of_size_def float_quotient_def round_bits_def\<close>)

lemma load_within_less:
  assumes "0 < b" "load_within n b"
  shows "n < b"
proof (rule ccontr)
  assume "\<not> n < b"
  then have "float_of_size b \<le> float_of_size n" by (simp add: float_of_size_def round_bits_mono)
  then have "2 ^ 90 * float_of_size b \<le> float_of_size n * 2 ^ 90" by simp
  moreover have "0 < float_of_size b" using assms(1) by (simp add: float_of_size_def round_bits_pos)
  ultimately have "round_bits 24 (2 * 2 ^ 90) \<le> float_quotient (float_of_size n) (float_of_size b)"
    by (intro float_quotient_ge)
  moreover have "round_bits 24 (2 * 2 ^ 90) = 2 ^ 91"
    using round_bits_scaled[of 24 1 91] by (simp add: round_bits_small)
  ultimately show False using assms(2) by (simp add: load_within_def max_load_factor_def)
qed

interpretation lp: load_policy load_within
  by unfold_locales (auto intro: load_within_mono load_within_half load_within_less)

lemma round_bits_24_scaled: "n < 2 ^ 24 \<Longrightarrow> round_bits 24 (n * 2 ^ k) = n * 2 ^ k"
  by (simp add: round_bits_scaled round_bits_small)

lemma load_within_below: "4 * n \<le> 3 * b \<Longrightarrow> n < 2 ^ 24 \<Longrightarrow> b < 2 ^ 24 \<Longrightarrow> 0 < b \<Longrightarrow> load_within n b"
  unfolding load_within_def max_load_factor_def float_of_size_def
  using round_bits_24_scaled[of 3 89]
  by (intro float_quotient_le[of _ _ "3 * 2 ^ 88"]) (simp_all add: round_bits_small)

lemma load_within_above:
  assumes "3 * b < 4 * n" "n < 2 ^ 24" "b \<le> 2 ^ 22" "0 < b"
  shows "\<not> load_within n b"
proof -
  have "(3 * 2 ^ 22 + 1) * 2 ^ 66 * b = 2 ^ 66 * (2 ^ 22 * (3 * b) + b)" by (simp add: algebra_simps)
  also have "\<dots> \<le> 2 ^ 66 * (2 ^ 22 * (3 * b + 1))" using assms(3) by simp
  also have "\<dots> \<le> 2 ^ 66 * (2 ^ 22 * (4 * n))" using assms(1) by (intro mult_le_mono) simp_all
  also have "\<dots> = n * 2 ^ 90" by simp
  finally have "round_bits 24 (2 * ((3 * 2 ^ 22 + 1) * 2 ^ 66)) \<le> float_quotient n b"
    using assms(4) by (rule float_quotient_ge[rotated])
  moreover have "round_bits 24 (2 * ((3 * 2 ^ 22 + 1) * 2 ^ 66)) = (3 * 2 ^ 22 + 1) * 2 ^ 67"
    using round_bits_24_scaled[of "3 * 2 ^ 22 + 1" 67] by simp
  ultimately show ?thesis
    using assms by (simp add: load_within_def max_load_factor_def float_of_size_def round_bits_small)
qed

lemma load_within_iff:
  assumes "0 < b" "b \<le> 2 ^ 22"
  shows "load_within n b \<longleftrightarrow> 4 * n \<le> 3 * b"
proof (cases "n < b")
  case True
  with assms show ?thesis using load_within_below[of n b] load_within_above[of b n] by force
next
  case False
  with assms have "\<not> load_within n b" using load_within_less by blast
  with False assms show ?thesis by simp
qed

section \<open>Properties\<close>

text \<open>
  C31: the single-precision load test \<open>load_factor() <= 0.75f\<close> is exact for every table of at
  most \<open>2^22\<close> buckets: it holds just when four times the size is at most three times the
  number of buckets, whatever rounding the conversions and the division do.
\<close>

theorem load_test_exact:
  assumes "0 < b" "b \<le> 2 ^ 22"
  shows "load_within n b \<longleftrightarrow> 4 * n \<le> 3 * b"
  using assms by (rule load_within_iff)

theorem load_test_exact_witness:
  "load_within 3072 4096 \<and> \<not> load_within 3073 4096"
  using load_test_exact[of 4096 3072] load_test_exact[of 4096 3073] by simp

end
