(* ===== verification/Hash_Table.thy ===== *)
theory Hash_Table
  imports Float_Load
begin

text \<open>
  The chained hash table of src/storage/hash_table.cpp and
  include/voltdbx/storage/hash_table.hpp.

  \<open>std::hash<std::string_view>\<close> is implementation defined: it is the parameter \<open>h\<close>
  of every operation that calls it, and no theorem assumes anything of it. A chain of
  \<open>Node\<close>s, singly linked and owned by its bucket, is a list; theory Node_Heap has the linked
  nodes and shows that the lists stand for them. \<open>HashTable::insert\<close> and
  \<open>HashTable::rehash_if_needed\<close> call each other; \<open>insert_depth\<close> bounds the depth of
  that recursion, and \<open>HashTable_insert\<close> takes depth 2: \<open>insert_depth_enough\<close>
  shows that a well-formed table never needs more, so the bound is not observable.

  The results: the class invariant \<open>table_ok\<close> (keys in the bucket their hash names,
  no key twice, \<open>size_\<close> the number of nodes, load factor at most 0.75) is established
  by the constructor and kept by every operation, and the operations implement a
  finite map (interpretation \<open>ht\<close> of \<open>kv_store\<close>).
\<close>

section \<open>Data\<close>

record StorageEntry =
  entry_value :: string
  expires_at :: "int option"

type_synonym Node = "string \<times> StorageEntry"

type_synonym hash = "string \<Rightarrow> 64 word"

record HashTable =
  buckets :: "Node list list"
  table_size :: nat

section \<open>Operations\<close>

definition HashTable_new :: "nat \<Rightarrow> HashTable" where
  "HashTable_new bucket_count =
     (let n = (if bucket_count < 16 then 16 else bucket_count)
      in \<lparr>buckets = replicate n [], table_size = 0\<rparr>)"

definition HashTable_bucket_index :: "hash \<Rightarrow> HashTable \<Rightarrow> string \<Rightarrow> nat" where
  "HashTable_bucket_index h t key = unat (h key) mod length (buckets t)"

fun chain_assign :: "string \<Rightarrow> StorageEntry \<Rightarrow> Node list \<Rightarrow> Node list option" where
  "chain_assign key e [] = None"
| "chain_assign key e ((k, e') # ns) =
     (if k = key then Some ((k, e) # ns) else map_option (Cons (k, e')) (chain_assign key e ns))"

definition set_bucket :: "nat \<Rightarrow> Node list \<Rightarrow> HashTable \<Rightarrow> HashTable" where
  "set_bucket idx ns t = t\<lparr>buckets := (buckets t)[idx := ns]\<rparr>"

definition rehash_with :: "(HashTable \<Rightarrow> string \<Rightarrow> StorageEntry \<Rightarrow> (HashTable \<times> bool) res)
    \<Rightarrow> HashTable \<Rightarrow> HashTable res" where
  "rehash_with ins t =
     (if load_within (table_size t) (length (buckets t)) then Inr t
      else fold_res (\<lambda>t (k, e). bind_res (ins t k e) (\<lambda>(t', _). Inr t'))
             (concat (buckets t))
             \<lparr>buckets = replicate (length (buckets t) * 2) [], table_size = 0\<rparr>)"

primrec insert_depth ::
    "hash \<Rightarrow> nat \<Rightarrow> HashTable \<Rightarrow> string \<Rightarrow> StorageEntry \<Rightarrow> (HashTable \<times> bool) res" where
  "insert_depth h 0 t key e = Inl Diverges"
| "insert_depth h (Suc d) t key e =
     (let idx = HashTable_bucket_index h t key; ns = buckets t ! idx in
      case chain_assign key e ns of
        Some ns' \<Rightarrow> Inr (set_bucket idx ns' t, False)
      | None \<Rightarrow>
          bind_res (rehash_with (insert_depth h d)
                     ((set_bucket idx ((key, e) # ns) t)\<lparr>table_size := Suc (table_size t)\<rparr>))
            (\<lambda>t'. Inr (t', True)))"

definition HashTable_insert ::
    "hash \<Rightarrow> HashTable \<Rightarrow> string \<Rightarrow> StorageEntry \<Rightarrow> (HashTable \<times> bool) res" where
  "HashTable_insert h = insert_depth h 2"

definition HashTable_rehash_if_needed :: "hash \<Rightarrow> HashTable \<Rightarrow> HashTable res" where
  "HashTable_rehash_if_needed h = rehash_with (HashTable_insert h)"

fun chain_find :: "string \<Rightarrow> Node list \<Rightarrow> StorageEntry option" where
  "chain_find key [] = None"
| "chain_find key ((k, e) # ns) = (if k = key then Some e else chain_find key ns)"

definition HashTable_find :: "hash \<Rightarrow> HashTable \<Rightarrow> string \<Rightarrow> StorageEntry option" where
  "HashTable_find h t key = chain_find key (buckets t ! HashTable_bucket_index h t key)"

fun chain_erase :: "string \<Rightarrow> Node list \<Rightarrow> Node list option" where
  "chain_erase key [] = None"
| "chain_erase key ((k, e) # ns) =
     (if k = key then Some ns else map_option (Cons (k, e)) (chain_erase key ns))"

definition HashTable_erase :: "hash \<Rightarrow> HashTable \<Rightarrow> string \<Rightarrow> HashTable \<times> bool" where
  "HashTable_erase h t key =
     (let idx = HashTable_bucket_index h t key in
      case chain_erase key (buckets t ! idx) of
        Some ns \<Rightarrow> ((set_bucket idx ns t)\<lparr>table_size := table_size t - 1\<rparr>, True)
      | None \<Rightarrow> (t, False))"

definition HashTable_contains :: "hash \<Rightarrow> HashTable \<Rightarrow> string \<Rightarrow> bool" where
  "HashTable_contains h t key \<longleftrightarrow> HashTable_find h t key \<noteq> None"

definition HashTable_clear :: "HashTable \<Rightarrow> HashTable" where
  "HashTable_clear t = \<lparr>buckets = map (\<lambda>_. []) (buckets t), table_size = 0\<rparr>"

definition HashTable_for_each :: "('s \<Rightarrow> string \<Rightarrow> StorageEntry \<Rightarrow> 's) \<Rightarrow> HashTable \<Rightarrow> 's \<Rightarrow> 's" where
  "HashTable_for_each fn t s = foldl (foldl (\<lambda>s (k, e). fn s k e)) s (buckets t)"

fun chain_walk :: "('s \<Rightarrow> string \<Rightarrow> nat \<Rightarrow> 's) \<Rightarrow> nat \<Rightarrow> Node list \<Rightarrow> 's \<Rightarrow> 's" where
  "chain_walk fn index [] s = s"
| "chain_walk fn index ((k, e) # ns) s = chain_walk fn (index + 1) ns (fn s k index)"

definition HashTable_for_each_bucket ::
    "('s \<Rightarrow> string \<Rightarrow> nat \<Rightarrow> 's) \<Rightarrow> HashTable \<Rightarrow> nat \<Rightarrow> 's \<Rightarrow> 's" where
  "HashTable_for_each_bucket fn t bucket_index s =
     (if bucket_index \<ge> length (buckets t) then s
      else chain_walk fn 0 (buckets t ! bucket_index) s)"

section \<open>The class invariant\<close>

definition table_shape :: "hash \<Rightarrow> HashTable \<Rightarrow> bool" where
  "table_shape h t \<longleftrightarrow>
     16 \<le> length (buckets t)
     \<and> table_size t = length (concat (buckets t))
     \<and> (\<forall>i < length (buckets t).
          distinct (map fst (buckets t ! i))
          \<and> (\<forall>n \<in> set (buckets t ! i). HashTable_bucket_index h t (fst n) = i))"

definition table_ok :: "hash \<Rightarrow> HashTable \<Rightarrow> bool" where
  "table_ok h t \<longleftrightarrow> table_shape h t \<and> load_within (table_size t) (length (buckets t))"

definition table_nodes :: "HashTable \<Rightarrow> Node list" where
  "table_nodes t = concat (buckets t)"

section \<open>Chains\<close>

lemma chain_find_map_of: "chain_find key ns = map_of ns key"
  by (induction key ns rule: chain_find.induct) auto

lemma chain_assign_None: "chain_assign key e ns = None \<longleftrightarrow> key \<notin> fst ` set ns"
  by (induction key e ns rule: chain_assign.induct) auto

lemma chain_assign_Some:
  "chain_assign key e ns = Some ns' \<Longrightarrow>
     map fst ns' = map fst ns \<and> map_of ns' = (map_of ns)(key \<mapsto> e) \<and> key \<in> fst ` set ns"
  by (induction key e ns arbitrary: ns' rule: chain_assign.induct)
    (auto simp: fun_upd_twist split: if_splits)

lemma chain_erase_None: "chain_erase key ns = None \<longleftrightarrow> key \<notin> fst ` set ns"
  by (induction key ns rule: chain_erase.induct) auto

lemma chain_erase_Some:
  "chain_erase key ns = Some ns' \<Longrightarrow> distinct (map fst ns) \<Longrightarrow>
     ns' = filter (\<lambda>n. fst n \<noteq> key) ns \<and> length ns = Suc (length ns') \<and> key \<in> fst ` set ns"
proof (induction key ns arbitrary: ns' rule: chain_erase.induct)
  case (2 key k e ns)
  show ?case
  proof (cases "k = key")
    case True
    with 2 have "\<forall>n \<in> set ns. fst n \<noteq> key" by force
    with True 2 show ?thesis by (auto simp: filter_id_conv)
  next
    case False
    with 2 show ?thesis by auto
  qed
qed simp

lemma map_of_filter_key: "map_of (filter (\<lambda>n. fst n \<noteq> k) ns) = (map_of ns)(k := None)"
  by (induction ns) (auto simp: fun_eq_iff)

section \<open>Buckets\<close>

lemma set_bucket_simps [simp]:
  "buckets (set_bucket i ns t) = (buckets t)[i := ns]"
  "table_size (set_bucket i ns t) = table_size t"
  by (simp_all add: set_bucket_def)

lemma bucket_index_cong:
  "length (buckets t) = length (buckets t') \<Longrightarrow>
     HashTable_bucket_index h t = HashTable_bucket_index h t'"
  by (simp add: HashTable_bucket_index_def fun_eq_iff)

lemma bucket_index_less: "16 \<le> length (buckets t) \<Longrightarrow> HashTable_bucket_index h t k < length (buckets t)"
  unfolding HashTable_bucket_index_def by (rule mod_less_divisor) auto

lemma length_concat_update:
  "i < length bs \<Longrightarrow> length (concat (bs[i := ns])) + length (bs ! i) = length (concat bs) + length ns"
proof (induction bs arbitrary: i)
  case (Cons b bs)
  then show ?case by (cases i) auto
qed simp

lemma table_shapeD:
  assumes "table_shape h t"
  shows "16 \<le> length (buckets t)" "table_size t = length (concat (buckets t))"
    "\<And>i. i < length (buckets t) \<Longrightarrow> distinct (map fst (buckets t ! i))"
    "\<And>i n. i < length (buckets t) \<Longrightarrow> n \<in> set (buckets t ! i)
       \<Longrightarrow> HashTable_bucket_index h t (fst n) = i"
    "HashTable_bucket_index h t k < length (buckets t)"
  using assms by (auto simp: table_shape_def intro: bucket_index_less)

lemma find_eq_map_of:
  assumes "table_shape h t"
  shows "HashTable_find h t = map_of (table_nodes t)"
proof
  fix k
  have "map_of (concat (buckets t)) k = map_of (buckets t ! HashTable_bucket_index h t k) k"
    using table_shapeD[OF assms] by (intro map_of_concat_unique) auto
  then show "HashTable_find h t k = map_of (table_nodes t) k"
    by (simp add: HashTable_find_def chain_find_map_of table_nodes_def)
qed

lemma distinct_keys:
  assumes "table_shape h t"
  shows "distinct (map fst (table_nodes t))"
proof -
  have "distinct (concat (map (map fst) bs))"
    if "\<forall>i < length bs. distinct (map fst (bs ! i)) \<and> (\<forall>n \<in> set (bs ! i). f (fst n) = i + c)"
    for f :: "string \<Rightarrow> nat" and c and bs :: "Node list list"
    using that
  proof (induction bs arbitrary: c)
    case (Cons b bs)
    have tl: "\<forall>i < length bs. distinct (map fst (bs ! i)) \<and> (\<forall>n \<in> set (bs ! i). f (fst n) = i + Suc c)"
      using Cons.prems by (metis Suc_less_eq add_Suc add_Suc_right length_Cons nth_Cons_Suc)
    have hd: "distinct (map fst b)" "\<forall>n \<in> set b. f (fst n) = c"
      using Cons.prems[rule_format, of 0] by auto
    have "f (fst m) \<noteq> c" if "bc \<in> set bs" "m \<in> set bc" for bc m
      using tl that by (metis Suc_n_not_le_n add_Suc_right in_set_conv_nth le_add2)
    with hd have "set (map fst b) \<inter> set (concat (map (map fst) bs)) = {}" by fastforce
    with Cons.IH[OF tl] hd show ?case by simp
  qed simp
  from this[of "buckets t" "HashTable_bucket_index h t" 0] assms
  show ?thesis by (simp add: table_nodes_def map_concat table_shape_def)
qed

lemma set_bucket_shape:
  assumes "table_shape h t" "i < length (buckets t)" "distinct (map fst ns)"
    and "\<And>n. n \<in> set ns \<Longrightarrow> HashTable_bucket_index h t (fst n) = i"
    and "sz + length (buckets t ! i) = table_size t + length ns"
  shows "table_shape h ((set_bucket i ns t)\<lparr>table_size := sz\<rparr>)"
proof -
  let ?t = "(set_bucket i ns t)\<lparr>table_size := sz\<rparr>"
  have idx: "HashTable_bucket_index h ?t = HashTable_bucket_index h t"
    by (rule bucket_index_cong) simp
  have "sz = length (concat (buckets ?t))"
    using assms(5) table_shapeD(2)[OF assms(1)] length_concat_update[OF assms(2), of ns] by simp
  moreover have "distinct (map fst (buckets ?t ! j)) \<and> (\<forall>n \<in> set (buckets ?t ! j). HashTable_bucket_index h t (fst n) = j)"
    if "j < length (buckets ?t)" for j
    using that assms table_shapeD(3,4)[OF assms(1), of j] by (cases "j = i") auto
  ultimately show ?thesis unfolding table_shape_def idx
    using table_shapeD(1)[OF assms(1)] by simp
qed

lemma set_bucket_find:
  assumes "16 \<le> length (buckets t)" "i = HashTable_bucket_index h t key"
    and "\<And>k. k \<noteq> key \<Longrightarrow> map_of ns k = map_of (buckets t ! i) k"
  shows "HashTable_find h ((set_bucket i ns t)\<lparr>table_size := sz\<rparr>)
     = (HashTable_find h t)(key := map_of ns key)"
proof
  fix k
  have "HashTable_bucket_index h ((set_bucket i ns t)\<lparr>table_size := sz\<rparr>) k = HashTable_bucket_index h t k"
    by (simp add: HashTable_bucket_index_def)
  moreover have "i < length (buckets t)" using assms(1,2) by (simp add: bucket_index_less)
  ultimately show "HashTable_find h ((set_bucket i ns t)\<lparr>table_size := sz\<rparr>) k
     = ((HashTable_find h t)(key := map_of ns key)) k"
    using assms(2,3)
    by (cases "HashTable_bucket_index h t k = i")
      (auto simp: HashTable_find_def chain_find_map_of)
qed


section \<open>Construction, erasure, clearing, traversal\<close>

lemma concat_map_Nil: "concat (map (\<lambda>_. []) xs) = []"
  by (induction xs) auto

lemma table_ok_new: "table_ok h (HashTable_new n)"
  by (auto simp: table_ok_def table_shape_def HashTable_new_def Let_def lp.within_zero)

lemma find_empty_buckets: "\<lbrakk>16 \<le> length (buckets t); \<forall>b \<in> set (buckets t). b = []\<rbrakk> \<Longrightarrow> HashTable_find h t = Map.empty"
proof
  fix k
  assume a: "16 \<le> length (buckets t)" "\<forall>b \<in> set (buckets t). b = []"
  then have "buckets t ! HashTable_bucket_index h t k = []"
    using bucket_index_less[of t h k] nth_mem by blast
  then show "HashTable_find h t k = None" by (simp add: HashTable_find_def)
qed

lemma find_new: "HashTable_find h (HashTable_new n) = Map.empty"
  by (rule find_empty_buckets) (auto simp: HashTable_new_def Let_def)

lemma table_ok_clear: "table_ok h t \<Longrightarrow> table_ok h (HashTable_clear t)"
  by (auto simp: table_ok_def table_shape_def HashTable_clear_def lp.within_zero concat_map_Nil)

lemma find_clear: "table_ok h t \<Longrightarrow> HashTable_find h (HashTable_clear t) = Map.empty"
  by (rule find_empty_buckets) (auto simp: HashTable_clear_def table_ok_def table_shape_def)

lemma erase_correct:
  assumes "table_ok h t" "HashTable_erase h t key = (t', removed)"
  shows "table_ok h t'" "HashTable_find h t' = (HashTable_find h t)(key := None)"
    "removed \<longleftrightarrow> HashTable_find h t key \<noteq> None"
    "table_size t' = table_size t - (if removed then 1 else 0)"
    "length (buckets t') = length (buckets t)"
proof -
  let ?i = "HashTable_bucket_index h t key"
  have shape: "table_shape h t" using assms(1) by (simp add: table_ok_def)
  note sh = table_shapeD[OF shape]
  have len: "16 \<le> length (buckets t)" "?i < length (buckets t)" using sh by auto
  have "table_ok h t' \<and> HashTable_find h t' = (HashTable_find h t)(key := None)
    \<and> (removed \<longleftrightarrow> HashTable_find h t key \<noteq> None)
    \<and> table_size t' = table_size t - (if removed then 1 else 0)
    \<and> length (buckets t') = length (buckets t)"
  proof (cases "chain_erase key (buckets t ! ?i)")
    case None
    then have none: "HashTable_find h t key = None"
      by (simp add: chain_erase_None HashTable_find_def chain_find_map_of map_of_eq_None_iff)
    from None assms(2) have "t' = t" "\<not> removed" by (auto simp: HashTable_erase_def Let_def)
    with none assms(1) show ?thesis by (auto simp: fun_upd_idem)
  next
    case (Some ns)
    with chain_erase_Some sh(3)[OF len(2)] have ns: "ns = filter (\<lambda>n. fst n \<noteq> key) (buckets t ! ?i)"
      "length (buckets t ! ?i) = Suc (length ns)" "key \<in> fst ` set (buckets t ! ?i)" by blast+
    have t': "t' = (set_bucket ?i ns t)\<lparr>table_size := table_size t - 1\<rparr>" "removed"
      using Some assms(2) by (auto simp: HashTable_erase_def Let_def)
    have "0 < table_size t"
      using sh(2) ns(2) length_concat_update[OF len(2), of ns] by linarith
    then have "table_shape h t'" unfolding t'
      using shape len(2) ns sh(3,4)[OF len(2)]
      by (intro set_bucket_shape) (auto simp: distinct_map_filter)
    moreover have "load_within (table_size t') (length (buckets t'))"
      using assms(1) lp.within_mono[of "table_size t - 1" "table_size t"] by (simp add: t' table_ok_def)
    moreover have "HashTable_find h t' = (HashTable_find h t)(key := None)"
      unfolding t' using set_bucket_find[OF len(1), of ?i h key ns] ns(1)
      by (simp add: map_of_filter_key)
    moreover have "HashTable_find h t key \<noteq> None"
      using ns(3) by (simp add: HashTable_find_def chain_find_map_of map_of_eq_None_iff)
    ultimately show ?thesis using t' by (simp add: table_ok_def)
  qed
  then show "table_ok h t'" "HashTable_find h t' = (HashTable_find h t)(key := None)"
    "removed \<longleftrightarrow> HashTable_find h t key \<noteq> None"
    "table_size t' = table_size t - (if removed then 1 else 0)"
    "length (buckets t') = length (buckets t)" by blast+
qed

lemma for_each_nodes: "HashTable_for_each fn t s = foldl (\<lambda>s (k, e). fn s k e) s (table_nodes t)"
proof -
  have "foldl (foldl f) s bs = foldl f s (concat bs)" for f :: "'a \<Rightarrow> Node \<Rightarrow> 'a" and s bs
    by (induction bs arbitrary: s) auto
  then show ?thesis by (simp add: HashTable_for_each_def table_nodes_def)
qed

section \<open>Insertion and rehashing\<close>

lemma chain_push_table:
  assumes shape: "table_shape h t"
    and none: "chain_assign key e (buckets t ! HashTable_bucket_index h t key) = None"
  defines "t' \<equiv> (set_bucket (HashTable_bucket_index h t key)
     ((key, e) # buckets t ! HashTable_bucket_index h t key) t)\<lparr>table_size := Suc (table_size t)\<rparr>"
  shows "table_shape h t'" "HashTable_find h t' = (HashTable_find h t)(key \<mapsto> e)"
    "HashTable_find h t key = None"
proof -
  note sh = table_shapeD[OF shape]
  have key: "key \<notin> fst ` set (buckets t ! HashTable_bucket_index h t key)"
    using none by (simp add: chain_assign_None)
  then show "table_shape h t'" unfolding t'_def
    using shape sh(5) sh(3,4)[OF sh(5)] by (intro set_bucket_shape) auto
  show "HashTable_find h t' = (HashTable_find h t)(key \<mapsto> e)" unfolding t'_def
    using set_bucket_find[OF sh(1) refl, where ns = "(key, e) # buckets t ! HashTable_bucket_index h t key"]
    by simp
  show "HashTable_find h t key = None"
    using key by (simp add: HashTable_find_def chain_find_map_of map_of_eq_None_iff)
qed

lemma chain_assign_table:
  assumes shape: "table_shape h t"
    and some: "chain_assign key e (buckets t ! HashTable_bucket_index h t key) = Some ns'"
  defines "t' \<equiv> set_bucket (HashTable_bucket_index h t key) ns' t"
  shows "table_shape h t'" "HashTable_find h t' = (HashTable_find h t)(key \<mapsto> e)"
    "HashTable_find h t key \<noteq> None"
proof -
  let ?i = "HashTable_bucket_index h t key"
  note sh = table_shapeD[OF shape]
  from chain_assign_Some[OF some] have ns': "map fst ns' = map fst (buckets t ! ?i)"
    "map_of ns' = (map_of (buckets t ! ?i))(key \<mapsto> e)" "key \<in> fst ` set (buckets t ! ?i)" by blast+
  have t': "t' = (set_bucket ?i ns' t)\<lparr>table_size := table_size t\<rparr>" by (simp add: t'_def set_bucket_def)
  have idx: "HashTable_bucket_index h t (fst n) = ?i" if "n \<in> set ns'" for n
  proof -
    have "fst n \<in> set (map fst ns')" using that by simp
    then have "fst n \<in> fst ` set (buckets t ! ?i)" unfolding ns'(1) by simp
    then show ?thesis using sh(4)[OF sh(5)] by auto
  qed
  have "length ns' = length (buckets t ! ?i)" using ns'(1) by (metis length_map)
  then show "table_shape h t'" unfolding t'
    using shape sh(5) ns'(1) sh(3)[OF sh(5)] idx by (intro set_bucket_shape) auto
  show "HashTable_find h t' = (HashTable_find h t)(key \<mapsto> e)" unfolding t'
    using set_bucket_find[OF sh(1), of ?i h key ns'] ns'(2) by simp
  show "HashTable_find h t key \<noteq> None"
    using ns'(3) by (simp add: HashTable_find_def chain_find_map_of map_of_eq_None_iff)
qed

lemma insert_in_place:
  assumes "table_shape h t" "load_within (Suc (table_size t)) (length (buckets t))"
  shows "\<exists>t'. insert_depth h (Suc d) t key e = Inr (t', HashTable_find h t key = None)
     \<and> table_shape h t' \<and> length (buckets t') = length (buckets t)
     \<and> HashTable_find h t' = (HashTable_find h t)(key \<mapsto> e)
     \<and> table_size t' \<le> Suc (table_size t)"
proof (cases "chain_assign key e (buckets t ! HashTable_bucket_index h t key)")
  case None
  then show ?thesis using assms(2) chain_push_table[OF assms(1) None]
    by (simp add: Let_def rehash_with_def)
next
  case (Some ns')
  then show ?thesis using chain_assign_table[OF assms(1) Some] by (simp add: Let_def)
qed

lemma insert_depth_Suc_cong:
  "load_within (Suc (table_size t)) (length (buckets t)) \<Longrightarrow>
     insert_depth h (Suc d) t key e = insert_depth h (Suc 0) t key e"
  by (simp add: Let_def rehash_with_def split: option.splits)

lemma fold_insert_in_place:
  assumes "table_shape h t" "length (buckets t) = b"
    and "\<And>m. m \<le> table_size t + length ns \<Longrightarrow> load_within m b"
  shows "\<exists>t'. fold_res (\<lambda>t (k, e). bind_res (insert_depth h (Suc d) t k e) (\<lambda>(t', _). Inr t')) ns t = Inr t'
     \<and> fold_res (\<lambda>t (k, e). bind_res (insert_depth h (Suc 0) t k e) (\<lambda>(t', _). Inr t')) ns t = Inr t'
     \<and> table_shape h t' \<and> length (buckets t') = b
     \<and> HashTable_find h t' = HashTable_find h t ++ map_of (rev ns)
     \<and> table_size t' \<le> table_size t + length ns"
  using assms
proof (induction ns arbitrary: t)
  case (Cons n ns)
  obtain k e where n: "n = (k, e)" by (cases n)
  have load: "load_within (Suc (table_size t)) (length (buckets t))" using Cons.prems by simp
  from insert_in_place[OF Cons.prems(1) load, of d k e] obtain t1 where
    t1: "insert_depth h (Suc d) t k e = Inr (t1, HashTable_find h t k = None)" "table_shape h t1"
      "length (buckets t1) = b" "HashTable_find h t1 = (HashTable_find h t)(k \<mapsto> e)"
      "table_size t1 \<le> Suc (table_size t)" using Cons.prems(2) by auto
  have "load_within m b" if "m \<le> table_size t1 + length ns" for m
    using that t1(5) by (intro Cons.prems(3)) simp
  from Cons.IH[OF t1(2,3) this] obtain t' where
    t': "fold_res (\<lambda>t (k, e). bind_res (insert_depth h (Suc d) t k e) (\<lambda>(t', _). Inr t')) ns t1 = Inr t'"
      "fold_res (\<lambda>t (k, e). bind_res (insert_depth h (Suc 0) t k e) (\<lambda>(t', _). Inr t')) ns t1 = Inr t'"
      "table_shape h t'" "length (buckets t') = b"
      "HashTable_find h t' = HashTable_find h t1 ++ map_of (rev ns)"
      "table_size t' \<le> table_size t1 + length ns" by blast
  have step: "fold_res (\<lambda>t (k, e). bind_res (insert_depth h (Suc c) t k e) (\<lambda>(t', _). Inr t')) (n # ns) t
     = fold_res (\<lambda>t (k, e). bind_res (insert_depth h (Suc c) t k e) (\<lambda>(t', _). Inr t')) ns t1" for c
    using t1(1) insert_depth_Suc_cong[OF load, of h d k e] insert_depth_Suc_cong[OF load, of h c k e]
    by (simp only: n fold_res.simps prod.case bind_res.simps)
  have "HashTable_find h t' = HashTable_find h t ++ map_of (rev (n # ns))"
    using t'(5) t1(4) by (simp only: map_add_upd_assoc n)
  moreover have "table_size t' \<le> table_size t + length (n # ns)" using t'(6) t1(5) by simp
  ultimately show ?case using t'(1-4) step by metis
qed simp

lemma map_of_rev_nodes: "table_shape h t \<Longrightarrow> map_of (rev (table_nodes t)) = HashTable_find h t"
  by (simp add: find_eq_map_of distinct_keys distinct_map_fst_map_of_rev)

lemma rehash_correct:
  assumes shape: "table_shape h t" and size: "table_size t \<le> Suc n"
    and load: "load_within n (length (buckets t))"
  shows "\<exists>t'. rehash_with (insert_depth h (Suc d)) t = Inr t'
     \<and> rehash_with (insert_depth h (Suc 0)) t = Inr t'
     \<and> table_ok h t' \<and> HashTable_find h t' = HashTable_find h t
     \<and> table_size t' \<le> table_size t"
proof (cases "load_within (table_size t) (length (buckets t))")
  case True
  then show ?thesis using shape by (simp add: rehash_with_def table_ok_def)
next
  case False
  let ?b = "length (buckets t) * 2"
  let ?t = "\<lparr>buckets = replicate ?b [], table_size = 0\<rparr> :: HashTable"
  note sh = table_shapeD[OF shape]
  have empty: "table_shape h ?t" "HashTable_find h ?t = Map.empty"
    using sh(1) by (auto simp: table_shape_def intro: find_empty_buckets)
  have within: "load_within m ?b" if "m \<le> table_size t" for m
  proof -
    have "0 < length (buckets t)" using sh(1) by linarith
    then show ?thesis using lp.within_doubled[OF _ load, of m] size that by (simp add: mult.commute)
  qed
  then have "\<And>m. m \<le> table_size ?t + length (table_nodes t) \<Longrightarrow> load_within m ?b"
    using sh(2) by (simp add: table_nodes_def)
  from fold_insert_in_place[OF empty(1) _ this, of "table_nodes t" d] obtain t' where
    t': "fold_res (\<lambda>t (k, e). bind_res (insert_depth h (Suc d) t k e) (\<lambda>(t', _). Inr t')) (table_nodes t) ?t = Inr t'"
      "fold_res (\<lambda>t (k, e). bind_res (insert_depth h (Suc 0) t k e) (\<lambda>(t', _). Inr t')) (table_nodes t) ?t = Inr t'"
      "table_shape h t'" "length (buckets t') = ?b"
      "HashTable_find h t' = Map.empty ++ map_of (rev (table_nodes t))"
      "table_size t' \<le> length (table_nodes t)" unfolding empty(2) by auto
  have "table_size t' \<le> table_size t" using t'(6) sh(2) by (simp add: table_nodes_def)
  with within t' have "table_ok h t'" by (simp add: table_ok_def)
  then show ?thesis using t' False sh(2) map_of_rev_nodes[OF shape]
    by (simp add: rehash_with_def table_nodes_def)
qed

lemma insert_depth_correct:
  assumes "table_ok h t"
  shows "\<exists>t'. insert_depth h (Suc (Suc d)) t key e = Inr (t', HashTable_find h t key = None)
     \<and> insert_depth h (Suc (Suc 0)) t key e = Inr (t', HashTable_find h t key = None)
     \<and> table_ok h t' \<and> HashTable_find h t' = (HashTable_find h t)(key \<mapsto> e)"
proof -
  have shape: "table_shape h t" and load: "load_within (table_size t) (length (buckets t))"
    using assms by (auto simp: table_ok_def)
  show ?thesis
  proof (cases "chain_assign key e (buckets t ! HashTable_bucket_index h t key)")
    case (Some ns')
    then show ?thesis using chain_assign_table[OF shape Some] load
      by (simp add: Let_def table_ok_def)
  next
    case None
    note push = chain_push_table[OF shape None]
    from rehash_correct[OF push(1) _ _, of "table_size t" d] load push(2,3) None
    show ?thesis by (auto simp: Let_def)
  qed
qed

lemma insert_correct:
  assumes "table_ok h t"
  shows "\<exists>t'. HashTable_insert h t key e = Inr (t', HashTable_find h t key = None)
     \<and> table_ok h t' \<and> HashTable_find h t' = (HashTable_find h t)(key \<mapsto> e)"
  using insert_depth_correct[OF assms, of 0 key e]
  by (auto simp: HashTable_insert_def numeral_2_eq_2)

section \<open>The table implements a key-value store\<close>

interpretation ht: kv_store "table_ok h" "HashTable_find h"
  "\<lambda>t k e. bind_res (HashTable_insert h t k e) (\<lambda>(t', _). Inr t')"
  "\<lambda>t k. fst (HashTable_erase h t k)" "\<lambda>e. e" for h
proof (unfold_locales, goal_cases)
  case (1 t k e)
  from insert_correct[OF this, of k e] show ?case by auto
next
  case (2 t k)
  then show ?case by (metis erase_correct(1) prod.collapse)
next
  case (3 t k)
  then show ?case by (metis erase_correct(2) prod.collapse)
qed

section \<open>Properties\<close>

text \<open>
  C17: \<open>HashTable::insert\<close> never fails or diverges on a well-formed table, rehash included:
  it returns whether the key was new, keeps the invariant (keys unique, each in the bucket
  of its hash, the size exact, the load factor within its limit), and changes the lookup
  of the inserted key only.
\<close>

theorem insert_spec:
  assumes "table_ok h t"
  shows "\<exists>t'. HashTable_insert h t key e = Inr (t', HashTable_find h t key = None)
     \<and> table_ok h t' \<and> HashTable_find h t' = (HashTable_find h t)(key \<mapsto> e)"
  using assms by (rule insert_correct)

theorem insert_spec_witness:
  "\<exists>t'. HashTable_insert (\<lambda>_. 7) (HashTable_new 16) ''a'' \<lparr>entry_value = ''v'', expires_at = None\<rparr>
       = Inr (t', True)
     \<and> table_ok (\<lambda>_. 7) t'
     \<and> HashTable_find (\<lambda>_. 7) t' = [''a'' \<mapsto> \<lparr>entry_value = ''v'', expires_at = None\<rparr>]"
proof -
  let ?e = "\<lparr>entry_value = ''v'', expires_at = None\<rparr>"
  obtain t' where "HashTable_insert (\<lambda>_. 7) (HashTable_new 16) ''a'' ?e
        = Inr (t', HashTable_find (\<lambda>_. 7) (HashTable_new 16) ''a'' = None)"
    "table_ok (\<lambda>_. 7) t'"
    "HashTable_find (\<lambda>_. 7) t' = (HashTable_find (\<lambda>_. 7) (HashTable_new 16))(''a'' \<mapsto> ?e)"
    using insert_spec[OF table_ok_new] by metis
  then show ?thesis unfolding find_new by auto
qed



text \<open>
  \<open>HashTable::erase\<close> removes exactly the given key, reports whether it was there, keeps
  the invariant and the number of buckets, and decrements the size exactly when it removed.
\<close>

theorem erase_spec:
  assumes "table_ok h t" "HashTable_erase h t key = (t', removed)"
  shows "table_ok h t' \<and> HashTable_find h t' = (HashTable_find h t)(key := None)
     \<and> (removed \<longleftrightarrow> HashTable_find h t key \<noteq> None)
     \<and> table_size t' = table_size t - (if removed then 1 else 0)
     \<and> length (buckets t') = length (buckets t)"
  using erase_correct[OF assms] by blast

theorem erase_spec_witness:
  "\<exists>t'. HashTable_erase (\<lambda>_. 3) (HashTable_new 16) ''a'' = (t', False)
     \<and> table_ok (\<lambda>_. 3) t' \<and> HashTable_find (\<lambda>_. 3) t' = Map.empty"
proof -
  obtain t' b where r: "HashTable_erase (\<lambda>_. 3) (HashTable_new 16) ''a'' = (t', b)" by (rule prod.exhaust)
  from erase_spec[OF table_ok_new r] r show ?thesis by (auto simp: find_new)
qed

end
