(* ===== verification/Key_Scanner.thy ===== *)
theory Key_Scanner
  imports Hash_Table Cxx_Strings
begin

text \<open>
  The cursor-based key iteration of src/storage/key_scanner.cpp.

  A cursor is a bucket number and a position in that bucket's chain, both
  \<open>std::uint64_t\<close> in the code; every increment is bounded by the number of buckets
  or by the length of a chain, so they are natural numbers here. The visitor that
  \<open>KeyScanner::scan\<close> passes to \<open>HashTable::for_each_bucket\<close> is \<open>scan_visit\<close>; its
  captured variables are the pair of the page and the chain position.

  \<open>scan_rest t c\<close> is what is left to visit from a cursor on. The lemmas show that a page
  is the next \<open>count\<close> matching keys of it and that the returned cursor stands for
  exactly the rest, so that following the cursor until \<open>finished\<close> returns every
  matching key of an unchanged table exactly once. Cursors are ordered
  lexicographically, and a page never moves backwards.
\<close>

section \<open>Cursors, pages, patterns\<close>

datatype ScanCursor = ScanCursor (cur_bucket: nat) (cur_chain: nat)

record ScanPage =
  page_next :: ScanCursor
  page_keys :: "string list"
  page_finished :: bool

definition KeyScanner_matches :: "string \<Rightarrow> string \<Rightarrow> bool" where
  "KeyScanner_matches key pattern =
     (if pattern = [] \<or> pattern = ''*'' then True
      else if hd pattern = CHR ''*'' \<and> last pattern = CHR ''*'' \<and> length pattern > 2 then
        find_substring (take (length pattern - 2) (drop 1 pattern)) key \<noteq> None
      else if hd pattern = CHR ''*'' then
        (let suffix = drop 1 pattern in
         if length suffix > length key then False
         else drop (length key - length suffix) key = suffix)
      else if last pattern = CHR ''*'' then
        starts_with (take (length pattern - 1) pattern) key
      else key = pattern)"

definition scan_visit :: "nat \<Rightarrow> string \<Rightarrow> nat \<Rightarrow> ScanPage \<times> nat \<Rightarrow> string \<Rightarrow> nat \<Rightarrow> ScanPage \<times> nat" where
  "scan_visit count pattern bucket st key index =
     (let (page, chain) = st in
      if index < chain then st
      else if length (page_keys page) \<ge> count then st
      else (page\<lparr>page_keys := (if KeyScanner_matches key pattern then page_keys page @ [key]
                               else page_keys page),
                 page_next := ScanCursor bucket (index + 1)\<rparr>,
            index + 1))"

function scan_loop :: "HashTable \<Rightarrow> nat \<Rightarrow> string \<Rightarrow> ScanPage \<Rightarrow> nat \<Rightarrow> nat \<Rightarrow> ScanPage" where
  "scan_loop t count pattern page bucket chain =
     (if bucket < length (buckets t) \<and> length (page_keys page) < count then
        let (page', chain') =
              HashTable_for_each_bucket (scan_visit count pattern bucket) t bucket (page, chain) in
        if length (page_keys page') < count then
          scan_loop t count pattern (page'\<lparr>page_next := ScanCursor (bucket + 1) 0\<rparr>) (bucket + 1) 0
        else scan_loop t count pattern page' bucket chain'
      else page)"
  by pat_completeness auto
termination
  by (relation "measures [\<lambda>(t, count, pattern, page, bucket, chain).
                            if length (page_keys page) < count then 1 else 0,
                          \<lambda>(t, count, pattern, page, bucket, chain). length (buckets t) - bucket]") auto

declare scan_loop.simps [simp del]

definition KeyScanner_scan :: "HashTable \<Rightarrow> ScanCursor \<Rightarrow> nat \<Rightarrow> string \<Rightarrow> ScanPage" where
  "KeyScanner_scan t cursor count pattern =
     (let page = \<lparr>page_next = cursor, page_keys = [], page_finished = False\<rparr> in
      if count = 0 then page\<lparr>page_finished := True\<rparr>
      else
        let page' = scan_loop t count pattern page (cur_bucket cursor) (cur_chain cursor)
        in page'\<lparr>page_finished := (cur_bucket (page_next page') \<ge> length (buckets t))\<rparr>)"

section \<open>Specification\<close>

instantiation ScanCursor :: linorder
begin

definition less_eq_ScanCursor :: "ScanCursor \<Rightarrow> ScanCursor \<Rightarrow> bool" where
  "less_eq_ScanCursor c d \<longleftrightarrow>
     cur_bucket c < cur_bucket d \<or> (cur_bucket c = cur_bucket d \<and> cur_chain c \<le> cur_chain d)"

definition less_ScanCursor :: "ScanCursor \<Rightarrow> ScanCursor \<Rightarrow> bool" where
  "less_ScanCursor c d \<longleftrightarrow>
     cur_bucket c < cur_bucket d \<or> (cur_bucket c = cur_bucket d \<and> cur_chain c < cur_chain d)"

instance
  by standard (auto simp: less_eq_ScanCursor_def less_ScanCursor_def ScanCursor.expand)

end

definition scan_rest :: "HashTable \<Rightarrow> ScanCursor \<Rightarrow> string list" where
  "scan_rest t c =
     (if cur_bucket c < length (buckets t)
      then map fst (drop (cur_chain c) (buckets t ! cur_bucket c)
                    @ concat (drop (Suc (cur_bucket c)) (buckets t)))
      else [])"

primrec scan_pages :: "nat \<Rightarrow> HashTable \<Rightarrow> nat \<Rightarrow> string \<Rightarrow> ScanCursor \<Rightarrow> string list option" where
  "scan_pages 0 t count pattern c = None"
| "scan_pages (Suc n) t count pattern c =
     (let page = KeyScanner_scan t c count pattern in
      if page_finished page then Some (page_keys page)
      else map_option ((@) (page_keys page)) (scan_pages n t count pattern (page_next page)))"

section \<open>One bucket\<close>

lemma chain_walk_skip:
  "length ns \<le> c - i \<Longrightarrow> chain_walk (scan_visit count pattern b) i ns (page, c) = (page, c)"
proof (induction ns arbitrary: i)
  case (Cons n ns)
  then have "scan_visit count pattern b (page, c) (fst n) i = (page, c)" "length ns \<le> c - Suc i"
    by (auto simp: scan_visit_def)
  with Cons.IH[of "Suc i"] show ?case by (cases n) simp
qed simp

lemma chain_walk_full:
  "count \<le> length (page_keys page) \<Longrightarrow>
     chain_walk (scan_visit count pattern b) i ns (page, c) = (page, c)"
  by (induction ns arbitrary: i) (auto simp: scan_visit_def Let_def)

text \<open>What a walk over the unvisited part of a chain does, in terms of the keys seen.\<close>

definition walked :: "nat \<Rightarrow> string \<Rightarrow> nat \<Rightarrow> nat \<Rightarrow> Node list \<Rightarrow> ScanPage \<Rightarrow> nat \<Rightarrow> ScanPage \<Rightarrow> bool" where
  "walked count pattern b i ns page m page' \<longleftrightarrow>
     m \<le> length ns
     \<and> page_keys page' = page_keys page @ filter (\<lambda>k. KeyScanner_matches k pattern) (map fst (take m ns))
     \<and> page_next page' = (if m = 0 then page_next page else ScanCursor b (i + m))
     \<and> length (page_keys page') \<le> count
     \<and> (length (page_keys page') = count \<or> m = length ns)"

lemma walkedD:
  assumes "walked count pattern b i ns page m page'"
  shows "m \<le> length ns"
    "page_keys page' = page_keys page @ filter (\<lambda>k. KeyScanner_matches k pattern) (map fst (take m ns))"
    "page_next page' = (if m = 0 then page_next page else ScanCursor b (i + m))"
    "length (page_keys page') \<le> count"
    "length (page_keys page') = count \<or> m = length ns"
  using assms unfolding walked_def by blast+

lemma walked_Cons:
  assumes "walked count pattern b (i + 1) ns
      (page\<lparr>page_keys := (if KeyScanner_matches k pattern then page_keys page @ [k] else page_keys page),
            page_next := ScanCursor b (i + 1)\<rparr>) m page'"
  shows "walked count pattern b i ((k, e) # ns) page (Suc m) page'"
proof -
  note w = walkedD[OF assms]
  have "page_keys page' = page_keys page
      @ filter (\<lambda>k. KeyScanner_matches k pattern) (map fst (take (Suc m) ((k, e) # ns)))"
    using w(2) by simp
  moreover have "page_next page' = ScanCursor b (i + Suc m)" using w(3) by (simp split: if_splits)
  moreover have "length (page_keys page') = count \<or> Suc m = length ((k, e) # ns)" using w(5) by auto
  ultimately show ?thesis unfolding walked_def using w(1,4) by (metis Suc_le_mono length_Cons nat.distinct(1))
qed

lemma walked_full: "count = length (page_keys page) \<Longrightarrow> walked count pattern b i ns page 0 page"
  by (simp add: walked_def)

lemma chain_walk_visit:
  "length (page_keys page) < count \<Longrightarrow>
   \<exists>m page'. chain_walk (scan_visit count pattern b) i ns (page, i) = (page', i + m)
     \<and> walked count pattern b i ns page m page'"
proof (induction ns arbitrary: i page)
  case Nil
  then show ?case by (intro exI[of _ 0] exI[of _ page]) (simp add: walked_def)
next
  case (Cons n ns)
  obtain k e where n: "n = (k, e)" by (cases n)
  define page1 where "page1 = page\<lparr>page_keys := (if KeyScanner_matches k pattern then page_keys page @ [k] else page_keys page),
                   page_next := ScanCursor b (i + 1)\<rparr>"
  have step: "chain_walk (scan_visit count pattern b) i (n # ns) (page, i)
     = chain_walk (scan_visit count pattern b) (i + 1) ns (page1, i + 1)"
    using Cons.prems n by (simp add: scan_visit_def page1_def)
  have "\<exists>m page'. chain_walk (scan_visit count pattern b) (i + 1) ns (page1, i + 1) = (page', i + 1 + m)
     \<and> walked count pattern b (i + 1) ns page1 m page'"
  proof (cases "length (page_keys page1) < count")
    case True
    then show ?thesis by (rule Cons.IH)
  next
    case False
    then have "count = length (page_keys page1)" using Cons.prems
      by (simp add: page1_def split: if_splits)
    then show ?thesis
      by (intro exI[of _ 0] exI[of _ page1]) (simp add: chain_walk_full walked_full)
  qed
  then obtain m page' where
    w: "chain_walk (scan_visit count pattern b) (i + 1) ns (page1, i + 1) = (page', i + 1 + m)"
      "walked count pattern b (i + 1) ns page1 m page'" by blast
  from w(2) have "walked count pattern b i (n # ns) page (Suc m) page'"
    unfolding page1_def n by (rule walked_Cons)
  with step w(1) show ?case by (intro exI[of _ "Suc m"] exI[of _ page']) simp
qed

lemma chain_walk_from:
  "c \<ge> i \<Longrightarrow> chain_walk (scan_visit count pattern b) i ns (page, c)
     = chain_walk (scan_visit count pattern b) c (drop (c - i) ns) (page, c)"
proof (induction ns arbitrary: i)
  case (Cons n ns)
  show ?case
  proof (cases "c = i")
    case False
    with Cons.prems have "scan_visit count pattern b (page, c) (fst n) i = (page, c)"
      "drop (c - i) (n # ns) = drop (c - Suc i) ns"
      by (simp_all add: scan_visit_def drop_Cons' Suc_diff_Suc)
    with Cons.IH[of "Suc i"] Cons.prems False show ?thesis by (cases n) simp
  qed simp
qed simp

lemma bucket_visit:
  assumes "b < length (buckets t)" "length (page_keys page) < count"
  shows "\<exists>m page'. HashTable_for_each_bucket (scan_visit count pattern b) t b (page, i) = (page', i + m)
     \<and> walked count pattern b i (drop i (buckets t ! b)) page m page'"
  using chain_walk_visit[OF assms(2)] assms(1)
  by (simp add: HashTable_for_each_bucket_def chain_walk_from[of 0])

section \<open>The whole scan\<close>

text \<open>
  \<open>scanned t pattern c keys c'\<close>: between the cursors \<open>c\<close> and \<open>c'\<close> lie exactly the
  keys of which \<open>keys\<close> are the matching ones.
\<close>

definition cursor_ok :: "HashTable \<Rightarrow> ScanCursor \<Rightarrow> bool" where
  "cursor_ok t c \<longleftrightarrow> (cur_bucket c < length (buckets t) \<longrightarrow> cur_chain c \<le> length (buckets t ! cur_bucket c))"

definition scanned :: "HashTable \<Rightarrow> string \<Rightarrow> ScanCursor \<Rightarrow> string list \<Rightarrow> ScanCursor \<Rightarrow> bool" where
  "scanned t pattern c keys c' \<longleftrightarrow>
     (\<exists>seen. scan_rest t c = seen @ scan_rest t c'
             \<and> keys = filter (\<lambda>k. KeyScanner_matches k pattern) seen \<and> c \<le> c')
     \<and> (cursor_ok t c \<longrightarrow> cursor_ok t c')"

lemma scanned_refl: "scanned t pattern c [] c"
  by (auto simp: scanned_def)

lemma scanned_trans:
  assumes "scanned t pattern c ks c'" "scanned t pattern c' ks' c''"
  shows "scanned t pattern c (ks @ ks') c''"
proof -
  obtain s1 s2 where "scan_rest t c = s1 @ scan_rest t c'" "scan_rest t c' = s2 @ scan_rest t c''"
    "ks = filter (\<lambda>k. KeyScanner_matches k pattern) s1" "ks' = filter (\<lambda>k. KeyScanner_matches k pattern) s2"
    "c \<le> c'" "c' \<le> c''" using assms by (auto simp: scanned_def)
  moreover have "cursor_ok t c \<longrightarrow> cursor_ok t c''" using assms by (simp add: scanned_def)
  ultimately show ?thesis unfolding scanned_def by (intro conjI exI[of _ "s1 @ s2"]) auto
qed

lemma scan_rest_bucket:
  assumes "b < length (buckets t)"
  shows "scan_rest t (ScanCursor b i)
     = map fst (take m (drop i (buckets t ! b))) @ scan_rest t (ScanCursor b (i + m))"
proof -
  have "drop i (buckets t ! b) = take m (drop i (buckets t ! b)) @ drop (i + m) (buckets t ! b)"
    by (metis add.commute append_take_drop_id drop_drop)
  then have "map fst (drop i (buckets t ! b))
      = map fst (take m (drop i (buckets t ! b))) @ map fst (drop (i + m) (buckets t ! b))"
    by (metis map_append)
  then show ?thesis using assms by (simp add: scan_rest_def)
qed

lemma scan_rest_next_bucket:
  assumes "b < length (buckets t)" "length (buckets t ! b) \<le> i"
  shows "scan_rest t (ScanCursor b i) = scan_rest t (ScanCursor (b + 1) 0)"
  using assms by (auto simp: scan_rest_def Cons_nth_drop_Suc[symmetric])

lemma walked_scanned:
  assumes "b < length (buckets t)" "page_next page = ScanCursor b i"
    and "walked count pattern b i (drop i (buckets t ! b)) page m page'"
  shows "scanned t pattern (page_next page)
      (filter (\<lambda>k. KeyScanner_matches k pattern) (map fst (take m (drop i (buckets t ! b)))))
      (page_next page')"
proof -
  have next_page: "page_next page' = ScanCursor b (i + m)" using walkedD(3)[OF assms(3)] assms(2) by simp
  then have "cursor_ok t (page_next page) \<longrightarrow> cursor_ok t (page_next page')"
    using walkedD(1)[OF assms(3)] assms(1,2) by (auto simp: cursor_ok_def)
  then show ?thesis using scan_rest_bucket[OF assms(1), of i m] assms(2) next_page
    unfolding scanned_def
    by (intro conjI exI[of _ "map fst (take m (drop i (buckets t ! b)))"]) (simp_all add: less_eq_ScanCursor_def)
qed

lemma walked_next_bucket:
  assumes "b < length (buckets t)" "page_next page = ScanCursor b i"
    and "walked count pattern b i (drop i (buckets t ! b)) page m page'"
    and "length (page_keys page') < count"
  shows "scanned t pattern (page_next page') [] (ScanCursor (b + 1) 0)"
proof -
  have "page_next page' = ScanCursor b (i + m)" using walkedD(3)[OF assms(3)] assms(2) by simp
  moreover have "m = length (drop i (buckets t ! b))" using walkedD(5)[OF assms(3)] assms(4) by simp
  ultimately show ?thesis using scan_rest_next_bucket[OF assms(1), of "i + m"]
    by (simp add: scanned_def less_eq_ScanCursor_def cursor_ok_def)
qed

lemma scan_loop_done: "\<not> (b < length (buckets t) \<and> length (page_keys page) < count) \<Longrightarrow>
    scan_loop t count pattern page b i = page"
  by (subst scan_loop.simps) auto

definition scan_result :: "HashTable \<Rightarrow> string \<Rightarrow> nat \<Rightarrow> ScanPage \<Rightarrow> ScanPage \<Rightarrow> bool" where
  "scan_result t pattern count page r \<longleftrightarrow>
     (\<exists>ks. page_keys r = page_keys page @ ks \<and> scanned t pattern (page_next page) ks (page_next r))
     \<and> length (page_keys r) \<le> count
     \<and> (length (page_keys r) = count \<or> length (buckets t) \<le> cur_bucket (page_next r))"

lemma scan_result_trans:
  assumes "page_keys q = page_keys page @ ks" "scanned t pattern (page_next page) ks (page_next q)"
    and "scan_result t pattern count q r"
  shows "scan_result t pattern count page r"
  using assms scanned_trans[OF assms(2)] unfolding scan_result_def by (metis append.assoc)

lemma scan_loop_correct:
  assumes "length (page_keys page) < count" "page_next page = ScanCursor b i"
  shows "scan_result t pattern count page (scan_loop t count pattern page b i)"
  using assms
proof (induction "length (buckets t) - b" arbitrary: page b i)
  case 0
  then show ?case
    by (simp add: scan_loop_done scan_result_def scanned_refl)
next
  case (Suc d)
  have b: "b < length (buckets t)" using Suc.hyps(2) by simp
  from bucket_visit[OF b Suc.prems(1)] obtain m page' where
    visit: "HashTable_for_each_bucket (scan_visit count pattern b) t b (page, i) = (page', i + m)"
      and w: "walked count pattern b i (drop i (buckets t ! b)) page m page'" by blast
  note sc = walked_scanned[OF b Suc.prems(2) w]
  have keys: "page_keys page' = page_keys page
      @ filter (\<lambda>k. KeyScanner_matches k pattern) (map fst (take m (drop i (buckets t ! b))))"
    using w by (rule walkedD(2))
  show ?case
  proof (cases "length (page_keys page') < count")
    case True
    let ?q = "page'\<lparr>page_next := ScanCursor (b + 1) 0\<rparr>"
    have "scan_result t pattern count ?q (scan_loop t count pattern ?q (b + 1) 0)"
      using Suc.hyps True by (intro Suc.hyps(1)) simp_all
    moreover have "scan_loop t count pattern page b i = scan_loop t count pattern ?q (b + 1) 0"
      using b Suc.prems(1) True visit by (subst scan_loop.simps) simp
    moreover have "scanned t pattern (page_next page)
        (filter (\<lambda>k. KeyScanner_matches k pattern) (map fst (take m (drop i (buckets t ! b)))))
        (page_next ?q)"
      using scanned_trans[OF sc walked_next_bucket[OF b Suc.prems(2) w True]] by simp
    ultimately show ?thesis using keys by (auto intro: scan_result_trans[of ?q])
  next
    case False
    then have full: "length (page_keys page') = count" using walkedD(4)[OF w] by simp
    have "scan_loop t count pattern page b i = scan_loop t count pattern page' b (i + m)"
      using b Suc.prems(1) False visit by (subst scan_loop.simps) simp
    also have "\<dots> = page'" using False by (intro scan_loop_done) simp
    finally show ?thesis using keys sc full by (auto simp: scan_result_def)
  qed
qed

lemma scan_correct:
  fixes t c pattern
  assumes "0 < count"
  defines "page \<equiv> KeyScanner_scan t c count pattern"
  shows "scanned t pattern c (page_keys page) (page_next page)" "length (page_keys page) \<le> count"
    "page_finished page \<longleftrightarrow> length (buckets t) \<le> cur_bucket (page_next page)"
    "\<not> page_finished page \<Longrightarrow> length (page_keys page) = count"
proof -
  let ?p0 = "\<lparr>page_next = c, page_keys = [], page_finished = False\<rparr>"
  have "scan_result t pattern count ?p0 (scan_loop t count pattern ?p0 (cur_bucket c) (cur_chain c))"
    using assms(1) by (intro scan_loop_correct) simp_all
  then show "scanned t pattern c (page_keys page) (page_next page)" "length (page_keys page) \<le> count"
    "page_finished page \<longleftrightarrow> length (buckets t) \<le> cur_bucket (page_next page)"
    "\<not> page_finished page \<Longrightarrow> length (page_keys page) = count"
    using assms(1) by (auto simp: page_def KeyScanner_scan_def Let_def scan_result_def not_less)
qed

text \<open>What a client needs to go on from an unfinished page: a cursor into the table that is not the start.\<close>

lemma unfinished_cursor:
  assumes "0 < count" "cursor_ok t c" "\<not> page_finished (KeyScanner_scan t c count pattern)"
  defines "c' \<equiv> page_next (KeyScanner_scan t c count pattern)"
  shows "cur_bucket c' < length (buckets t)" "cur_chain c' \<le> length (buckets t ! cur_bucket c')"
    "c' \<noteq> ScanCursor 0 0" "length (scan_rest t c') < length (scan_rest t c)" "cursor_ok t c'"
proof -
  note sc = scan_correct[OF assms(1), where t = t and c = c and pattern = pattern, folded c'_def]
  from sc(1) obtain seen where seen: "scan_rest t c = seen @ scan_rest t c'"
    "page_keys (KeyScanner_scan t c count pattern) = filter (\<lambda>k. KeyScanner_matches k pattern) seen" "c \<le> c'"
    by (auto simp: scanned_def)
  then have "seen \<noteq> []" using sc(4) assms(1,3) by auto
  then show less: "length (scan_rest t c') < length (scan_rest t c)" using seen(1) by (metis length_append length_greater_0_conv less_add_same_cancel2)
  show b: "cur_bucket c' < length (buckets t)" using sc(3) assms(3) by simp
  show ok: "cursor_ok t c'" using sc(1) assms(2) by (simp add: scanned_def)
  show "cur_chain c' \<le> length (buckets t ! cur_bucket c')" using ok b by (simp add: cursor_ok_def)
  show "c' \<noteq> ScanCursor 0 0"
  proof
    assume "c' = ScanCursor 0 0"
    with seen(3) have "c = c'" by (cases c) (auto simp: less_eq_ScanCursor_def less_ScanCursor_def)
    with less show False by simp
  qed
qed

lemma scan_pages_correct:
  assumes "0 < count" "length (scan_rest t c) < n"
  shows "scan_pages n t count pattern c = Some (filter (\<lambda>k. KeyScanner_matches k pattern) (scan_rest t c))"
  using assms(2)
proof (induction n arbitrary: c)
  case (Suc n)
  let ?page = "KeyScanner_scan t c count pattern"
  note sc = scan_correct[OF assms(1), where t = t and c = c and pattern = pattern]
  from sc(1) obtain seen where seen: "scan_rest t c = seen @ scan_rest t (page_next ?page)"
    "page_keys ?page = filter (\<lambda>k. KeyScanner_matches k pattern) seen" by (auto simp: scanned_def)
  show ?case
  proof (cases "page_finished ?page")
    case True
    then have "scan_rest t (page_next ?page) = []" using sc(3) by (simp add: scan_rest_def)
    with True seen show ?thesis by simp
  next
    case False
    then have "length (filter (\<lambda>k. KeyScanner_matches k pattern) seen) = count" using sc(4) seen(2) by simp
    then have "0 < length seen" using assms(1) length_filter_le[of _ seen] by (metis less_le_trans)
    moreover have "length (scan_rest t c) = length seen + length (scan_rest t (page_next ?page))"
      using seen(1) by (metis length_append)
    ultimately have "length (scan_rest t (page_next ?page)) < n" using Suc.prems by linarith
    from Suc.IH[OF this] False seen show ?thesis by simp
  qed
qed simp

lemma scan_rest_start: "scan_rest t (ScanCursor 0 0) = map fst (table_nodes t)"
  by (cases "buckets t") (simp_all add: scan_rest_def table_nodes_def)

section \<open>Patterns\<close>

lemma matches_infix:
  "n \<noteq> [] \<Longrightarrow> KeyScanner_matches key (CHR ''*'' # n @ ''*'') \<longleftrightarrow> (\<exists>a b. key = a @ n @ b)"
  using find_substring_Some[of n key] by (simp add: KeyScanner_matches_def)

lemma matches_suffix:
  assumes "n \<noteq> []" "last n \<noteq> CHR ''*''"
  shows "KeyScanner_matches key (CHR ''*'' # n) \<longleftrightarrow> (\<exists>a. key = a @ n)"
proof -
  have "drop (length key - length n) key = n \<and> length n \<le> length key \<longleftrightarrow> (\<exists>a. key = a @ n)"
    by (metis append_eq_conv_conj append_take_drop_id diff_add_inverse2 le_add2 length_append)
  with assms show ?thesis by (auto simp: KeyScanner_matches_def Let_def)
qed

lemma matches_prefix:
  assumes "n \<noteq> []" "hd n \<noteq> CHR ''*''"
  shows "KeyScanner_matches key (n @ ''*'') \<longleftrightarrow> (\<exists>a. key = n @ a)"
  using assms starts_with_iff[of n key] by (cases n) (auto simp: KeyScanner_matches_def)

lemma matches_literal:
  assumes "n \<noteq> []" "hd n \<noteq> CHR ''*''" "last n \<noteq> CHR ''*''"
  shows "KeyScanner_matches key n \<longleftrightarrow> key = n"
  using assms by (auto simp: KeyScanner_matches_def)

section \<open>Properties\<close>

text \<open>
  One page of \<open>KeyScanner::scan\<close> returns, for the keys between its cursor and the next
  one in the order of the table, exactly the matching ones; never more than \<open>count\<close>, exactly
  \<open>count\<close> when there is more to scan; the cursor never moves back, and the page is marked
  finished just when the cursor has passed the last bucket.
\<close>

theorem scan_page_spec:
  assumes "0 < count"
  shows "let page = KeyScanner_scan t c count pattern in
     (\<exists>seen. scan_rest t c = seen @ scan_rest t (page_next page)
        \<and> page_keys page = filter (\<lambda>k. KeyScanner_matches k pattern) seen)
     \<and> c \<le> page_next page \<and> length (page_keys page) \<le> count
     \<and> (page_finished page \<longleftrightarrow> length (buckets t) \<le> cur_bucket (page_next page))
     \<and> (\<not> page_finished page \<longrightarrow> length (page_keys page) = count)"
  using scan_correct[OF assms, where t = t and c = c and pattern = pattern] by (auto simp: scanned_def Let_def)

theorem scan_page_spec_witness:
  "length (page_keys (KeyScanner_scan (HashTable_new 16) (ScanCursor 2 0) 5 ''*'')) \<le> 5"
  using scan_page_spec[of 5 "HashTable_new 16" "ScanCursor 2 0" "''*''"] by (simp add: Let_def)

text \<open>
  A full iteration that starts at cursor 0 and follows the returned cursors until
  \<open>finished\<close> ends, for every positive page size, and its pages together hold every matching
  key of the table exactly once.
\<close>

theorem scan_exactly_once:
  assumes "table_ok h t" "0 < count"
  shows "\<exists>keys. scan_pages (Suc (table_size t)) t count pattern (ScanCursor 0 0) = Some keys \<and> distinct keys
     \<and> set keys = {k. HashTable_find h t k \<noteq> None \<and> KeyScanner_matches k pattern}"
proof -
  have shape: "table_shape h t" using assms(1) by (simp add: table_ok_def)
  let ?keys = "filter (\<lambda>k. KeyScanner_matches k pattern) (map fst (table_nodes t))"
  have "length (scan_rest t (ScanCursor 0 0)) < Suc (table_size t)"
    using table_shapeD(2)[OF shape] by (simp add: scan_rest_start table_nodes_def)
  then have "scan_pages (Suc (table_size t)) t count pattern (ScanCursor 0 0) = Some ?keys"
    using scan_pages_correct[OF assms(2)] scan_rest_start by metis
  moreover have "distinct ?keys" using distinct_keys[OF shape] by (rule distinct_filter)
  moreover have "set ?keys = {k. HashTable_find h t k \<noteq> None \<and> KeyScanner_matches k pattern}"
    unfolding find_eq_map_of[OF shape] by (auto simp: map_of_eq_None_iff)
  ultimately show ?thesis by blast
qed

theorem scan_exactly_once_witness:
  "\<exists>keys. scan_pages 3 \<lparr>buckets = [(''ab'', \<lparr>entry_value = ''v'', expires_at = None\<rparr>), (''b'', \<lparr>entry_value = ''v'', expires_at = None\<rparr>)] # replicate 15 [], table_size = 2\<rparr> 1 ''*b''
       (ScanCursor 0 0) = Some keys
     \<and> distinct keys \<and> set keys = {''ab'', ''b''}"
proof -
  let ?t = "\<lparr>buckets = [(''ab'', \<lparr>entry_value = ''v'', expires_at = None\<rparr>), (''b'', \<lparr>entry_value = ''v'', expires_at = None\<rparr>)] # replicate 15 [], table_size = 2\<rparr>"
  have "table_shape (\<lambda>_. 0) ?t"
    by (auto simp: table_shape_def HashTable_bucket_index_def nth_Cons')
  moreover have "load_within 2 16" by (simp add: load_within_iff)
  ultimately have ok: "table_ok (\<lambda>_. 0) ?t" by (simp add: table_ok_def)
  have "{k. HashTable_find (\<lambda>_. 0) ?t k \<noteq> None \<and> KeyScanner_matches k ''*b''} = {''ab'', ''b''}"
    by (auto simp: HashTable_find_def HashTable_bucket_index_def KeyScanner_matches_def split: if_splits)
  then show ?thesis using scan_exactly_once[OF ok, of 1 "''*b''"] by (simp add: numeral_3_eq_3 numeral_2_eq_2)
qed

text \<open>
  What the glob patterns accept: an infix between two stars, a suffix after a star, a
  prefix before a star, and otherwise the literal itself.
\<close>

theorem pattern_semantics:
  assumes "n \<noteq> []" "hd n \<noteq> CHR ''*''" "last n \<noteq> CHR ''*''"
  shows "(KeyScanner_matches key (CHR ''*'' # n @ ''*'') \<longleftrightarrow> (\<exists>a b. key = a @ n @ b))
     \<and> (KeyScanner_matches key (CHR ''*'' # n) \<longleftrightarrow> (\<exists>a. key = a @ n))
     \<and> (KeyScanner_matches key (n @ ''*'') \<longleftrightarrow> (\<exists>a. key = n @ a))
     \<and> (KeyScanner_matches key n \<longleftrightarrow> key = n)"
  using matches_infix[OF assms(1)] matches_suffix[OF assms(1,3)] matches_prefix[OF assms(1,2)]
    matches_literal[OF assms] by blast

theorem pattern_semantics_witness:
  "KeyScanner_matches ''user:1'' ''user*'' \<and> \<not> KeyScanner_matches ''user:1'' ''user''
     \<and> KeyScanner_matches ''user:1'' ''*1'' \<and> \<not> KeyScanner_matches ''user:1'' ''**''"
  using pattern_semantics[of "''user''" "''user:1''"] pattern_semantics[of "''1''" "''user:1''"]
  by (simp add: KeyScanner_matches_def)

end
