(* ===== verification/Storage_Engine.thy ===== *)
theory Storage_Engine
  imports Memory_Pool Arena Key_Scanner
begin

text \<open>
  \<open>StorageEngine\<close> of src/storage/storage_engine.cpp: the hash table together with the
  memory pools its strings are copied through.

  Time is \<open>std::chrono::steady_clock\<close>: a time point is a number of nanoseconds in 64
  signed bits, here an \<open>int\<close> with the range checked where the code computes one
  (\<open>Inl Signed_overflow\<close>). Each call of \<open>now()\<close> is an argument; \<open>purge_expired\<close> calls
  it once per entry with a deadline and takes a clock, a function from the number of
  readings so far. The engine has no lock of its own: the model is that of calls that
  do not overlap.

  \<open>engine_ok\<close> is the invariant of the whole engine; under it no operation faults
  except for a deadline out of the range of the clock, and the engine implements the
  specification \<open>spec_step\<close>, a map from keys to values with optional deadlines
  (\<open>engine_step_refines\<close>). The contract of the engine towards its clients is the
  interpretation \<open>eng\<close> of \<open>kv_store\<close>.
\<close>

section \<open>Data\<close>

record StorageEngine =
  arena :: ArenaAllocator
  string_pool :: StringPool
  table :: HashTable

definition StorageEngine_new :: StorageEngine where
  "StorageEngine_new =
     \<lparr>arena = ArenaAllocator_new 8192,
      string_pool = StringPool_new (BufferPool_new 512 256),
      table = HashTable_new 4096\<rparr>"

definition int64_range :: "int \<Rightarrow> bool" where
  "int64_range i \<longleftrightarrow> - (2 ^ 63) \<le> i \<and> i < 2 ^ 63"

definition checked_int64 :: "int \<Rightarrow> int res" where
  "checked_int64 i = (if int64_range i then Inr i else Inl Signed_overflow)"

definition add_seconds :: "int \<Rightarrow> int \<Rightarrow> int res" where
  "add_seconds t ttl =
     bind_res (checked_int64 (ttl * 1000000000)) (\<lambda>ns. checked_int64 (t + ns))"

section \<open>Operations\<close>

definition StorageEngine_set ::
    "hash \<Rightarrow> StorageEngine \<Rightarrow> string \<Rightarrow> string \<Rightarrow> (StorageEngine \<times> bool) res" where
  "StorageEngine_set h s key value =
     bind_res (StringPool_copy (string_pool s) value) (\<lambda>(sp1, value_copy).
     bind_res (StringPool_copy sp1 key) (\<lambda>(sp2, key_copy).
     bind_res (HashTable_insert h (table s) key_copy \<lparr>entry_value = value_copy, expires_at = None\<rparr>)
       (\<lambda>(t, _). Inr (s\<lparr>string_pool := sp2, table := t\<rparr>, True))))"

definition StorageEngine_is_expired :: "hash \<Rightarrow> int \<Rightarrow> StorageEngine \<Rightarrow> string \<Rightarrow> bool" where
  "StorageEngine_is_expired h now s key =
     (case HashTable_find h (table s) key of
        None \<Rightarrow> False
      | Some found \<Rightarrow> (case expires_at found of None \<Rightarrow> False | Some deadline \<Rightarrow> now \<ge> deadline))"

definition StorageEngine_get :: "hash \<Rightarrow> int \<Rightarrow> StorageEngine \<Rightarrow> string \<Rightarrow> string option" where
  "StorageEngine_get h now s key =
     (if StorageEngine_is_expired h now s key then None
      else case HashTable_find h (table s) key of None \<Rightarrow> None | Some found \<Rightarrow> Some (entry_value found))"

definition StorageEngine_remove :: "hash \<Rightarrow> StorageEngine \<Rightarrow> string \<Rightarrow> StorageEngine \<times> bool" where
  "StorageEngine_remove h s key =
     (let (t, removed) = HashTable_erase h (table s) key in (s\<lparr>table := t\<rparr>, removed))"

definition StorageEngine_exists :: "hash \<Rightarrow> StorageEngine \<Rightarrow> string \<Rightarrow> bool" where
  "StorageEngine_exists h s key = HashTable_contains h (table s) key"

definition StorageEngine_entry_count :: "StorageEngine \<Rightarrow> nat" where
  "StorageEngine_entry_count s = table_size (table s)"

definition StorageEngine_set_ttl ::
    "hash \<Rightarrow> int \<Rightarrow> StorageEngine \<Rightarrow> string \<Rightarrow> int \<Rightarrow> (StorageEngine \<times> bool) res" where
  "StorageEngine_set_ttl h now s key ttl =
     (case HashTable_find h (table s) key of
        None \<Rightarrow> Inr (s, False)
      | Some found \<Rightarrow>
          bind_res (add_seconds now ttl) (\<lambda>deadline.
          bind_res (HashTable_insert h (table s) key (found\<lparr>expires_at := Some deadline\<rparr>))
            (\<lambda>(t, _). Inr (s\<lparr>table := t\<rparr>, True))))"

definition StorageEngine_touch :: "hash \<Rightarrow> int \<Rightarrow> int \<Rightarrow> StorageEngine \<Rightarrow> string \<Rightarrow> StorageEngine res" where
  "StorageEngine_touch h now1 now2 s key =
     (case HashTable_find h (table s) key of
        None \<Rightarrow> Inr s
      | Some found \<Rightarrow>
          (case expires_at found of
             None \<Rightarrow> Inr s
           | Some deadline \<Rightarrow>
               bind_res (checked_int64 (deadline - now1)) (\<lambda>remaining.
               bind_res (checked_int64 (now2 + remaining)) (\<lambda>deadline'.
               bind_res (HashTable_insert h (table s) key (found\<lparr>expires_at := Some deadline'\<rparr>))
                 (\<lambda>(t, _). Inr (s\<lparr>table := t\<rparr>))))))"

definition StorageEngine_ttl_key_count :: "StorageEngine \<Rightarrow> nat" where
  "StorageEngine_ttl_key_count s =
     HashTable_for_each (\<lambda>count _ e. if expires_at e \<noteq> None then count + 1 else count) (table s) 0"

definition purge_visit :: "(nat \<Rightarrow> int) \<Rightarrow> nat \<times> string list \<Rightarrow> string \<Rightarrow> StorageEntry \<Rightarrow> nat \<times> string list" where
  "purge_visit clock st key e =
     (case expires_at e of
        None \<Rightarrow> st
      | Some deadline \<Rightarrow>
          (Suc (fst st), if clock (fst st) \<ge> deadline then snd st @ [key] else snd st))"

definition StorageEngine_purge_expired :: "hash \<Rightarrow> (nat \<Rightarrow> int) \<Rightarrow> StorageEngine \<Rightarrow> StorageEngine" where
  "StorageEngine_purge_expired h clock s =
     (let expired = snd (HashTable_for_each (purge_visit clock) (table s) (0, []))
      in s\<lparr>table := foldl (\<lambda>t k. fst (HashTable_erase h t k)) (table s) expired\<rparr>)"

definition StorageEngine_scan_keys :: "StorageEngine \<Rightarrow> ScanCursor \<Rightarrow> nat \<Rightarrow> string \<Rightarrow> ScanPage" where
  "StorageEngine_scan_keys s cursor count pattern = KeyScanner_scan (table s) cursor count pattern"

definition StorageEngine_clear_all :: "StorageEngine \<Rightarrow> StorageEngine" where
  "StorageEngine_clear_all s =
     s\<lparr>table := HashTable_clear (table s), arena := ArenaAllocator_reset (arena s)\<rparr>"

definition StorageEngine_dump_entries :: "StorageEngine \<Rightarrow> (string \<times> string) list" where
  "StorageEngine_dump_entries s =
     HashTable_for_each (\<lambda>pairs key e. pairs @ [(key, entry_value e)]) (table s) []"

section \<open>Specification\<close>

type_synonym store = "string \<rightharpoonup> StorageEntry"

definition engine_ok :: "hash \<Rightarrow> StorageEngine \<Rightarrow> bool" where
  "engine_ok h s \<longleftrightarrow> table_ok h (table s) \<and> pool_ok (string_pool s) \<and> arena_ok (arena s)"

definition engine_view :: "hash \<Rightarrow> StorageEngine \<Rightarrow> store" where
  "engine_view h s = HashTable_find h (table s)"

definition fresh_entry :: "string \<Rightarrow> StorageEntry" where
  "fresh_entry v = \<lparr>entry_value = v, expires_at = None\<rparr>"

definition expired_at :: "int \<Rightarrow> StorageEntry \<Rightarrow> bool" where
  "expired_at now e \<longleftrightarrow> (case expires_at e of None \<Rightarrow> False | Some d \<Rightarrow> now \<ge> d)"

definition spec_get :: "int \<Rightarrow> store \<Rightarrow> string \<Rightarrow> string option" where
  "spec_get now m k = (case m k of None \<Rightarrow> None | Some e \<Rightarrow> if expired_at now e then None else Some (entry_value e))"

definition live :: "int \<Rightarrow> store \<Rightarrow> store" where
  "live now m = m |` {k. \<forall>e. m k = Some e \<longrightarrow> \<not> expired_at now e}"

datatype engine_op =
    Op_set string string
  | Op_get int string
  | Op_remove string
  | Op_exists string
  | Op_entry_count
  | Op_set_ttl int string int
  | Op_purge_expired int
  | Op_clear_all
  | Op_is_expired int string
  | Op_touch int int string
  | Op_ttl_key_count
  | Op_dump_entries

text \<open>The entries of a dump come in the order of the table: their content and their number are observed.\<close>

datatype engine_out =
    Out_bool bool
  | Out_value "string option"
  | Out_count nat
  | Out_entries "string \<rightharpoonup> string" nat
  | Out_unit

fun engine_step :: "hash \<Rightarrow> StorageEngine \<Rightarrow> engine_op \<Rightarrow> (StorageEngine \<times> engine_out) res" where
  "engine_step h s (Op_set k v) = bind_res (StorageEngine_set h s k v) (\<lambda>(s', b). Inr (s', Out_bool b))"
| "engine_step h s (Op_get now k) = Inr (s, Out_value (StorageEngine_get h now s k))"
| "engine_step h s (Op_remove k) = (let (s', b) = StorageEngine_remove h s k in Inr (s', Out_bool b))"
| "engine_step h s (Op_exists k) = Inr (s, Out_bool (StorageEngine_exists h s k))"
| "engine_step h s Op_entry_count = Inr (s, Out_count (StorageEngine_entry_count s))"
| "engine_step h s (Op_set_ttl now k ttl) =
     bind_res (StorageEngine_set_ttl h now s k ttl) (\<lambda>(s', b). Inr (s', Out_bool b))"
| "engine_step h s (Op_purge_expired now) = Inr (StorageEngine_purge_expired h (\<lambda>_. now) s, Out_unit)"
| "engine_step h s Op_clear_all = Inr (StorageEngine_clear_all s, Out_unit)"
| "engine_step h s (Op_is_expired now k) = Inr (s, Out_bool (StorageEngine_is_expired h now s k))"
| "engine_step h s (Op_touch now1 now2 k) = bind_res (StorageEngine_touch h now1 now2 s k) (\<lambda>s'. Inr (s', Out_unit))"
| "engine_step h s Op_ttl_key_count = Inr (s, Out_count (StorageEngine_ttl_key_count s))"
| "engine_step h s Op_dump_entries =
     Inr (s, Out_entries (map_of (StorageEngine_dump_entries s)) (length (StorageEngine_dump_entries s)))"

fun spec_step :: "store \<Rightarrow> engine_op \<Rightarrow> (store \<times> engine_out) res" where
  "spec_step m (Op_set k v) = Inr (m(k \<mapsto> fresh_entry v), Out_bool True)"
| "spec_step m (Op_get now k) = Inr (m, Out_value (spec_get now m k))"
| "spec_step m (Op_remove k) = Inr (m(k := None), Out_bool (m k \<noteq> None))"
| "spec_step m (Op_exists k) = Inr (m, Out_bool (m k \<noteq> None))"
| "spec_step m Op_entry_count = Inr (m, Out_count (card (dom m)))"
| "spec_step m (Op_set_ttl now k ttl) =
     (case m k of
        None \<Rightarrow> Inr (m, Out_bool False)
      | Some e \<Rightarrow> bind_res (add_seconds now ttl)
                   (\<lambda>d. Inr (m(k \<mapsto> e\<lparr>expires_at := Some d\<rparr>), Out_bool True)))"
| "spec_step m (Op_purge_expired now) = Inr (live now m, Out_unit)"
| "spec_step m Op_clear_all = Inr (Map.empty, Out_unit)"
| "spec_step m (Op_is_expired now k) =
     Inr (m, Out_bool (case m k of None \<Rightarrow> False | Some e \<Rightarrow> expired_at now e))"
| "spec_step m (Op_touch now1 now2 k) =
     (case m k of
        None \<Rightarrow> Inr (m, Out_unit)
      | Some e \<Rightarrow>
          (case expires_at e of
             None \<Rightarrow> Inr (m, Out_unit)
           | Some d \<Rightarrow> bind_res (checked_int64 (d - now1)) (\<lambda>remaining.
                        bind_res (checked_int64 (now2 + remaining)) (\<lambda>d'.
                        Inr (m(k \<mapsto> e\<lparr>expires_at := Some d'\<rparr>), Out_unit)))))"
| "spec_step m Op_ttl_key_count = Inr (m, Out_count (card {k. \<exists>e. m k = Some e \<and> expires_at e \<noteq> None}))"
| "spec_step m Op_dump_entries = Inr (m, Out_entries (\<lambda>k. map_option entry_value (m k)) (card (dom m)))"

primrec engine_run :: "hash \<Rightarrow> engine_op list \<Rightarrow> StorageEngine \<Rightarrow> (StorageEngine \<times> engine_out list) res" where
  "engine_run h [] s = Inr (s, [])"
| "engine_run h (x # xs) s =
     bind_res (engine_step h s x) (\<lambda>(s', r).
     bind_res (engine_run h xs s') (\<lambda>(s'', rs). Inr (s'', r # rs)))"

primrec spec_run :: "engine_op list \<Rightarrow> store \<Rightarrow> (store \<times> engine_out list) res" where
  "spec_run [] m = Inr (m, [])"
| "spec_run (x # xs) m =
     bind_res (spec_step m x) (\<lambda>(m', r).
     bind_res (spec_run xs m') (\<lambda>(m'', rs). Inr (m'', r # rs)))"


section \<open>Single operations\<close>

lemma engine_okD:
  assumes "engine_ok h s"
  shows "table_ok h (table s)" "pool_ok (string_pool s)" "arena_ok (arena s)" "table_shape h (table s)"
  using assms by (auto simp: engine_ok_def table_ok_def)

lemma engine_ok_new: "engine_ok h StorageEngine_new"
  by (simp add: engine_ok_def StorageEngine_new_def table_ok_new StringPool_new_def pool_inv_new arena_ok_new)

lemma engine_view_new: "engine_view h StorageEngine_new = Map.empty"
  by (simp add: engine_view_def StorageEngine_new_def find_new)

lemma set_correct:
  assumes "engine_ok h s"
  shows "\<exists>s'. StorageEngine_set h s key v = Inr (s', True) \<and> engine_ok h s'
     \<and> engine_view h s' = (engine_view h s)(key \<mapsto> fresh_entry v)"
proof -
  note ok = engine_okD[OF assms]
  from copy_correct[OF ok(2)] obtain sp1 where
    sp1: "StringPool_copy (string_pool s) v = Inr (sp1, v)" "pool_ok sp1" by blast
  from copy_correct[OF sp1(2)] obtain sp2 where
    sp2: "StringPool_copy sp1 key = Inr (sp2, key)" "pool_ok sp2" by blast
  from insert_correct[OF ok(1)] obtain t where
    "HashTable_insert h (table s) key (fresh_entry v) = Inr (t, HashTable_find h (table s) key = None)"
    "table_ok h t" "HashTable_find h t = (HashTable_find h (table s))(key \<mapsto> fresh_entry v)" by blast
  with sp1 sp2 ok(3) show ?thesis
    by (simp add: StorageEngine_set_def engine_ok_def engine_view_def fresh_entry_def)
qed

lemma remove_correct:
  assumes "engine_ok h s" "StorageEngine_remove h s key = (s', removed)"
  shows "engine_ok h s'" "engine_view h s' = (engine_view h s)(key := None)"
    "removed \<longleftrightarrow> engine_view h s key \<noteq> None"
  using assms erase_correct[OF engine_okD(1)[OF assms(1)], of key]
  by (auto simp: StorageEngine_remove_def engine_ok_def engine_view_def split: prod.splits)

lemma get_correct: "StorageEngine_get h now s key = spec_get now (engine_view h s) key"
  by (simp add: StorageEngine_get_def StorageEngine_is_expired_def spec_get_def engine_view_def
      expired_at_def split: option.splits)

lemma exists_correct: "StorageEngine_exists h s key \<longleftrightarrow> engine_view h s key \<noteq> None"
  by (simp add: StorageEngine_exists_def HashTable_contains_def engine_view_def)

lemma view_map_of: "engine_ok h s \<Longrightarrow> engine_view h s = map_of (table_nodes (table s))"
  by (simp add: engine_view_def find_eq_map_of engine_okD)

lemma entry_count_correct:
  assumes "engine_ok h s"
  shows "StorageEngine_entry_count s = card (dom (engine_view h s))"
proof -
  note shape = engine_okD(4)[OF assms]
  have "dom (engine_view h s) = set (map fst (table_nodes (table s)))"
    by (simp add: view_map_of[OF assms] dom_map_of_conv_image_fst)
  then have "card (dom (engine_view h s)) = length (table_nodes (table s))"
    using distinct_card[OF distinct_keys[OF shape]] by simp
  then show ?thesis
    using table_shapeD(2)[OF shape] by (simp add: StorageEngine_entry_count_def table_nodes_def)
qed

text \<open>Replacing the entry of a key that is there, as \<open>set_ttl\<close> and \<open>touch\<close> do.\<close>

lemma reinsert_correct:
  assumes "engine_ok h s"
  shows "\<exists>t b. HashTable_insert h (table s) key e = Inr (t, b) \<and> engine_ok h (s\<lparr>table := t\<rparr>)
     \<and> engine_view h (s\<lparr>table := t\<rparr>) = (engine_view h s)(key \<mapsto> e)"
  using insert_correct[OF engine_okD(1)[OF assms], of key e] assms
  by (auto simp: engine_ok_def engine_view_def)

lemma set_ttl_missing:
  "engine_view h s key = None \<Longrightarrow> StorageEngine_set_ttl h now s key ttl = Inr (s, False)"
  by (simp add: StorageEngine_set_ttl_def engine_view_def)

lemma set_ttl_overflow:
  "engine_view h s key = Some e \<Longrightarrow> add_seconds now ttl = Inl f \<Longrightarrow>
     StorageEngine_set_ttl h now s key ttl = Inl f"
  by (simp add: StorageEngine_set_ttl_def engine_view_def)

lemma set_ttl_correct:
  assumes "engine_ok h s" "engine_view h s key = Some e" "add_seconds now ttl = Inr d"
  shows "\<exists>s'. StorageEngine_set_ttl h now s key ttl = Inr (s', True) \<and> engine_ok h s'
     \<and> engine_view h s' = (engine_view h s)(key \<mapsto> e\<lparr>expires_at := Some d\<rparr>)"
  using reinsert_correct[OF assms(1), of key "e\<lparr>expires_at := Some d\<rparr>"] assms(2,3)
  by (auto simp: StorageEngine_set_ttl_def engine_view_def)

lemma clear_correct:
  assumes "engine_ok h s"
  shows "engine_ok h (StorageEngine_clear_all s)" "engine_view h (StorageEngine_clear_all s) = Map.empty"
  using assms by (auto simp: StorageEngine_clear_all_def engine_ok_def engine_view_def
      table_ok_clear find_clear arena_ok_reset)

lemma foldl_snoc: "foldl (\<lambda>acc x. acc @ [f x]) acc xs = acc @ map f xs"
  by (induction xs arbitrary: acc) auto

lemma dump_entries_nodes:
  "StorageEngine_dump_entries s = map (\<lambda>(k, e). (k, entry_value e)) (table_nodes (table s))"
  using foldl_snoc[of "\<lambda>(k, e). (k, entry_value e)" "[]" "table_nodes (table s)"]
  by (simp add: StorageEngine_dump_entries_def for_each_nodes case_prod_unfold)

lemma dump_entries_distinct: "engine_ok h s \<Longrightarrow> distinct (map fst (StorageEngine_dump_entries s))"
  using distinct_keys[OF engine_okD(4)] by (simp add: dump_entries_nodes case_prod_unfold comp_def)

lemma dump_entries_map_of:
  "engine_ok h s \<Longrightarrow>
     map_of (StorageEngine_dump_entries s) = (\<lambda>k. map_option entry_value (engine_view h s k))"
  by (simp only: dump_entries_nodes view_map_of map_of_map) (simp add: comp_def)

section \<open>The sweep\<close>

fun expired_keys :: "(nat \<Rightarrow> int) \<Rightarrow> nat \<Rightarrow> Node list \<Rightarrow> string list" where
  "expired_keys clock i [] = []"
| "expired_keys clock i ((k, e) # ns) =
     (case expires_at e of
        None \<Rightarrow> expired_keys clock i ns
      | Some d \<Rightarrow> (if d \<le> clock i then [k] else []) @ expired_keys clock (Suc i) ns)"

lemma purge_visit_fold:
  "snd (foldl (\<lambda>st (k, e). purge_visit clock st k e) (i, acc) ns) = acc @ expired_keys clock i ns"
proof (induction ns arbitrary: i acc)
  case (Cons n ns)
  obtain k e where n: "n = (k, e)" by (cases n)
  then show ?case using Cons by (cases "expires_at e") (simp_all add: purge_visit_def)
qed simp

lemma expired_keys_sound:
  "k \<in> set (expired_keys clock i ns) \<Longrightarrow> \<forall>j. clock j \<le> hi \<Longrightarrow>
     \<exists>e. (k, e) \<in> set ns \<and> expired_at hi e"
proof (induction clock i ns rule: expired_keys.induct)
  case (2 clock i k' e ns)
  show ?case
  proof (cases "expires_at e")
    case None
    with 2 show ?thesis by auto
  next
    case (Some d)
    have "expired_at hi e" if "d \<le> clock i"
      using that Some "2.prems"(2) order_trans[of d "clock i" hi] by (simp add: expired_at_def)
    with 2 Some show ?thesis by (auto split: if_splits)
  qed
qed simp

lemma expired_keys_complete:
  "(k, e) \<in> set ns \<Longrightarrow> expired_at lo e \<Longrightarrow> \<forall>j. lo \<le> clock j \<Longrightarrow> k \<in> set (expired_keys clock i ns)"
proof (induction clock i ns rule: expired_keys.induct)
  case (2 clock i k' e' ns)
  then show ?case
    by (cases "expires_at e'") (auto simp: expired_at_def split: option.splits intro: order_trans)
qed simp

lemma purge_eq:
  "StorageEngine_purge_expired h clock s =
     s\<lparr>table := foldl (\<lambda>t k. fst (HashTable_erase h t k)) (table s)
                  (expired_keys clock 0 (table_nodes (table s)))\<rparr>"
  by (simp add: StorageEngine_purge_expired_def for_each_nodes purge_visit_fold)

lemma purge_ok: "engine_ok h s \<Longrightarrow> engine_ok h (StorageEngine_purge_expired h clock s)"
  by (simp add: purge_eq engine_ok_def ht.del_all_ok)

lemma purge_view:
  assumes "engine_ok h s"
  shows "engine_view h (StorageEngine_purge_expired h clock s)
     = engine_view h s |` (- set (expired_keys clock 0 (table_nodes (table s))))"
  using ht.del_all_view[OF engine_okD(1)[OF assms]] by (simp add: purge_eq engine_view_def)

lemma node_iff_view: "engine_ok h s \<Longrightarrow> (k, e) \<in> set (table_nodes (table s)) \<longleftrightarrow> engine_view h s k = Some e"
  using distinct_keys[OF engine_okD(4), of h s] by (simp add: view_map_of)

lemma purge_removes:
  assumes "engine_ok h s" "\<forall>j. lo \<le> clock j" "engine_view h s k = Some e" "expired_at lo e"
  shows "engine_view h (StorageEngine_purge_expired h clock s) k = None"
  using assms expired_keys_complete[of k e "table_nodes (table s)" lo clock 0]
  by (simp add: purge_view node_iff_view)

lemma purge_keeps:
  assumes "engine_ok h s" "\<forall>j. clock j \<le> hi" "engine_view h s k = Some e" "\<not> expired_at hi e"
  shows "engine_view h (StorageEngine_purge_expired h clock s) k = Some e"
proof -
  have "k \<notin> set (expired_keys clock 0 (table_nodes (table s)))"
    using assms expired_keys_sound[of k clock 0 "table_nodes (table s)" hi] node_iff_view[OF assms(1)]
    by auto
  then show ?thesis using assms by (simp add: purge_view)
qed

lemma purge_live:
  assumes "engine_ok h s"
  shows "engine_view h (StorageEngine_purge_expired h (\<lambda>_. now) s) = live now (engine_view h s)"
proof
  fix k
  show "engine_view h (StorageEngine_purge_expired h (\<lambda>_. now) s) k = live now (engine_view h s) k"
  proof (cases "engine_view h s k")
    case None
    then show ?thesis by (simp add: purge_view[OF assms] live_def restrict_map_def)
  next
    case (Some e)
    then show ?thesis
      using purge_removes[OF assms, of now "\<lambda>_. now" k e] purge_keeps[OF assms, of "\<lambda>_. now" now k e]
      by (cases "expired_at now e") (simp_all add: live_def)
  qed
qed

lemma ttl_key_count_correct:
  assumes "engine_ok h s"
  shows "StorageEngine_ttl_key_count s = card {k. \<exists>e. engine_view h s k = Some e \<and> expires_at e \<noteq> None}"
proof -
  let ?ns = "filter (\<lambda>n. expires_at (snd n) \<noteq> None) (table_nodes (table s))"
  have "foldl (\<lambda>count n. if expires_at (snd n) \<noteq> None then count + 1 else count) c ns
      = c + length (filter (\<lambda>n. expires_at (snd n) \<noteq> None) ns)" for c and ns :: "Node list"
    by (induction ns arbitrary: c) auto
  then have "StorageEngine_ttl_key_count s = length ?ns"
    by (simp add: StorageEngine_ttl_key_count_def for_each_nodes case_prod_unfold)
  moreover have "distinct (map fst ?ns)"
    using distinct_keys[OF engine_okD(4)[OF assms]] by (rule distinct_map_filter)
  then have "length ?ns = card (set (map fst ?ns))" by (metis distinct_card length_map)
  moreover have "set (map fst ?ns) = {k. \<exists>e. engine_view h s k = Some e \<and> expires_at e \<noteq> None}"
    using node_iff_view[OF assms] by (auto simp: image_iff)
  ultimately show ?thesis by simp
qed

lemma dump_entries_length: "engine_ok h s \<Longrightarrow> length (StorageEngine_dump_entries s) = card (dom (engine_view h s))"
  using entry_count_correct[of h s] engine_okD(4)[of h s]
  by (simp add: dump_entries_nodes StorageEngine_entry_count_def table_nodes_def table_shapeD(2))

section \<open>Refinement\<close>

lemma touch_refines:
  assumes "engine_ok h s"
  shows "case engine_step h s (Op_touch now1 now2 k) of
       Inl f \<Rightarrow> spec_step (engine_view h s) (Op_touch now1 now2 k) = Inl f
     | Inr (s', r) \<Rightarrow> engine_ok h s' \<and> spec_step (engine_view h s) (Op_touch now1 now2 k) = Inr (engine_view h s', r)"
proof (cases "\<exists>e d. engine_view h s k = Some e \<and> expires_at e = Some d")
  case True
  then obtain e d where e: "engine_view h s k = Some e" "expires_at e = Some d" by blast
  then have find: "HashTable_find h (table s) k = Some e" by (simp add: engine_view_def)
  show ?thesis
    using reinsert_correct[OF assms, of k "e\<lparr>expires_at := Some (now2 + (d - now1))\<rparr>"] e find
    by (auto simp: StorageEngine_touch_def checked_int64_def)
next
  case False
  then show ?thesis using assms
    by (auto simp: StorageEngine_touch_def engine_view_def split: option.splits)
qed

lemma engine_step_refines:
  assumes "engine_ok h s"
  shows "case engine_step h s x of
       Inl f \<Rightarrow> spec_step (engine_view h s) x = Inl f
     | Inr (s', r) \<Rightarrow> engine_ok h s' \<and> spec_step (engine_view h s) x = Inr (engine_view h s', r)"
proof (cases x)
  case (Op_set k v)
  then show ?thesis using set_correct[OF assms, of k v] by auto
next
  case (Op_get now k)
  then show ?thesis using assms by (simp add: get_correct)
next
  case (Op_remove k)
  obtain s' b where "StorageEngine_remove h s k = (s', b)" by (rule prod.exhaust)
  then show ?thesis using remove_correct[OF assms] Op_remove by auto
next
  case (Op_exists k)
  then show ?thesis using assms by (simp add: exists_correct)
next
  case Op_entry_count
  then show ?thesis using assms entry_count_correct by simp
next
  case (Op_set_ttl now k ttl)
  show ?thesis
  proof (cases "engine_view h s k")
    case None
    then show ?thesis using assms Op_set_ttl by (simp add: set_ttl_missing)
  next
    case (Some e)
    show ?thesis
    proof (cases "add_seconds now ttl")
      case (Inl f)
      then show ?thesis using Some Op_set_ttl by (simp add: set_ttl_overflow)
    next
      case (Inr d)
      then show ?thesis using Some Op_set_ttl set_ttl_correct[OF assms Some Inr] by auto
    qed
  qed
next
  case (Op_purge_expired now)
  then show ?thesis using assms by (simp add: purge_ok purge_live)
next
  case Op_clear_all
  then show ?thesis using clear_correct[OF assms] by simp
next
  case (Op_is_expired now k)
  then show ?thesis using assms by (simp add: StorageEngine_is_expired_def engine_view_def expired_at_def split: option.split)
next
  case (Op_touch now1 now2 k)
  show ?thesis unfolding Op_touch by (rule touch_refines[OF assms])
next
  case Op_ttl_key_count
  then show ?thesis using assms ttl_key_count_correct[OF assms] by simp
next
  case Op_dump_entries
  then show ?thesis using assms dump_entries_map_of[OF assms] dump_entries_length[OF assms] by simp
qed

lemma engine_run_refines:
  assumes "engine_ok h s"
  shows "case engine_run h xs s of
       Inl f \<Rightarrow> spec_run xs (engine_view h s) = Inl f
     | Inr (s', rs) \<Rightarrow> engine_ok h s' \<and> spec_run xs (engine_view h s) = Inr (engine_view h s', rs)"
  using assms
proof (induction xs arbitrary: s)
  case (Cons x xs)
  note step = engine_step_refines[OF Cons.prems, of x]
  show ?case
  proof (cases "engine_step h s x")
    case (Inl f)
    then show ?thesis using step by simp
  next
    case (Inr r)
    obtain s' o1 where r: "r = (s', o1)" by (rule prod.exhaust)
    then have "engine_ok h s'" "spec_step (engine_view h s) x = Inr (engine_view h s', o1)"
      using step Inr by auto
    then show ?thesis using Inr r Cons.IH[of s'] by (cases "engine_run h xs s'") auto
  qed
qed simp

section \<open>The engine as a key-value store\<close>

interpretation eng: kv_store "engine_ok h" "engine_view h"
  "\<lambda>s k v. bind_res (StorageEngine_set h s k v) (\<lambda>(s', _). Inr s')"
  "\<lambda>s k. fst (StorageEngine_remove h s k)" fresh_entry for h
proof (unfold_locales, goal_cases)
  case (1 s k v)
  from set_correct[OF this, of k v] show ?case by auto
next
  case (2 s k)
  then show ?case by (metis remove_correct(1) prod.collapse)
next
  case (3 s k)
  then show ?case by (metis remove_correct(2) prod.collapse)
qed

section \<open>Properties\<close>

text \<open>
  C1: a new engine and any sequence of its operations (\<open>set\<close>, \<open>get\<close>, \<open>remove\<close>, \<open>exists\<close>,
  \<open>entry_count\<close>, \<open>set_ttl\<close>, \<open>purge_expired\<close>, \<open>clear_all\<close>, \<open>is_expired\<close>, \<open>touch\<close>, \<open>ttl_key_count\<close>,
  \<open>dump_entries\<close>) behave as a map from keys to values
  with optional deadlines: same results, same faults, and the abstraction of the engine
  that remains is the map that remains.
\<close>

theorem engine_refines_map:
  "case engine_run h xs StorageEngine_new of
     Inl f \<Rightarrow> spec_run xs Map.empty = Inl f
   | Inr (s, rs) \<Rightarrow> engine_ok h s \<and> spec_run xs Map.empty = Inr (engine_view h s, rs)"
  using engine_run_refines[OF engine_ok_new, where h = h and xs = xs] by (simp only: engine_view_new)

text \<open>
  \<open>purge_expired\<close> removes every key whose deadline is before all readings of the clock
  during the sweep and keeps, unchanged, every key whose deadline is after all of them or
  that has none.
\<close>

theorem purge_expired_spec:
  assumes "engine_ok h s" "\<forall>j. lo \<le> clock j \<and> clock j \<le> hi"
  shows "engine_ok h (StorageEngine_purge_expired h clock s)
     \<and> (\<forall>k e. engine_view h s k = Some e \<and> expired_at lo e \<longrightarrow>
          engine_view h (StorageEngine_purge_expired h clock s) k = None)
     \<and> (\<forall>k e. engine_view h s k = Some e \<and> \<not> expired_at hi e \<longrightarrow>
          engine_view h (StorageEngine_purge_expired h clock s) k = Some e)
     \<and> (\<forall>k. engine_view h s k = None \<longrightarrow> engine_view h (StorageEngine_purge_expired h clock s) k = None)"
  using assms purge_ok[OF assms(1)] purge_removes[OF assms(1), of lo clock] purge_keeps[OF assms(1), of clock hi]
  by (auto simp: purge_view restrict_map_def)

theorem purge_expired_spec_witness:
  "\<exists>s. engine_view (\<lambda>_. 0) s ''k'' \<noteq> None \<and> engine_view (\<lambda>_. 0) (StorageEngine_purge_expired (\<lambda>_. 0) (\<lambda>j. 7) s) ''k'' = None"
proof -
  obtain s where s: "engine_ok (\<lambda>_. 0) s" "engine_view (\<lambda>_. 0) s ''k'' = Some (fresh_entry ''v'')"
    using set_correct[OF engine_ok_new, of "\<lambda>_. 0" "''k''" "''v''"] by auto
  have "add_seconds 5 0 = Inr 5" by (simp add: add_seconds_def checked_int64_def int64_range_def)
  from set_ttl_correct[OF s this] obtain s' where
    s': "engine_ok (\<lambda>_. 0) s'" "engine_view (\<lambda>_. 0) s' ''k'' = Some ((fresh_entry ''v'')\<lparr>expires_at := Some 5\<rparr>)"
    by auto
  have "expired_at 7 ((fresh_entry ''v'')\<lparr>expires_at := Some 5\<rparr>)" by (simp add: expired_at_def)
  with purge_expired_spec[OF s'(1), of 7 "\<lambda>_. 7" 7] s'(2) show ?thesis by (intro exI[of _ s']) auto
qed

text \<open>
  A key past its deadline is hidden from \<open>get\<close> but not from \<open>exists\<close>, and \<open>get\<close> leaves it
  in the table: until the sweep, \<open>EXISTS\<close> and \<open>GET\<close> disagree on it.
\<close>

theorem exists_ignores_deadline:
  assumes "engine_view h s key = Some e" "expired_at now e"
  shows "StorageEngine_get h now s key = None \<and> StorageEngine_exists h s key
     \<and> StorageEngine_is_expired h now s key"
  using assms
  by (simp add: get_correct spec_get_def exists_correct StorageEngine_is_expired_def engine_view_def expired_at_def)

theorem exists_ignores_deadline_witness:
  "\<exists>s. StorageEngine_get (\<lambda>_. 0) 7 s ''k'' = None \<and> StorageEngine_exists (\<lambda>_. 0) s ''k''"
proof -
  obtain s where s: "engine_ok (\<lambda>_. 0) s" "engine_view (\<lambda>_. 0) s ''k'' = Some (fresh_entry ''v'')"
    using set_correct[OF engine_ok_new, of "\<lambda>_. 0" "''k''" "''v''"] by auto
  have "add_seconds 5 0 = Inr 5" by (simp add: add_seconds_def checked_int64_def int64_range_def)
  from set_ttl_correct[OF s this] obtain s' where
    "engine_view (\<lambda>_. 0) s' = (engine_view (\<lambda>_. 0) s)(''k'' \<mapsto> (fresh_entry ''v'')\<lparr>expires_at := Some 5\<rparr>)" by blast
  then have "engine_view (\<lambda>_. 0) s' ''k'' = Some ((fresh_entry ''v'')\<lparr>expires_at := Some 5\<rparr>)" by simp
  moreover have "expired_at 7 ((fresh_entry ''v'')\<lparr>expires_at := Some 5\<rparr>)" by (simp add: expired_at_def)
  ultimately show ?thesis using exists_ignores_deadline by blast
qed

end
