(* ===== verification/Storage_Ops.thy ===== *)
theory Storage_Ops
  imports Storage_Engine
begin

text \<open>
  The thin clients of the engine: \<open>BatchOperations\<close> (src/storage/batch_ops.cpp),
  \<open>CounterStore\<close> (src/storage/counter_store.cpp) and \<open>ExpirationService\<close>
  (src/ttl/expiration.cpp). A counter value is a \<open>long long\<close>: the sum of
  \<open>increment\<close> and the negation of \<open>decrement\<close> are undefined outside 64 signed bits and
  are \<open>Inl Signed_overflow\<close> there; a stored value that is not a number makes
  \<open>std::stoll\<close> throw.
\<close>

section \<open>Batches\<close>

record BatchSetPair =
  pair_key :: string
  pair_value :: string

definition BatchOperations_mget ::
    "hash \<Rightarrow> (nat \<Rightarrow> int) \<Rightarrow> StorageEngine \<Rightarrow> string list \<Rightarrow> string option list" where
  "BatchOperations_mget h clock s keys =
     map (\<lambda>(i, key). StorageEngine_get h (clock i) s key) (enumerate 0 keys)"

definition BatchOperations_mset ::
    "hash \<Rightarrow> StorageEngine \<Rightarrow> BatchSetPair list \<Rightarrow> (StorageEngine \<times> nat) res" where
  "BatchOperations_mset h s pairs =
     fold_res (\<lambda>(s, written) pair.
         bind_res (StorageEngine_set h s (pair_key pair) (pair_value pair))
           (\<lambda>(s', ok). Inr (s', if ok then written + 1 else written)))
       pairs (s, 0)"

section \<open>Counters\<close>

definition CounterStore_parse_value :: "string option \<Rightarrow> int res" where
  "CounterStore_parse_value raw =
     (case raw of
        None \<Rightarrow> Inr 0
      | Some v \<Rightarrow> if v = [] then Inr 0 else stoll v)"

definition CounterStore_format_value :: "int \<Rightarrow> string" where
  "CounterStore_format_value value = show_int value"

definition CounterStore_increment ::
    "hash \<Rightarrow> int \<Rightarrow> StorageEngine \<Rightarrow> string \<Rightarrow> int \<Rightarrow> (StorageEngine \<times> int) res" where
  "CounterStore_increment h now s key delta =
     bind_res (CounterStore_parse_value (StorageEngine_get h now s key)) (\<lambda>current.
     bind_res (checked_int64 (current + delta)) (\<lambda>next.
     bind_res (StorageEngine_set h s key (CounterStore_format_value next)) (\<lambda>(s', _).
     Inr (s', next))))"

definition CounterStore_decrement ::
    "hash \<Rightarrow> int \<Rightarrow> StorageEngine \<Rightarrow> string \<Rightarrow> int \<Rightarrow> (StorageEngine \<times> int) res" where
  "CounterStore_decrement h now s key delta =
     bind_res (checked_int64 (- delta)) (CounterStore_increment h now s key)"

definition CounterStore_read :: "hash \<Rightarrow> int \<Rightarrow> StorageEngine \<Rightarrow> string \<Rightarrow> int option res" where
  "CounterStore_read h now s key =
     (case StorageEngine_get h now s key of
        None \<Rightarrow> Inr None
      | Some raw \<Rightarrow> bind_res (CounterStore_parse_value (Some raw)) (\<lambda>v. Inr (Some v)))"

section \<open>Expiration service\<close>

definition ExpirationService_expire_after ::
    "hash \<Rightarrow> int \<Rightarrow> StorageEngine \<Rightarrow> string \<Rightarrow> int \<Rightarrow> (StorageEngine \<times> bool) res" where
  "ExpirationService_expire_after h now s key ttl =
     (if \<not> StorageEngine_exists h s key then Inr (s, False)
      else StorageEngine_set_ttl h now s key ttl)"

definition ExpirationService_is_expired :: "hash \<Rightarrow> int \<Rightarrow> StorageEngine \<Rightarrow> string \<Rightarrow> bool" where
  "ExpirationService_is_expired h now s key = StorageEngine_is_expired h now s key"

definition ExpirationService_touch :: "hash \<Rightarrow> int \<Rightarrow> int \<Rightarrow> StorageEngine \<Rightarrow> string \<Rightarrow> StorageEngine res" where
  "ExpirationService_touch h now1 now2 s key = StorageEngine_touch h now1 now2 s key"

definition ExpirationService_active_ttl_keys :: "StorageEngine \<Rightarrow> nat" where
  "ExpirationService_active_ttl_keys s = StorageEngine_ttl_key_count s"

section \<open>Batches: lemmas\<close>

abbreviation kv_of_pair :: "BatchSetPair \<Rightarrow> string \<times> string" where
  "kv_of_pair p \<equiv> (pair_key p, pair_value p)"

lemma mset_fold:
  assumes "engine_ok h s"
  shows "\<exists>s'. fold_res (\<lambda>(s, written) pair.
         bind_res (StorageEngine_set h s (pair_key pair) (pair_value pair))
           (\<lambda>(s', ok). Inr (s', if ok then written + 1 else written))) pairs (s, w) = Inr (s', w + length pairs)
     \<and> fold_res (\<lambda>s (k, v). bind_res (StorageEngine_set h s k v) (\<lambda>(s', _). Inr s'))
         (map kv_of_pair pairs) s = Inr s'"
  using assms
proof (induction pairs arbitrary: s w)
  case (Cons p ps)
  from set_correct[OF Cons.prems, of "pair_key p" "pair_value p"] obtain s1 where
    s1: "StorageEngine_set h s (pair_key p) (pair_value p) = Inr (s1, True)" "engine_ok h s1" by blast
  from Cons.IH[OF s1(2), of "w + 1"] s1(1) show ?case by auto
qed simp

lemma mset_correct:
  assumes "engine_ok h s"
  shows "\<exists>s'. BatchOperations_mset h s pairs = Inr (s', length pairs) \<and> engine_ok h s'
     \<and> engine_view h s' = engine_view h s ++ map_of (rev (map (\<lambda>p. (pair_key p, fresh_entry (pair_value p))) pairs))"
proof -
  from mset_fold[OF assms, of pairs 0] obtain s' where
    s': "BatchOperations_mset h s pairs = Inr (s', length pairs)"
      "fold_res (\<lambda>s (k, v). bind_res (StorageEngine_set h s k v) (\<lambda>(s', _). Inr s')) (map kv_of_pair pairs) s = Inr s'"
    by (auto simp: BatchOperations_mset_def)
  from eng.put_all[OF assms, of "map kv_of_pair pairs"] s'(2)
  have "engine_ok h s'" "engine_view h s' = engine_view h s
      ++ map_of (rev (map (\<lambda>(k, v). (k, fresh_entry v)) (map kv_of_pair pairs)))" by auto
  moreover have "map (\<lambda>(k, v). (k, fresh_entry v)) (map kv_of_pair pairs)
      = map (\<lambda>p. (pair_key p, fresh_entry (pair_value p))) pairs" by simp
  ultimately show ?thesis using s'(1) by metis
qed

lemma mget_correct:
  "BatchOperations_mget h clock s keys =
     map (\<lambda>i. spec_get (clock i) (engine_view h s) (keys ! i)) [0..<length keys]"
  by (rule nth_equalityI)
    (simp_all add: BatchOperations_mget_def get_correct nth_enumerate_eq)

section \<open>Counters: lemmas\<close>

lemma parse_format: "int64_range i \<Longrightarrow> CounterStore_parse_value (Some (CounterStore_format_value i)) = Inr i"
  by (simp add: CounterStore_parse_value_def CounterStore_format_value_def stoll_show_int int64_range_def)
    (simp add: show_int_def)

lemma increment_correct:
  assumes "engine_ok h s" "CounterStore_parse_value (StorageEngine_get h now s key) = Inr c"
    and "int64_range (c + delta)"
  shows "\<exists>s'. CounterStore_increment h now s key delta = Inr (s', c + delta) \<and> engine_ok h s'
     \<and> engine_view h s' = (engine_view h s)(key \<mapsto> fresh_entry (show_int (c + delta)))"
  using assms(2,3) set_correct[OF assms(1), of key "CounterStore_format_value (c + delta)"]
  by (auto simp: CounterStore_increment_def checked_int64_def CounterStore_format_value_def)

lemma increment_fault:
  "CounterStore_parse_value (StorageEngine_get h now s key) = Inl f \<Longrightarrow>
     CounterStore_increment h now s key delta = Inl f"
  by (simp add: CounterStore_increment_def)

lemma increment_overflow:
  "CounterStore_parse_value (StorageEngine_get h now s key) = Inr c \<Longrightarrow> \<not> int64_range (c + delta) \<Longrightarrow>
     CounterStore_increment h now s key delta = Inl Signed_overflow"
  by (simp add: CounterStore_increment_def checked_int64_def)

lemma parse_value_range: "CounterStore_parse_value raw = Inr c \<Longrightarrow> int64_range c"
  by (auto simp: CounterStore_parse_value_def int64_range_def dest: stoll_range
      split: option.splits if_splits)

lemma get_fresh: "engine_view h s key = Some (fresh_entry v) \<Longrightarrow> StorageEngine_get h now s key = Some v"
  by (simp add: get_correct spec_get_def fresh_entry_def expired_at_def)

lemma read_after_increment:
  assumes "engine_ok h s" "CounterStore_increment h now s key delta = Inr (s', n)"
  shows "engine_ok h s'" "CounterStore_read h now' s' key = Inr (Some n)"
proof -
  obtain c where c: "CounterStore_parse_value (StorageEngine_get h now s key) = Inr c"
    "int64_range (c + delta)" "n = c + delta"
    using assms(2) by (auto simp: CounterStore_increment_def checked_int64_def split: if_splits)
  from increment_correct[OF assms(1) c(1,2)] assms(2) c(3)
  have ok: "engine_ok h s'" and v: "engine_view h s' key = Some (fresh_entry (show_int n))" by auto
  show "engine_ok h s'" by (rule ok)
  show "CounterStore_read h now' s' key = Inr (Some n)"
    using get_fresh[OF v, of now'] parse_format[of n] c
    by (simp add: CounterStore_read_def CounterStore_format_value_def)
qed

lemma expire_after_eq:
  "ExpirationService_expire_after h now s key ttl = StorageEngine_set_ttl h now s key ttl"
  by (simp add: ExpirationService_expire_after_def exists_correct set_ttl_missing)

section \<open>Properties\<close>

text \<open>
  \<open>CounterStore::increment\<close> on every branch: when the stored value does not parse it
  throws what \<open>std::stoll\<close> throws; when the sum leaves 64 bits it is a signed overflow;
  otherwise the sum is returned and stored, in decimal and without a deadline, and \<open>read\<close>
  gives it back at any later time.
\<close>

theorem increment_spec:
  assumes "engine_ok h s"
  shows "case CounterStore_parse_value (spec_get now (engine_view h s) key) of
       Inl f \<Rightarrow> CounterStore_increment h now s key delta = Inl f
     | Inr c \<Rightarrow>
         if \<not> int64_range (c + delta) then CounterStore_increment h now s key delta = Inl Signed_overflow
         else \<exists>s'. CounterStore_increment h now s key delta = Inr (s', c + delta) \<and> engine_ok h s'
              \<and> engine_view h s' = (engine_view h s)(key \<mapsto> fresh_entry (show_int (c + delta)))
              \<and> CounterStore_read h now' s' key = Inr (Some (c + delta))"
proof (cases "CounterStore_parse_value (spec_get now (engine_view h s) key)")
  case (Inl f)
  then show ?thesis by (simp add: increment_fault get_correct)
next
  case (Inr c)
  then have p: "CounterStore_parse_value (StorageEngine_get h now s key) = Inr c" by (simp add: get_correct)
  show ?thesis
  proof (cases "int64_range (c + delta)")
    case True
    from increment_correct[OF assms p True] read_after_increment(2)[OF assms] True Inr show ?thesis by auto
  next
    case False
    then show ?thesis using increment_overflow[OF p False] Inr by simp
  qed
qed

theorem increment_spec_witness:
  "\<exists>s'. CounterStore_increment (\<lambda>_. 0) 0 StorageEngine_new ''n'' 5 = Inr (s', 5)
     \<and> CounterStore_read (\<lambda>_. 0) 9 s' ''n'' = Inr (Some 5)"
  using increment_spec[OF engine_ok_new, of "\<lambda>_. 0" 0 "''n''" 5 9]
  by (auto simp: engine_view_new spec_get_def CounterStore_parse_value_def int64_range_def)

text \<open>
  \<open>BatchOperations::mset\<close> writes the pairs in order, so that the last value given for a
  key is the one stored, and counts every pair; \<open>mget\<close> answers position by position what
  \<open>get\<close> answers.
\<close>

theorem mset_spec:
  assumes "engine_ok h s"
  shows "\<exists>s'. BatchOperations_mset h s pairs = Inr (s', length pairs) \<and> engine_ok h s'
     \<and> engine_view h s' = engine_view h s ++ map_of (rev (map (\<lambda>p. (pair_key p, fresh_entry (pair_value p))) pairs))
     \<and> BatchOperations_mget h clock s' keys
         = map (\<lambda>i. spec_get (clock i) (engine_view h s') (keys ! i)) [0..<length keys]"
  using mset_correct[OF assms, of pairs] mget_correct by blast

theorem mset_spec_witness:
  "\<exists>s'. BatchOperations_mset (\<lambda>_. 0) StorageEngine_new
          [\<lparr>pair_key = ''a'', pair_value = ''1''\<rparr>, \<lparr>pair_key = ''a'', pair_value = ''2''\<rparr>] = Inr (s', 2)
     \<and> BatchOperations_mget (\<lambda>_. 0) (\<lambda>_. 0) s' [''a'', ''b''] = [Some ''2'', None]"
  using mset_spec[OF engine_ok_new, of "\<lambda>_. 0"
      "[\<lparr>pair_key = ''a'', pair_value = ''1''\<rparr>, \<lparr>pair_key = ''a'', pair_value = ''2''\<rparr>]" "\<lambda>_. 0" "[''a'', ''b'']"]
  by (auto simp: engine_view_new spec_get_def fresh_entry_def expired_at_def upt_rec numeral_2_eq_2)


end
