(* ===== verification/Persistence.thy ===== *)
theory Persistence
  imports Storage_Ops
begin

text \<open>
  The two on-disk formats: the append-only log of src/persistence/aof_log.cpp and the
  snapshot of src/persistence/snapshot.cpp, and \<open>StorageHooks\<close>
  (src/storage/storage_hooks.cpp), which writes through to the log.

  The files of the data directory are a record \<open>disk\<close> of optional byte strings. What
  the operating system decides (can a file be opened, does a rename succeed) is an
  argument, so that both outcomes of each call are branches of the model; a write that
  stops midway is the subject of Torn_Files. The bytes written are read back by the
  code's own parsing (\<open>std::getline\<close>, \<open>find\<close>, \<open>substr\<close>).

  The lemmas are the round trips: replaying a log gives the operations it records
  (interpretation \<open>aof\<close> of \<open>line_codec\<close>), a rewritten log and a snapshot restore
  every key and value. The formats separate fields by a space or a newline without
  quoting, so the round trips need keys and values free of the separator.
\<close>

section \<open>Files\<close>

record disk =
  aof_file :: "string option"
  rewrite_file :: "string option"
  snapshot_file :: "string option"

record io_env =
  temp_open_ok :: bool
  remove_ok :: bool
  rename_ok :: bool
  log_open_ok :: bool

record AofLog =
  stream_open :: bool

definition open_append :: "bool \<Rightarrow> disk \<Rightarrow> disk \<times> bool" where
  "open_append ok d =
     (if ok then (d\<lparr>aof_file := Some (case aof_file d of None \<Rightarrow> [] | Some c \<Rightarrow> c)\<rparr>, True)
      else (d, False))"

section \<open>Append-only log\<close>

definition AofLog_new :: "bool \<Rightarrow> disk \<Rightarrow> disk \<times> AofLog" where
  "AofLog_new ok d = (let (d', opened) = open_append ok d in (d', \<lparr>stream_open = opened\<rparr>))"

definition AofLog_write_line :: "bool \<Rightarrow> disk \<Rightarrow> AofLog \<Rightarrow> string \<Rightarrow> disk \<times> AofLog" where
  "AofLog_write_line ok d a line =
     (let (d1, opened) = (if \<not> stream_open a then open_append ok d else (d, True)) in
      (if opened
       then d1\<lparr>aof_file := Some ((case aof_file d1 of None \<Rightarrow> [] | Some c \<Rightarrow> c) @ line @ [newline])\<rparr>
       else d1,
       a\<lparr>stream_open := opened\<rparr>))"

definition AofLog_append_set :: "bool \<Rightarrow> disk \<Rightarrow> AofLog \<Rightarrow> string \<Rightarrow> string \<Rightarrow> disk \<times> AofLog" where
  "AofLog_append_set ok d a key value = AofLog_write_line ok d a (''SET '' @ key @ '' '' @ value)"

definition AofLog_append_del :: "bool \<Rightarrow> disk \<Rightarrow> AofLog \<Rightarrow> string \<Rightarrow> disk \<times> AofLog" where
  "AofLog_append_del ok d a key = AofLog_write_line ok d a (''DEL '' @ key)"

definition replay_line :: "hash \<Rightarrow> StorageEngine \<Rightarrow> string \<Rightarrow> StorageEngine res" where
  "replay_line h s line =
     (if starts_with ''SET '' line then
        (case find_char (CHR '' '') (drop 4 line) of
           None \<Rightarrow> Inr s
         | Some i \<Rightarrow>
             bind_res (StorageEngine_set h s (take i (drop 4 line)) (drop (i + 1) (drop 4 line)))
               (\<lambda>(s', _). Inr s'))
      else if starts_with ''DEL '' line then Inr (fst (StorageEngine_remove h s (drop 4 line)))
      else Inr s)"

definition AofLog_replay :: "hash \<Rightarrow> bool \<Rightarrow> disk \<Rightarrow> StorageEngine \<Rightarrow> (StorageEngine \<times> bool) res" where
  "AofLog_replay h read_ok d s =
     (case aof_file d of
        None \<Rightarrow> Inr (s, False)
      | Some content \<Rightarrow>
          if \<not> read_ok then Inr (s, False)
          else bind_res (fold_res (replay_line h) (getlines content) s) (\<lambda>s'. Inr (s', True)))"

definition rewrite_content :: "(string \<times> string) list \<Rightarrow> string" where
  "rewrite_content entries =
     ''AOFREWRITE_V1'' @ [newline]
     @ concat (map (\<lambda>(k, v). ''SET '' @ k @ '' '' @ v @ [newline]) entries)"

definition AofLog_rewrite_from :: "io_env \<Rightarrow> disk \<Rightarrow> AofLog \<Rightarrow> StorageEngine \<Rightarrow> disk \<times> AofLog \<times> bool" where
  "AofLog_rewrite_from env d a s =
     (if \<not> temp_open_ok env then (d, a, False)
      else
        let d1 = d\<lparr>rewrite_file := Some (rewrite_content (StorageEngine_dump_entries s))\<rparr>;
            a1 = a\<lparr>stream_open := False\<rparr>;
            d2 = (if remove_ok env then d1\<lparr>aof_file := None\<rparr> else d1) in
        if \<not> rename_ok env then (d2, a1, False)
        else
          let d3 = d2\<lparr>aof_file := rewrite_file d2, rewrite_file := None\<rparr>;
              (d4, opened) = open_append (log_open_ok env) d3
          in (d4, a1\<lparr>stream_open := opened\<rparr>, True))"

definition AofLog_bytes_on_disk :: "disk \<Rightarrow> nat" where
  "AofLog_bytes_on_disk d = (case aof_file d of None \<Rightarrow> 0 | Some c \<Rightarrow> length c)"

section \<open>Write-through hooks\<close>

definition StorageHooks_set ::
    "hash \<Rightarrow> bool \<Rightarrow> StorageEngine \<times> disk \<times> AofLog \<Rightarrow> string \<Rightarrow> string
       \<Rightarrow> ((StorageEngine \<times> disk \<times> AofLog) \<times> bool) res" where
  "StorageHooks_set h open_ok st key value =
     (let (s, d, a) = st in
      bind_res (StorageEngine_set h s key value) (\<lambda>(s', ok).
        let (d', a') = (if ok then AofLog_append_set open_ok d a key value else (d, a))
        in Inr ((s', d', a'), ok)))"

definition StorageHooks_remove ::
    "hash \<Rightarrow> bool \<Rightarrow> StorageEngine \<times> disk \<times> AofLog \<Rightarrow> string \<Rightarrow> (StorageEngine \<times> disk \<times> AofLog) \<times> bool" where
  "StorageHooks_remove h open_ok st key =
     (let (s, d, a) = st;
          (s', ok) = StorageEngine_remove h s key;
          (d', a') = (if ok then AofLog_append_del open_ok d a key else (d, a))
      in ((s', d', a'), ok))"

section \<open>Snapshot\<close>

definition snapshot_header :: string where
  "snapshot_header = ''VOLTDBX_SNAPSHOT_V1''"

definition snapshot_content :: "(string \<times> string) list \<Rightarrow> string" where
  "snapshot_content pairs =
     snapshot_header @ [newline] @ show_nat (length pairs) @ [newline]
     @ concat (map (\<lambda>(k, v). k @ [newline] @ v @ [newline]) pairs)"

definition SnapshotWriter_write :: "bool \<Rightarrow> disk \<Rightarrow> StorageEngine \<Rightarrow> disk \<times> bool" where
  "SnapshotWriter_write open_ok d s =
     (if \<not> open_ok then (d, False)
      else (d\<lparr>snapshot_file := Some (snapshot_content (StorageEngine_dump_entries s))\<rparr>, True))"

definition SnapshotLoader_has_snapshot :: "disk \<Rightarrow> bool" where
  "SnapshotLoader_has_snapshot d \<longleftrightarrow> snapshot_file d \<noteq> None"

definition stream_read_size :: "string \<Rightarrow> nat" where
  "stream_read_size s =
     (case stoull s of Inr n \<Rightarrow> n | Inl Out_of_range \<Rightarrow> 2 ^ 64 - 1 | Inl _ \<Rightarrow> 0)"

fun line_pairs :: "string list \<Rightarrow> (string \<times> string) list" where
  "line_pairs (k # v # ls) = (k, v) # line_pairs ls"
| "line_pairs _ = []"

definition nth_line :: "nat \<Rightarrow> string list \<Rightarrow> string" where
  "nth_line i ls = (if i < length ls then ls ! i else [])"

definition SnapshotLoader_load_into ::
    "hash \<Rightarrow> bool \<Rightarrow> disk \<Rightarrow> StorageEngine \<Rightarrow> (StorageEngine \<times> bool) res" where
  "SnapshotLoader_load_into h read_ok d s =
     (case snapshot_file d of
        None \<Rightarrow> Inr (s, False)
      | Some content \<Rightarrow>
          if \<not> read_ok then Inr (s, False)
          else
            let ls = getlines content in
            if nth_line 0 ls \<noteq> snapshot_header then Inr (s, False)
            else
              let count = stream_read_size (nth_line 1 ls) in
              bind_res (fold_res (\<lambda>s (k, v). bind_res (StorageEngine_set h s k v) (\<lambda>(s', _). Inr s'))
                          (take count (line_pairs (drop 2 ls))) s)
                (\<lambda>s'. Inr (s', True)))"

section \<open>Line-oriented logs\<close>

locale line_codec =
  fixes enc :: "'r \<Rightarrow> string"
    and good :: "'r \<Rightarrow> bool"
    and apply_line :: "'s \<Rightarrow> string \<Rightarrow> 's res"
    and apply_rec :: "'s \<Rightarrow> 'r \<Rightarrow> 's res"
  assumes enc_no_newline: "good r \<Longrightarrow> newline \<notin> set (enc r)"
    and enc_apply: "good r \<Longrightarrow> apply_line s (enc r) = apply_rec s r"
begin

lemma apply_lines:
  "\<forall>r \<in> set rs. good r \<Longrightarrow> fold_res apply_line (map enc rs) s = fold_res apply_rec rs s"
proof (induction rs arbitrary: s)
  case (Cons r rs)
  then show ?case by (cases "apply_rec s r") (simp_all add: enc_apply)
qed simp

lemma getlines_enc:
  "\<forall>r \<in> set rs. good r \<Longrightarrow>
     getlines (concat (map (\<lambda>r. enc r @ [newline]) rs)) = map enc rs"
  using getlines_unlines[of "map enc rs"] by (simp add: enc_no_newline comp_def)

lemma apply_file:
  "\<forall>r \<in> set rs. good r \<Longrightarrow>
     fold_res apply_line (getlines (concat (map (\<lambda>r. enc r @ [newline]) rs))) s = fold_res apply_rec rs s"
  by (simp add: getlines_enc apply_lines)

end

datatype aof_record = Aof_set string string | Aof_del string

fun aof_line :: "aof_record \<Rightarrow> string" where
  "aof_line (Aof_set k v) = ''SET '' @ k @ '' '' @ v"
| "aof_line (Aof_del k) = ''DEL '' @ k"

fun aof_good :: "aof_record \<Rightarrow> bool" where
  "aof_good (Aof_set k v) \<longleftrightarrow> CHR '' '' \<notin> set k \<and> newline \<notin> set k \<and> newline \<notin> set v"
| "aof_good (Aof_del k) \<longleftrightarrow> newline \<notin> set k"

fun aof_apply :: "hash \<Rightarrow> StorageEngine \<Rightarrow> aof_record \<Rightarrow> StorageEngine res" where
  "aof_apply h s (Aof_set k v) = bind_res (StorageEngine_set h s k v) (\<lambda>(s', _). Inr s')"
| "aof_apply h s (Aof_del k) = Inr (fst (StorageEngine_remove h s k))"

lemma aof_line_no_newline: "aof_good r \<Longrightarrow> newline \<notin> set (aof_line r)"
  by (cases r) (auto simp: newline_def)

lemma replay_line_enc: "aof_good r \<Longrightarrow> replay_line h s (aof_line r) = aof_apply h s r"
proof (cases r)
  case (Aof_set k v)
  moreover assume "aof_good r"
  ultimately have "find_char (CHR '' '') (k @ CHR '' '' # v) = Some (length k)"
    by (simp add: find_char_append)
  then show ?thesis using Aof_set by (simp add: replay_line_def starts_with_def)
next
  case (Aof_del k)
  then show ?thesis by (simp add: replay_line_def starts_with_def)
qed

interpretation aof: line_codec aof_line aof_good "replay_line h" "aof_apply h" for h
  by unfold_locales (simp_all add: aof_line_no_newline replay_line_enc)


section \<open>Restoring\<close>

text \<open>What a file made from an engine restores: its keys and values, without deadlines.\<close>

definition restored :: "hash \<Rightarrow> StorageEngine \<Rightarrow> store" where
  "restored h s = (\<lambda>k. map_option (\<lambda>e. fresh_entry (entry_value e)) (engine_view h s k))"

abbreviation put_entries :: "hash \<Rightarrow> (string \<times> string) list \<Rightarrow> StorageEngine \<Rightarrow> StorageEngine res" where
  "put_entries h \<equiv> fold_res (\<lambda>s (k, v). bind_res (StorageEngine_set h s k v) (\<lambda>(s', _). Inr s'))"

lemma map_of_dump_restored:
  assumes "engine_ok h s"
  shows "map_of (rev (map (\<lambda>(k, v). (k, fresh_entry v)) (StorageEngine_dump_entries s))) = restored h s"
proof -
  let ?xs = "map (\<lambda>(k, v). (k, fresh_entry v)) (StorageEngine_dump_entries s)"
  have "map fst ?xs = map fst (StorageEngine_dump_entries s)" by auto
  then have "distinct (map fst ?xs)" using dump_entries_distinct[OF assms] by metis
  then have "map_of (rev ?xs) = map_of ?xs" by (rule distinct_map_fst_map_of_rev)
  also have "\<dots> = map_option fresh_entry \<circ> map_of (StorageEngine_dump_entries s)" by (rule map_of_map)
  finally show ?thesis
    by (simp add: dump_entries_map_of[OF assms] restored_def fun_eq_iff option.map_comp comp_def)
qed

lemma put_dump_restores:
  assumes "engine_ok h s" "engine_ok h s0" "engine_view h s0 = Map.empty"
  shows "\<exists>s1. put_entries h (StorageEngine_dump_entries s) s0 = Inr s1 \<and> engine_ok h s1
     \<and> engine_view h s1 = restored h s"
  using eng.put_all[OF assms(2), of "StorageEngine_dump_entries s"] assms(3)
  by (simp add: map_of_dump_restored[OF assms(1)])

lemma aof_apply_sets: "fold_res (aof_apply h) (map (\<lambda>(k, v). Aof_set k v) xs) s = put_entries h xs s"
proof (induction xs arbitrary: s)
  case (Cons x xs)
  then show ?case by (cases x; cases "StorageEngine_set h s (fst x) (snd x)") auto
qed simp

lemma rewrite_content_lines:
  "rewrite_content xs = ''AOFREWRITE_V1'' @ newline
     # concat (map (\<lambda>r. aof_line r @ [newline]) (map (\<lambda>(k, v). Aof_set k v) xs))"
  by (simp add: rewrite_content_def comp_def case_prod_unfold)

lemma replay_rewrite_content:
  assumes "\<forall>(k, v) \<in> set xs. aof_good (Aof_set k v)"
  shows "fold_res (replay_line h) (getlines (rewrite_content xs)) s = put_entries h xs s"
proof -
  let ?rs = "map (\<lambda>(k, v). Aof_set k v) xs"
  have "getlines (rewrite_content xs)
      = ''AOFREWRITE_V1'' # getlines (concat (map (\<lambda>r. aof_line r @ [newline]) ?rs))"
    unfolding rewrite_content_lines by (rule getlines_line) (simp add: newline_def)
  moreover have "replay_line h s ''AOFREWRITE_V1'' = Inr s"
    by (simp add: replay_line_def starts_with_def)
  moreover have "\<forall>r \<in> set ?rs. aof_good r" using assms by auto
  ultimately show ?thesis using aof.apply_file[of ?rs h s] aof_apply_sets[of h xs s] by simp
qed

definition log_safe :: "StorageEngine \<Rightarrow> bool" where
  "log_safe s \<longleftrightarrow> (\<forall>(k, v) \<in> set (StorageEngine_dump_entries s). aof_good (Aof_set k v))"

definition snapshot_safe :: "StorageEngine \<Rightarrow> bool" where
  "snapshot_safe s \<longleftrightarrow>
     length (StorageEngine_dump_entries s) < 2 ^ 64
     \<and> (\<forall>(k, v) \<in> set (StorageEngine_dump_entries s). newline \<notin> set k \<and> newline \<notin> set v)"

lemma dump_entries_view:
  assumes "engine_ok h s" "(k, v) \<in> set (StorageEngine_dump_entries s)"
  shows "\<exists>e. engine_view h s k = Some e \<and> entry_value e = v"
  using assms(2) by (auto simp: dump_entries_nodes node_iff_view[OF assms(1)])

lemma snapshot_safe_view:
  assumes "engine_ok h s" "StorageEngine_entry_count s < 2 ^ 64"
    and "\<And>k e. engine_view h s k = Some e \<Longrightarrow> newline \<notin> set k \<and> newline \<notin> set (entry_value e)"
  shows "snapshot_safe s"
proof -
  have "length (StorageEngine_dump_entries s) = StorageEngine_entry_count s"
    using table_shapeD(2)[OF engine_okD(4)[OF assms(1)]]
    by (simp add: dump_entries_nodes StorageEngine_entry_count_def table_nodes_def)
  then show ?thesis
    using assms(2,3) dump_entries_view[OF assms(1)] by (fastforce simp: snapshot_safe_def)
qed

lemma log_safe_view:
  assumes "engine_ok h s"
    and "\<And>k e. engine_view h s k = Some e \<Longrightarrow>
      CHR '' '' \<notin> set k \<and> newline \<notin> set k \<and> newline \<notin> set (entry_value e)"
  shows "log_safe s"
  using assms(2) dump_entries_view[OF assms(1)] by (fastforce simp: log_safe_def)

lemma line_pairs_concat:
  "line_pairs (concat (map (\<lambda>(k, v). [k, v]) xs)) = xs"
  by (induction xs) auto

lemma concat_unlines_pairs:
  "concat (map (\<lambda>(k, v). k @ newline # v @ [newline]) xs)
     = concat (map (\<lambda>l. l @ [newline]) (concat (map (\<lambda>(k, v). [k, v]) xs)))"
  by (induction xs) auto

lemma getlines_snapshot:
  assumes "\<forall>(k, v) \<in> set xs. newline \<notin> set k \<and> newline \<notin> set v"
  shows "getlines (snapshot_content xs)
     = snapshot_header # show_nat (length xs) # concat (map (\<lambda>(k, v). [k, v]) xs)"
proof -
  have "newline \<notin> set (show_nat (length xs))"
    using show_nat_digits[of "length xs"] by (auto simp: newline_def isdigit_def)
  moreover have "newline \<notin> set snapshot_header" by (simp add: snapshot_header_def newline_def)
  moreover have "getlines (concat (map (\<lambda>l. l @ [newline]) (concat (map (\<lambda>(k, v). [k, v]) xs))))
      = concat (map (\<lambda>(k, v). [k, v]) xs)"
    using assms by (intro getlines_unlines) auto
  ultimately show ?thesis
    by (simp add: snapshot_content_def getlines_line concat_unlines_pairs)
qed

lemma load_snapshot_content:
  assumes "\<forall>(k, v) \<in> set xs. newline \<notin> set k \<and> newline \<notin> set v" "length xs < 2 ^ 64"
    and "snapshot_file d = Some (snapshot_content xs)"
  shows "SnapshotLoader_load_into h True d s = bind_res (put_entries h xs s) (\<lambda>s'. Inr (s', True))"
  using assms getlines_snapshot[OF assms(1)]
  by (simp add: SnapshotLoader_load_into_def nth_line_def stream_read_size_def stoull_show_nat
      line_pairs_concat)

section \<open>The log records what the hooks did\<close>

text \<open>
  \<open>log_consistent h d s\<close>: the log on disk, replayed into a new engine, gives the
  contents of \<open>s\<close>.
\<close>

definition log_consistent :: "hash \<Rightarrow> disk \<Rightarrow> StorageEngine \<Rightarrow> bool" where
  "log_consistent h d s \<longleftrightarrow>
     (\<exists>content r. aof_file d = Some content
        \<and> (content = [] \<or> last content = newline)
        \<and> fold_res (replay_line h) (getlines content) StorageEngine_new = Inr r
        \<and> engine_ok h r \<and> engine_view h r = engine_view h s)"

text \<open>The key a record is about, and what it leaves there.\<close>

fun line_key :: "aof_record \<Rightarrow> string" where
  "line_key (Aof_set k v) = k"
| "line_key (Aof_del k) = k"

fun line_value :: "aof_record \<Rightarrow> StorageEntry option" where
  "line_value (Aof_set k v) = Some (fresh_entry v)"
| "line_value (Aof_del k) = None"

lemma aof_apply_view:
  "engine_ok h s \<Longrightarrow> \<exists>s'. aof_apply h s r = Inr s' \<and> engine_ok h s'
     \<and> engine_view h s' = (engine_view h s)(line_key r := line_value r)"
  using set_correct[of h s] eng.del_ok[of h s] eng.del_view[of h s] by (cases r) fastforce+

lemma getlines_append:
  assumes "c = [] \<or> last c = newline"
  shows "getlines (c @ t) = getlines c @ getlines t"
  using assms
proof (induction c rule: getlines.induct)
  case (1 c)
  show ?case
  proof (cases "c = []")
    case False
    with 1 have "newline \<in> set c" by (metis last_in_set)
    then obtain a b where ab: "c = a @ newline # b" "newline \<notin> set a" by (metis split_list_first)
    then have tw: "takeWhile (\<lambda>c. c \<noteq> newline) c = a" "dropWhile (\<lambda>c. c \<noteq> newline) c = newline # b"
      by (auto simp: takeWhile_append dropWhile_append)
    have "b = [] \<or> last b = newline" using 1(2) ab(1) by (auto split: if_splits)
    then have "getlines (b @ t) = getlines b @ getlines t" using 1(1)[OF False tw(2)] by simp
    then show ?thesis using getlines_line[OF ab(2)] ab(1) by simp
  qed simp
qed

lemma getlines_append_line:
  "c = [] \<or> last c = newline \<Longrightarrow> newline \<notin> set l \<Longrightarrow> getlines (c @ l @ [newline]) = getlines c @ [l]"
  using getlines_append[of c "l @ [newline]"] getlines_line[of l "[]"] by simp

lemma append_record_consistent:
  assumes "log_consistent h d s" "aof_good r"
    and "aof_file d' = Some ((case aof_file d of None \<Rightarrow> [] | Some c \<Rightarrow> c) @ aof_line r @ [newline])"
    and view: "\<And>q. engine_ok h q \<Longrightarrow> engine_view h q = engine_view h s \<Longrightarrow>
       \<exists>q'. aof_apply h q r = Inr q' \<and> engine_ok h q' \<and> engine_view h q' = engine_view h s'"
  shows "log_consistent h d' s'"
proof -
  obtain c q where c: "aof_file d = Some c" "c = [] \<or> last c = newline"
    "fold_res (replay_line h) (getlines c) StorageEngine_new = Inr q"
    "engine_ok h q" "engine_view h q = engine_view h s"
    using assms(1) by (auto simp: log_consistent_def)
  from view[OF c(4,5)] obtain q' where
    q': "aof_apply h q r = Inr q'" "engine_ok h q'" "engine_view h q' = engine_view h s'" by blast
  have "getlines (c @ aof_line r @ [newline]) = getlines c @ [aof_line r]"
    using c(2) aof_line_no_newline[OF assms(2)] by (rule getlines_append_line)
  then show ?thesis using c q' assms(3) replay_line_enc[OF assms(2), of h q]
    by (simp add: log_consistent_def fold_res_append)
qed

lemma write_line_open:
  "stream_open a \<Longrightarrow> AofLog_write_line ok d a l =
     (d\<lparr>aof_file := Some ((case aof_file d of None \<Rightarrow> [] | Some c \<Rightarrow> c) @ l @ [newline])\<rparr>, a)"
  by (simp add: AofLog_write_line_def)

lemma hooks_set_consistent:
  assumes "engine_ok h s" "stream_open a" "log_consistent h d s" "aof_good (Aof_set k v)"
  shows "\<exists>s' d'. StorageHooks_set h ok (s, d, a) k v = Inr ((s', d', a), True)
     \<and> engine_ok h s' \<and> log_consistent h d' s'
     \<and> engine_view h s' = (engine_view h s)(k \<mapsto> fresh_entry v)"
proof -
  from set_correct[OF assms(1), of k v] obtain s' where
    s': "StorageEngine_set h s k v = Inr (s', True)" "engine_ok h s'"
      "engine_view h s' = (engine_view h s)(k \<mapsto> fresh_entry v)" by blast
  let ?d = "fst (AofLog_append_set ok d a k v)"
  have d: "AofLog_append_set ok d a k v = (?d, a)"
    "aof_file ?d = Some ((case aof_file d of None \<Rightarrow> [] | Some c \<Rightarrow> c) @ aof_line (Aof_set k v) @ [newline])"
    using assms(2) by (simp_all add: AofLog_append_set_def write_line_open)
  have "log_consistent h ?d s'"
  proof (rule append_record_consistent[OF assms(3,4) d(2)])
    fix q assume "engine_ok h q" "engine_view h q = engine_view h s"
    with set_correct[of h q k v] s'(3)
    show "\<exists>q'. aof_apply h q (Aof_set k v) = Inr q' \<and> engine_ok h q' \<and> engine_view h q' = engine_view h s'"
      by auto
  qed
  with s' d(1) show ?thesis by (intro exI[of _ s'] exI[of _ ?d]) (simp add: StorageHooks_set_def Let_def)
qed

lemma hooks_remove_consistent:
  assumes "engine_ok h s" "stream_open a" "log_consistent h d s" "newline \<notin> set k"
  shows "\<exists>s' d'. StorageHooks_remove h ok (s, d, a) k = ((s', d', a), engine_view h s k \<noteq> None)
     \<and> engine_ok h s' \<and> log_consistent h d' s'
     \<and> engine_view h s' = (engine_view h s)(k := None)"
proof -
  obtain s' b where r: "StorageEngine_remove h s k = (s', b)" by (rule prod.exhaust)
  note rc = remove_correct[OF assms(1) r]
  show ?thesis
  proof (cases b)
    case False
    then have "engine_view h s' = engine_view h s" using rc(2,3) by (simp add: fun_upd_idem)
    then show ?thesis using r rc False assms(3)
      by (auto simp: StorageHooks_remove_def log_consistent_def)
  next
    case True
    let ?d = "fst (AofLog_append_del ok d a k)"
    have d: "AofLog_append_del ok d a k = (?d, a)"
      "aof_file ?d = Some ((case aof_file d of None \<Rightarrow> [] | Some c \<Rightarrow> c) @ aof_line (Aof_del k) @ [newline])"
      using assms(2) by (simp_all add: AofLog_append_del_def write_line_open)
    have "log_consistent h ?d s'"
    proof (rule append_record_consistent[OF assms(3) _ d(2)])
      show "aof_good (Aof_del k)" using assms(4) by simp
      fix q assume q: "engine_ok h q" "engine_view h q = engine_view h s"
      then show "\<exists>q'. aof_apply h q (Aof_del k) = Inr q' \<and> engine_ok h q' \<and> engine_view h q' = engine_view h s'"
        using eng.del_ok[OF q(1)] eng.del_view[OF q(1)] rc(2) by simp
    qed
    with r rc d(1) True show ?thesis
      by (intro exI[of _ s'] exI[of _ ?d]) (simp add: StorageHooks_remove_def)
  qed
qed

section \<open>Properties\<close>

text \<open>
  C20: writing a snapshot of an engine and loading it into a new one restores every key with
  its value (deadlines are not stored), for every content whose keys and values hold no
  newline.
\<close>

theorem snapshot_roundtrip:
  assumes "engine_ok h s" "snapshot_safe s"
  shows "\<exists>s'. SnapshotLoader_load_into h True (fst (SnapshotWriter_write True d s)) StorageEngine_new
       = Inr (s', True) \<and> engine_ok h s'
     \<and> engine_view h s' = (\<lambda>k. map_option (\<lambda>e. fresh_entry (entry_value e)) (engine_view h s k))"
proof -
  obtain s' where s': "put_entries h (StorageEngine_dump_entries s) StorageEngine_new = Inr s'" "engine_ok h s'"
    "engine_view h s' = restored h s"
    using put_dump_restores[OF assms(1) engine_ok_new engine_view_new] by blast
  then show ?thesis
    using load_snapshot_content[of "StorageEngine_dump_entries s" "fst (SnapshotWriter_write True d s)" h StorageEngine_new]
      assms(2) by (simp add: snapshot_safe_def SnapshotWriter_write_def restored_def)
qed

theorem snapshot_roundtrip_witness:
  "\<exists>s s'. SnapshotLoader_load_into (\<lambda>_. 0) True
       (fst (SnapshotWriter_write True \<lparr>aof_file = None, rewrite_file = None, snapshot_file = None\<rparr> s))
       StorageEngine_new = Inr (s', True) \<and> engine_view (\<lambda>_. 0) s' = [''k'' \<mapsto> fresh_entry ''a b'']"
proof -
  obtain s where s: "engine_ok (\<lambda>_. 0) s" "engine_view (\<lambda>_. 0) s = [''k'' \<mapsto> fresh_entry ''a b'']"
    using set_correct[OF engine_ok_new, of "\<lambda>_. 0" "''k''" "''a b''"] by (auto simp: engine_view_new)
  have "snapshot_safe s"
    using s entry_count_correct[OF s(1)] by (intro snapshot_safe_view[OF s(1)]) (auto simp: fresh_entry_def newline_def split: if_splits)
  from snapshot_roundtrip[OF s(1) this] s(2) obtain s' where
    "SnapshotLoader_load_into (\<lambda>_. 0) True
       (fst (SnapshotWriter_write True \<lparr>aof_file = None, rewrite_file = None, snapshot_file = None\<rparr> s))
       StorageEngine_new = Inr (s', True)"
    "engine_view (\<lambda>_. 0) s' = (\<lambda>k. map_option (\<lambda>e. fresh_entry (entry_value e)) (engine_view (\<lambda>_. 0) s k))" by metis
  moreover have "(\<lambda>k. map_option (\<lambda>e. fresh_entry (entry_value e)) (engine_view (\<lambda>_. 0) s k)) = [''k'' \<mapsto> fresh_entry ''a b'']"
    by (rule ext) (simp add: s(2) fresh_entry_def)
  ultimately show ?thesis by metis
qed

text \<open>
  C21: a rewrite of the append-only log whose file operations succeed leaves a log that,
  replayed into a new engine, restores every key with its value, for every content whose
  keys hold no space or newline and whose values hold no newline.
\<close>

theorem rewrite_roundtrip:
  assumes "engine_ok h s" "log_safe s" "AofLog_rewrite_from env d a s = (d', a', True)"
  shows "\<exists>s'. AofLog_replay h True d' StorageEngine_new = Inr (s', True) \<and> engine_ok h s'
     \<and> engine_view h s' = (\<lambda>k. map_option (\<lambda>e. fresh_entry (entry_value e)) (engine_view h s k))"
proof -
  obtain s' where s': "put_entries h (StorageEngine_dump_entries s) StorageEngine_new = Inr s'" "engine_ok h s'"
    "engine_view h s' = restored h s"
    using put_dump_restores[OF assms(1) engine_ok_new engine_view_new] by blast
  have "aof_file d' = Some (rewrite_content (StorageEngine_dump_entries s))"
    using assms(3) by (auto simp: AofLog_rewrite_from_def open_append_def Let_def split: if_splits)
  then show ?thesis
    using s' replay_rewrite_content[of "StorageEngine_dump_entries s" h StorageEngine_new] assms(2)
    by (simp add: AofLog_replay_def log_safe_def restored_def)
qed

theorem rewrite_roundtrip_witness:
  "\<exists>s d' a' s'. AofLog_rewrite_from \<lparr>temp_open_ok = True, remove_ok = True, rename_ok = True, log_open_ok = True\<rparr>
        \<lparr>aof_file = None, rewrite_file = None, snapshot_file = None\<rparr> \<lparr>stream_open = True\<rparr> s
       = (d', a', True)
     \<and> AofLog_replay (\<lambda>_. 0) True d' StorageEngine_new = Inr (s', True)
     \<and> engine_view (\<lambda>_. 0) s' ''k'' = Some (fresh_entry ''a b'')"
proof -
  obtain s where s: "engine_ok (\<lambda>_. 0) s" "engine_view (\<lambda>_. 0) s = [''k'' \<mapsto> fresh_entry ''a b'']"
    using set_correct[OF engine_ok_new, of "\<lambda>_. 0" "''k''" "''a b''"] by (auto simp: engine_view_new)
  have "log_safe s"
    using s by (intro log_safe_view[OF s(1)]) (auto simp: fresh_entry_def newline_def split: if_splits)
  moreover obtain d' a' where r: "AofLog_rewrite_from
        \<lparr>temp_open_ok = True, remove_ok = True, rename_ok = True, log_open_ok = True\<rparr>
        \<lparr>aof_file = None, rewrite_file = None, snapshot_file = None\<rparr> \<lparr>stream_open = True\<rparr> s
       = (d', a', True)"
    by (simp add: AofLog_rewrite_from_def open_append_def Let_def)
  ultimately obtain s' where "AofLog_replay (\<lambda>_. 0) True d' StorageEngine_new = Inr (s', True)"
    "engine_view (\<lambda>_. 0) s' = (\<lambda>k. map_option (\<lambda>e. fresh_entry (entry_value e)) (engine_view (\<lambda>_. 0) s k))"
    using rewrite_roundtrip[OF s(1)] by metis
  moreover from this(2) s(2) have "engine_view (\<lambda>_. 0) s' ''k'' = Some (fresh_entry ''a b'')"
    by (simp add: fresh_entry_def)
  ultimately show ?thesis using r by blast
qed

text \<open>
  A rewrite that cannot rename its temporary file over the log reports failure after the
  old log has been removed: no log is left on disk, and the stream stays closed.
\<close>

theorem failed_rename_loses_log:
  "AofLog_rewrite_from \<lparr>temp_open_ok = True, remove_ok = True, rename_ok = False, log_open_ok = lo\<rparr> d a s
     = (d\<lparr>aof_file := None, rewrite_file := Some (rewrite_content (StorageEngine_dump_entries s))\<rparr>,
        a\<lparr>stream_open := False\<rparr>, False)"
  by (simp add: AofLog_rewrite_from_def Let_def)

text \<open>
  The write-through hooks keep the log and the engine in step: if replaying the log gives
  the contents of the engine, it still does after a \<open>set\<close> or a \<open>remove\<close> through the hooks.
\<close>

theorem hooks_keep_log_consistent:
  assumes "engine_ok h s" "stream_open a" "log_consistent h d s"
    and "CHR '' '' \<notin> set k" "newline \<notin> set k" "newline \<notin> set v"
  shows "(\<exists>s' d'. StorageHooks_set h ok (s, d, a) k v = Inr ((s', d', a), True)
       \<and> engine_ok h s' \<and> log_consistent h d' s' \<and> engine_view h s' = (engine_view h s)(k \<mapsto> fresh_entry v))
     \<and> (\<exists>s' d'. StorageHooks_remove h ok (s, d, a) k = ((s', d', a), engine_view h s k \<noteq> None)
       \<and> engine_ok h s' \<and> log_consistent h d' s' \<and> engine_view h s' = (engine_view h s)(k := None))"
  using hooks_set_consistent[OF assms(1-3), of k v ok] hooks_remove_consistent[OF assms(1-3,5), of ok] assms(4-6)
  by simp

theorem hooks_keep_log_consistent_witness:
  "\<exists>s' d'. StorageHooks_set (\<lambda>_. 0) True
        (StorageEngine_new, \<lparr>aof_file = Some [], rewrite_file = None, snapshot_file = None\<rparr>, \<lparr>stream_open = True\<rparr>)
        ''k'' ''v w'' = Inr ((s', d', \<lparr>stream_open = True\<rparr>), True)
     \<and> log_consistent (\<lambda>_. 0) d' s' \<and> engine_view (\<lambda>_. 0) s' ''k'' = Some (fresh_entry ''v w'')"
proof -
  let ?d = "\<lparr>aof_file = Some [], rewrite_file = None, snapshot_file = None\<rparr>"
  have "log_consistent (\<lambda>_. 0) ?d StorageEngine_new" by (simp add: log_consistent_def engine_ok_new)
  then have "\<exists>s' d'. StorageHooks_set (\<lambda>_. 0) True (StorageEngine_new, ?d, \<lparr>stream_open = True\<rparr>) ''k'' ''v w''
        = Inr ((s', d', \<lparr>stream_open = True\<rparr>), True)
      \<and> engine_ok (\<lambda>_. 0) s' \<and> log_consistent (\<lambda>_. 0) d' s'
      \<and> engine_view (\<lambda>_. 0) s' = (engine_view (\<lambda>_. 0) StorageEngine_new)(''k'' \<mapsto> fresh_entry ''v w'')"
    using hooks_keep_log_consistent[OF engine_ok_new, of "\<lparr>stream_open = True\<rparr>" "\<lambda>_. 0" ?d "''k''" "''v w''" True]
    by (simp add: newline_def)
  then show ?thesis by fastforce
qed

end
