(* ===== verification/Pubsub.thy ===== *)
theory Pubsub
  imports Cxx_Strings
begin

text \<open>
  Publish/subscribe: \<open>ChannelRegistry\<close> (src/pubsub/channel_registry.cpp),
  \<open>PubSubBroker\<close> (src/pubsub/broker.cpp) and \<open>SessionMailbox\<close>
  (src/pubsub/session_mailbox.cpp). The two unordered maps of the registry are partial
  functions; \<open>operator[]\<close> on a missing key inserts an empty vector. Every operation of
  the registry and of the mailbox runs under its mutex and is one step. The delivery
  callback of the broker is an optional function on the state \<open>'m\<close> it changes;
  \<open>wire_broker_delivery\<close> makes it \<open>SessionMailbox::enqueue\<close>.

  \<open>registry_ok\<close>: the two maps are inverse relations without duplicates. It is kept by
  every operation, and makes a publication reach each subscriber exactly once.
\<close>

type_synonym SubscriberId = "64 word"

record ChannelRegistry =
  channel_map :: "string \<rightharpoonup> SubscriberId list"
  subscriber_map :: "SubscriberId \<rightharpoonup> string list"

definition ChannelRegistry_new :: ChannelRegistry where
  "ChannelRegistry_new = \<lparr>channel_map = Map.empty, subscriber_map = Map.empty\<rparr>"

definition or_empty :: "'a list option \<Rightarrow> 'a list" where
  "or_empty x = (case x of None \<Rightarrow> [] | Some xs \<Rightarrow> xs)"

definition push_unique :: "'a \<Rightarrow> 'a list \<Rightarrow> 'a list" where
  "push_unique x xs = (if x \<in> set xs then xs else xs @ [x])"

definition ChannelRegistry_subscribe :: "ChannelRegistry \<Rightarrow> string \<Rightarrow> SubscriberId \<Rightarrow> ChannelRegistry" where
  "ChannelRegistry_subscribe r channel subscriber =
     \<lparr>channel_map = (channel_map r)(channel \<mapsto> push_unique subscriber (or_empty (channel_map r channel))),
      subscriber_map = (subscriber_map r)(subscriber \<mapsto>
         push_unique channel (or_empty (subscriber_map r subscriber)))\<rparr>"

definition ChannelRegistry_unsubscribe :: "ChannelRegistry \<Rightarrow> string \<Rightarrow> SubscriberId \<Rightarrow> ChannelRegistry" where
  "ChannelRegistry_unsubscribe r channel subscriber =
     \<lparr>channel_map =
        (case channel_map r channel of
           None \<Rightarrow> channel_map r
         | Some list \<Rightarrow> (channel_map r)(channel \<mapsto> removeAll subscriber list)),
      subscriber_map =
        (case subscriber_map r subscriber of
           None \<Rightarrow> subscriber_map r
         | Some channels \<Rightarrow> (subscriber_map r)(subscriber \<mapsto> removeAll channel channels))\<rparr>"

definition drop_subscriber :: "SubscriberId \<Rightarrow> (string \<rightharpoonup> SubscriberId list) \<Rightarrow> string \<Rightarrow> (string \<rightharpoonup> SubscriberId list)" where
  "drop_subscriber subscriber m channel =
     (case m channel of None \<Rightarrow> m | Some list \<Rightarrow> m(channel \<mapsto> removeAll subscriber list))"

definition ChannelRegistry_unsubscribe_all :: "ChannelRegistry \<Rightarrow> SubscriberId \<Rightarrow> ChannelRegistry" where
  "ChannelRegistry_unsubscribe_all r subscriber =
     (case subscriber_map r subscriber of
        None \<Rightarrow> r
      | Some channels \<Rightarrow>
          \<lparr>channel_map = foldl (drop_subscriber subscriber) (channel_map r) channels,
           subscriber_map = (subscriber_map r)(subscriber := None)\<rparr>)"

definition ChannelRegistry_subscribers :: "ChannelRegistry \<Rightarrow> string \<Rightarrow> SubscriberId list" where
  "ChannelRegistry_subscribers r channel =
     (case channel_map r channel of None \<Rightarrow> [] | Some list \<Rightarrow> list)"

definition ChannelRegistry_channels_for :: "ChannelRegistry \<Rightarrow> SubscriberId \<Rightarrow> string list" where
  "ChannelRegistry_channels_for r subscriber =
     (case subscriber_map r subscriber of None \<Rightarrow> [] | Some channels \<Rightarrow> channels)"

section \<open>Broker and mailbox\<close>

type_synonym 'm delivery = "('m \<Rightarrow> SubscriberId \<Rightarrow> string \<Rightarrow> 'm) option"

definition PubSubBroker_publish ::
    "'m delivery \<Rightarrow> ChannelRegistry \<Rightarrow> 'm \<Rightarrow> string \<Rightarrow> string \<Rightarrow> 'm \<times> nat" where
  "PubSubBroker_publish delivery r m channel message =
     (let targets = ChannelRegistry_subscribers r channel in
      (foldl (\<lambda>m ident. case delivery of None \<Rightarrow> m | Some fn \<Rightarrow> fn m ident message) m targets,
       length targets))"

definition PubSubBroker_register_subscriber :: "ChannelRegistry \<Rightarrow> SubscriberId \<Rightarrow> string \<Rightarrow> ChannelRegistry" where
  "PubSubBroker_register_subscriber r ident channel = ChannelRegistry_subscribe r channel ident"

definition PubSubBroker_remove_subscriber :: "ChannelRegistry \<Rightarrow> SubscriberId \<Rightarrow> ChannelRegistry" where
  "PubSubBroker_remove_subscriber r ident = ChannelRegistry_unsubscribe_all r ident"

record SessionMailbox =
  queues :: "SubscriberId \<rightharpoonup> string list"

definition SessionMailbox_new :: SessionMailbox where
  "SessionMailbox_new = \<lparr>queues = Map.empty\<rparr>"

definition SessionMailbox_bind :: "SessionMailbox \<Rightarrow> SubscriberId \<Rightarrow> SessionMailbox" where
  "SessionMailbox_bind mb ident = mb"

definition SessionMailbox_enqueue :: "SessionMailbox \<Rightarrow> SubscriberId \<Rightarrow> string \<Rightarrow> SessionMailbox" where
  "SessionMailbox_enqueue mb ident message =
     mb\<lparr>queues := (queues mb)(ident \<mapsto> or_empty (queues mb ident) @ [message])\<rparr>"

definition SessionMailbox_try_dequeue ::
    "SessionMailbox \<Rightarrow> SubscriberId \<Rightarrow> (string \<times> SessionMailbox) option" where
  "SessionMailbox_try_dequeue mb ident =
     (case queues mb ident of
        None \<Rightarrow> None
      | Some [] \<Rightarrow> None
      | Some (front # rest) \<Rightarrow> Some (front, mb\<lparr>queues := (queues mb)(ident \<mapsto> rest)\<rparr>))"

definition SessionMailbox_clear :: "SessionMailbox \<Rightarrow> SubscriberId \<Rightarrow> SessionMailbox" where
  "SessionMailbox_clear mb ident = mb\<lparr>queues := (queues mb)(ident := None)\<rparr>"

definition wire_broker_delivery :: "SessionMailbox delivery" where
  "wire_broker_delivery = Some SessionMailbox_enqueue"

definition mailbox_of :: "SessionMailbox \<Rightarrow> SubscriberId \<Rightarrow> string list" where
  "mailbox_of mb ident = or_empty (queues mb ident)"

section \<open>The registry invariant\<close>

definition registry_ok :: "ChannelRegistry \<Rightarrow> bool" where
  "registry_ok r \<longleftrightarrow>
     (\<forall>c s. s \<in> set (ChannelRegistry_subscribers r c) \<longleftrightarrow> c \<in> set (ChannelRegistry_channels_for r s))
     \<and> (\<forall>c. distinct (ChannelRegistry_subscribers r c))
     \<and> (\<forall>s. distinct (ChannelRegistry_channels_for r s))"

inductive registry_step :: "ChannelRegistry \<Rightarrow> ChannelRegistry \<Rightarrow> bool" where
  subscribe: "registry_step r (ChannelRegistry_subscribe r c s)"
| unsubscribe: "registry_step r (ChannelRegistry_unsubscribe r c s)"
| unsubscribe_all: "registry_step r (ChannelRegistry_unsubscribe_all r s)"

inductive_cases registry_stepE: "registry_step r r'"

lemma set_push_unique [simp]: "set (push_unique x xs) = insert x (set xs)"
  by (auto simp: push_unique_def)

lemma distinct_push_unique [simp]: "distinct (push_unique x xs) = distinct xs"
  by (auto simp: push_unique_def)

lemma or_empty_simps [simp]: "or_empty None = []" "or_empty (Some xs) = xs"
  by (simp_all add: or_empty_def)

lemma subscribers_or_empty: "ChannelRegistry_subscribers r c = or_empty (channel_map r c)"
  by (simp add: ChannelRegistry_subscribers_def or_empty_def)

lemma channels_for_or_empty: "ChannelRegistry_channels_for r s = or_empty (subscriber_map r s)"
  by (simp add: ChannelRegistry_channels_for_def or_empty_def)

lemma subscribe_subscribers:
  "ChannelRegistry_subscribers (ChannelRegistry_subscribe r c s) c' =
     (if c' = c then push_unique s (ChannelRegistry_subscribers r c) else ChannelRegistry_subscribers r c')"
  by (simp add: subscribers_or_empty ChannelRegistry_subscribe_def)

lemma subscribe_channels:
  "ChannelRegistry_channels_for (ChannelRegistry_subscribe r c s) s' =
     (if s' = s then push_unique c (ChannelRegistry_channels_for r s) else ChannelRegistry_channels_for r s')"
  by (simp add: channels_for_or_empty ChannelRegistry_subscribe_def)

lemma unsubscribe_subscribers:
  "ChannelRegistry_subscribers (ChannelRegistry_unsubscribe r c s) c' =
     (if c' = c then removeAll s (ChannelRegistry_subscribers r c) else ChannelRegistry_subscribers r c')"
  by (simp add: subscribers_or_empty ChannelRegistry_unsubscribe_def split: option.splits)

lemma unsubscribe_channels:
  "ChannelRegistry_channels_for (ChannelRegistry_unsubscribe r c s) s' =
     (if s' = s then removeAll c (ChannelRegistry_channels_for r s) else ChannelRegistry_channels_for r s')"
  by (simp add: channels_for_or_empty ChannelRegistry_unsubscribe_def split: option.splits)

lemma drop_subscriber_fold:
  "or_empty (foldl (drop_subscriber s) m cs c) = (if c \<in> set cs then removeAll s (or_empty (m c)) else or_empty (m c))"
proof (induction cs arbitrary: m)
  case (Cons x cs)
  then show ?case by (auto simp: drop_subscriber_def split: option.splits)
qed simp

lemma unsubscribe_all_subscribers:
  assumes "registry_ok r"
  shows "ChannelRegistry_subscribers (ChannelRegistry_unsubscribe_all r s) c
     = removeAll s (ChannelRegistry_subscribers r c)"
proof -
  have "c \<notin> set (ChannelRegistry_channels_for r s) \<Longrightarrow> s \<notin> set (ChannelRegistry_subscribers r c)"
    using assms by (auto simp: registry_ok_def)
  then show ?thesis
    by (cases "subscriber_map r s")
      (auto simp: ChannelRegistry_unsubscribe_all_def subscribers_or_empty channels_for_or_empty
        drop_subscriber_fold)
qed

lemma unsubscribe_all_channels:
  "ChannelRegistry_channels_for (ChannelRegistry_unsubscribe_all r s) s'
     = (if s' = s then [] else ChannelRegistry_channels_for r s')"
  by (simp add: channels_for_or_empty ChannelRegistry_unsubscribe_all_def split: option.splits)

lemma registry_ok_new: "registry_ok ChannelRegistry_new"
  by (simp add: registry_ok_def ChannelRegistry_new_def subscribers_or_empty channels_for_or_empty)

lemma registry_ok_subscribe: "registry_ok r \<Longrightarrow> registry_ok (ChannelRegistry_subscribe r c s)"
  by (auto simp: registry_ok_def subscribe_subscribers subscribe_channels)

lemma registry_ok_unsubscribe: "registry_ok r \<Longrightarrow> registry_ok (ChannelRegistry_unsubscribe r c s)"
  by (auto simp: registry_ok_def unsubscribe_subscribers unsubscribe_channels distinct_removeAll)

lemma registry_ok_unsubscribe_all: "registry_ok r \<Longrightarrow> registry_ok (ChannelRegistry_unsubscribe_all r s)"
  using unsubscribe_all_subscribers[of r s] unsubscribe_all_channels[of r s]
  by (auto simp: registry_ok_def distinct_removeAll)

interpretation registry: transition_system "\<lambda>r. r = ChannelRegistry_new" registry_step registry_ok
  by unfold_locales
    (auto simp: registry_ok_new elim!: registry_stepE
      intro: registry_ok_subscribe registry_ok_unsubscribe registry_ok_unsubscribe_all)

section \<open>Delivery\<close>

lemma mailbox_enqueue:
  "mailbox_of (SessionMailbox_enqueue mb i m) j = mailbox_of mb j @ (if j = i then [m] else [])"
  by (simp add: mailbox_of_def SessionMailbox_enqueue_def)

lemma mailbox_fold:
  "distinct is \<Longrightarrow> mailbox_of (foldl (\<lambda>mb i. SessionMailbox_enqueue mb i m) mb is) j
     = mailbox_of mb j @ (if j \<in> set is then [m] else [])"
  by (induction "is" arbitrary: mb) (auto simp: mailbox_enqueue)

lemma publish_delivers:
  assumes "registry_ok r" "PubSubBroker_publish wire_broker_delivery r mb c m = (mb', n)"
  shows "mailbox_of mb' j = mailbox_of mb j @ (if c \<in> set (ChannelRegistry_channels_for r j) then [m] else [])"
    "n = card {s. c \<in> set (ChannelRegistry_channels_for r s)}"
proof -
  have d: "distinct (ChannelRegistry_subscribers r c)" using assms(1) by (simp add: registry_ok_def)
  have s: "set (ChannelRegistry_subscribers r c) = {s. c \<in> set (ChannelRegistry_channels_for r s)}"
    using assms(1) by (auto simp: registry_ok_def)
  show "mailbox_of mb' j = mailbox_of mb j @ (if c \<in> set (ChannelRegistry_channels_for r j) then [m] else [])"
    using assms(2) mailbox_fold[OF d, of m mb j] s
    by (auto simp: PubSubBroker_publish_def wire_broker_delivery_def Let_def)
  show "n = card {s. c \<in> set (ChannelRegistry_channels_for r s)}"
    using assms(2) distinct_card[OF d] s by (auto simp: PubSubBroker_publish_def Let_def)
qed

interpretation mailbox: fifo "\<lambda>mb m. SessionMailbox_enqueue mb i m"
  "\<lambda>mb. SessionMailbox_try_dequeue mb i" "\<lambda>mb. mailbox_of mb i" for i
proof (unfold_locales, goal_cases)
  case (1 mb m)
  show ?case by (simp add: mailbox_enqueue)
next
  case (2 mb)
  then show ?case by (auto simp: mailbox_of_def SessionMailbox_try_dequeue_def or_empty_def split: option.splits)
next
  case (3 mb x xs)
  then show ?case
    by (auto simp: mailbox_of_def SessionMailbox_try_dequeue_def or_empty_def split: option.splits)
qed

section \<open>Properties\<close>

text \<open>
  C34: after any sequence of \<open>subscribe\<close>, \<open>unsubscribe\<close> and \<open>unsubscribe_all\<close> the two maps of
  the registry say the same: a subscriber is listed under a channel just when the channel is
  listed under the subscriber, and no list has a duplicate.
\<close>

theorem registry_maps_agree:
  assumes "registry_step\<^sup>*\<^sup>* ChannelRegistry_new r"
  shows "(s \<in> set (ChannelRegistry_subscribers r c) \<longleftrightarrow> c \<in> set (ChannelRegistry_channels_for r s))
     \<and> distinct (ChannelRegistry_subscribers r c) \<and> distinct (ChannelRegistry_channels_for r s)"
  using registry.inv_reachable[OF refl assms] by (simp add: registry_ok_def)

theorem registry_maps_agree_witness:
  "ChannelRegistry_channels_for (ChannelRegistry_subscribe ChannelRegistry_new ''c'' 1) 1 = [''c'']
     \<and> 1 \<in> set (ChannelRegistry_subscribers (ChannelRegistry_subscribe ChannelRegistry_new ''c'' 1) ''c'')"
proof -
  have "registry_step\<^sup>*\<^sup>* ChannelRegistry_new (ChannelRegistry_subscribe ChannelRegistry_new ''c'' 1)"
    by (intro r_into_rtranclp registry_step.intros)
  moreover have "ChannelRegistry_channels_for (ChannelRegistry_subscribe ChannelRegistry_new ''c'' 1) 1 = [''c'']"
    by (simp add: ChannelRegistry_channels_for_def ChannelRegistry_subscribe_def ChannelRegistry_new_def
        push_unique_def or_empty_def)
  ultimately show ?thesis using registry_maps_agree[of _ 1 "''c''"] by simp
qed

text \<open>
  C35: with the broker wired to the mailboxes, a publication appends the message once to the
  mailbox of every subscriber of the channel and to no other, and returns their number.
\<close>

theorem publish_exactly_once:
  assumes "registry_step\<^sup>*\<^sup>* ChannelRegistry_new r"
    and "PubSubBroker_publish wire_broker_delivery r mb c m = (mb', n)"
  shows "mailbox_of mb' j = mailbox_of mb j @ (if c \<in> set (ChannelRegistry_channels_for r j) then [m] else [])
     \<and> n = card {s. c \<in> set (ChannelRegistry_channels_for r s)}"
  using publish_delivers[OF registry.inv_reachable[OF refl assms(1)] assms(2)] by blast

theorem publish_exactly_once_witness:
  "\<exists>mb' n. PubSubBroker_publish wire_broker_delivery (ChannelRegistry_subscribe ChannelRegistry_new ''c'' 1)
         SessionMailbox_new ''c'' ''hello'' = (mb', n)
     \<and> mailbox_of mb' 1 = [''hello''] \<and> mailbox_of mb' 2 = []"
proof -
  let ?r = "ChannelRegistry_subscribe ChannelRegistry_new ''c'' 1"
  have r: "registry_step\<^sup>*\<^sup>* ChannelRegistry_new ?r" by (intro r_into_rtranclp registry_step.intros)
  have c: "ChannelRegistry_channels_for ?r 1 = [''c'']" "ChannelRegistry_channels_for ?r 2 = []"
    by (simp_all add: ChannelRegistry_channels_for_def ChannelRegistry_subscribe_def ChannelRegistry_new_def
        push_unique_def or_empty_def)
  obtain mb' n where p: "PubSubBroker_publish wire_broker_delivery ?r SessionMailbox_new ''c'' ''hello'' = (mb', n)"
    by (rule prod.exhaust)
  have "mailbox_of SessionMailbox_new j = []" for j
    by (simp add: mailbox_of_def SessionMailbox_new_def or_empty_def)
  then show ?thesis
    using publish_exactly_once[OF r p, of 1] publish_exactly_once[OF r p, of 2] p c by auto
qed

text \<open>
  A mailbox is a queue per subscriber: messages enqueued for a session come out once
  each, in the order they went in.
\<close>

theorem mailbox_first_in_first_out:
  assumes "mailbox_of mb i = []"
  shows "fst (mailbox.drain i (length ms) (foldl (\<lambda>mb m. SessionMailbox_enqueue mb i m) mb ms)) = ms"
  using assms by (rule mailbox.first_in_first_out)

theorem mailbox_first_in_first_out_witness:
  "fst (mailbox.drain 3 2 (SessionMailbox_enqueue (SessionMailbox_enqueue SessionMailbox_new 3 ''a'') 3 ''b''))
     = [''a'', ''b'']"
  using mailbox_first_in_first_out[of SessionMailbox_new 3 "[''a'', ''b'']"]
  by (simp add: mailbox_of_def SessionMailbox_new_def or_empty_def numeral_2_eq_2)

end
