(* ===== verification/Double_Text.thy ===== *)
theory Double_Text
  imports Cxx_Strings
begin

text \<open>
  \<open>operator<<\<close> of an output stream for a non-negative \<open>double\<close>, as the metrics and the benchmark
  use it: the default format, six significant digits, the exact value rounded to nearest
  with ties to even, fixed notation for decimal exponents from -4 to 5 and scientific
  notation outside, trailing zeros dropped. The value is the ratio \<open>n / d\<close>.

  The printed digits are within half a unit of the sixth digit (\<open>six_digits_accurate\<close>), and a
  whole number below a million is printed as it is (\<open>show_ratio_whole\<close>).
\<close>

section \<open>Model\<close>

definition round_div_even :: "nat \<Rightarrow> nat \<Rightarrow> nat" where
  "round_div_even n d =
     (let q = n div d; r = n mod d in if 2 * r > d \<or> (2 * r = d \<and> odd q) then q + 1 else q)"

function exponent_up :: "nat \<Rightarrow> nat \<Rightarrow> nat" where
  "exponent_up n d = (if d = 0 \<or> n < 10 * d then 0 else Suc (exponent_up n (10 * d)))"
  by pat_completeness auto
termination by (relation "measure (\<lambda>(n, d). n - d)") auto

function exponent_down :: "nat \<Rightarrow> nat \<Rightarrow> nat" where
  "exponent_down n d = (if n = 0 \<or> d \<le> n then 0 else Suc (exponent_down (10 * n) d))"
  by pat_completeness auto
termination by (relation "measure (\<lambda>(n, d). d - n)") auto

declare exponent_up.simps [simp del] exponent_down.simps [simp del]

definition six_digits :: "nat \<Rightarrow> nat \<Rightarrow> nat \<times> int" where
  "six_digits n d =
     (let up = exponent_up n d; down = exponent_down n d;
          m = round_div_even (n * 10 ^ (5 + down)) (d * 10 ^ up); e = int up - int down
      in if m = 1000000 then (100000, e + 1) else (m, e))"

definition strip_zeros :: "string \<Rightarrow> string" where
  "strip_zeros ds = rev (dropWhile (\<lambda>c. c = CHR ''0'') (rev ds))"

definition with_fraction :: "string \<Rightarrow> string \<Rightarrow> string" where
  "with_fraction whole frac = whole @ (if frac = [] then [] else CHR ''.'' # frac)"

definition show_fixed :: "nat \<Rightarrow> int \<Rightarrow> string" where
  "show_fixed m e =
     (let ds = show_nat m in
      if e \<ge> 0 then with_fraction (take (nat e + 1) ds) (strip_zeros (drop (nat e + 1) ds))
      else with_fraction ''0'' (strip_zeros (replicate (nat (- e) - 1) (CHR ''0'') @ ds)))"

definition show_scientific :: "nat \<Rightarrow> int \<Rightarrow> string" where
  "show_scientific m e =
     (let ds = show_nat m; x = nat \<bar>e\<bar>
      in with_fraction [hd ds] (strip_zeros (tl ds))
         @ (if e < 0 then ''e-'' else ''e+'') @ (if x < 10 then ''0'' else []) @ show_nat x)"

definition show_ratio :: "nat \<Rightarrow> nat \<Rightarrow> string" where
  "show_ratio n d =
     (if n = 0 then ''0''
      else let (m, e) = six_digits n d in
           if - 4 \<le> e \<and> e < 6 then show_fixed m e else show_scientific m e)"

section \<open>Accuracy\<close>

lemma round_div_even_error:
  assumes "0 < d"
  shows "2 * \<bar>int (round_div_even n d * d) - int n\<bar> \<le> int d"
proof -
  obtain q r where n: "n = q * d + r" and r: "r < d" and qr: "n div d = q" "n mod d = r"
    using assms by (metis div_mult_mod_eq mod_less_divisor)
  show ?thesis
  proof (cases "2 * r > d \<or> (2 * r = d \<and> odd q)")
    case True
    then have "round_div_even n d = q + 1" "2 * r \<ge> d" by (auto simp: round_div_even_def qr Let_def)
    then show ?thesis using n r by (simp add: algebra_simps)
  next
    case False
    then have "round_div_even n d = q" "2 * r \<le> d" by (auto simp: round_div_even_def qr Let_def)
    then show ?thesis using n by simp
  qed
qed

lemma round_div_even_exact: "0 < d \<Longrightarrow> round_div_even (m * d) d = m"
  by (simp add: round_div_even_def)

lemma round_div_even_bounds:
  assumes "0 < d" "a * d \<le> n" "n < b * d"
  shows "a \<le> round_div_even n d" "round_div_even n d \<le> b"
proof -
  have "a \<le> n div d" using assms(1,2) by (simp add: less_eq_div_iff_mult_less_eq)
  then show "a \<le> round_div_even n d" by (simp add: round_div_even_def Let_def)
  have "n div d < b" using assms(1,3) by (simp add: div_less_iff_less_mult)
  then show "round_div_even n d \<le> b" by (simp add: round_div_even_def Let_def)
qed

lemma exponent_up_spec: "0 < d \<Longrightarrow> d \<le> n \<Longrightarrow> d * 10 ^ exponent_up n d \<le> n \<and> n < d * 10 ^ Suc (exponent_up n d)"
proof (induction n d rule: exponent_up.induct)
  case (1 n d)
  show ?case
  proof (cases "n < 10 * d")
    case True
    then show ?thesis using 1(2,3) by (simp add: exponent_up.simps[of n d])
  next
    case False
    then show ?thesis using 1 by (simp add: exponent_up.simps[of n d] algebra_simps)
  qed
qed

lemma exponent_down_spec:
  "0 < n \<Longrightarrow> n < 10 * d \<Longrightarrow> d \<le> n * 10 ^ exponent_down n d \<and> n * 10 ^ exponent_down n d < 10 * d"
proof (induction n d rule: exponent_down.induct)
  case (1 n d)
  show ?case
  proof (cases "d \<le> n")
    case True
    then show ?thesis using 1(2,3) by (simp add: exponent_down.simps[of n d])
  next
    case False
    then show ?thesis using 1 by (simp add: exponent_down.simps[of n d] algebra_simps)
  qed
qed

lemma exponents_spec:
  assumes "0 < n" "0 < d"
  defines "up \<equiv> exponent_up n d" and "down \<equiv> exponent_down n d"
  shows "d * 10 ^ up \<le> n * 10 ^ down \<and> n * 10 ^ down < 10 * (d * 10 ^ up) \<and> (up = 0 \<or> down = 0)"
proof (cases "d \<le> n")
  case True
  then have "down = 0" using assms(1) by (simp add: down_def exponent_down.simps[of n d])
  with exponent_up_spec[OF assms(2) True] show ?thesis by (simp add: up_def algebra_simps)
next
  case False
  then have "up = 0" by (simp add: up_def exponent_up.simps[of n d])
  with exponent_down_spec[of n d] False assms(1) show ?thesis by (simp add: down_def algebra_simps)
qed

lemma six_digits_accurate:
  assumes "0 < n" "0 < d" "six_digits n d = (m, e)"
  shows "100000 \<le> m \<and> m < 1000000 \<and> (\<exists>up down. e - 5 = int up - int down
     \<and> 2 * \<bar>int (m * (d * 10 ^ up)) - int (n * 10 ^ down)\<bar> \<le> int (d * 10 ^ up))"
proof -
  define up where "up = exponent_up n d"
  define down where "down = exponent_down n d"
  define q where "q = round_div_even (n * 10 ^ (5 + down)) (d * 10 ^ up)"
  note spec = exponents_spec[OF assms(1,2), folded up_def down_def]
  have pos: "0 < d * 10 ^ up" using assms(2) by simp
  have q: "100000 \<le> q" "q \<le> 1000000"
    using round_div_even_bounds[OF pos, of 100000 "n * 10 ^ (5 + down)" 1000000] spec
    by (simp_all add: q_def power_add algebra_simps)
  have "2 * \<bar>int (q * (d * 10 ^ up)) - int (n * 10 ^ (5 + down))\<bar> \<le> int (d * 10 ^ up)"
    unfolding q_def by (rule round_div_even_error[OF pos])
  moreover have "(m, e) = (if q = 1000000 then (100000, int up - int down + 1) else (q, int up - int down))"
    unfolding assms(3)[symmetric] by (simp add: six_digits_def Let_def up_def down_def q_def)
  ultimately show ?thesis
  proof (cases "q = 1000000")
    case True
    have "int (100000 * (d * 10 ^ Suc up)) = int (q * (d * 10 ^ up))" "int (d * 10 ^ up) \<le> int (d * 10 ^ Suc up)"
      using True by simp_all
    with True show ?thesis
      using \<open>2 * _ \<le> _\<close> \<open>(m, e) = _\<close> by (intro conjI exI[of _ "Suc up"] exI[of _ "5 + down"]) (simp_all del: of_nat_mult of_nat_power)
  next
    case False
    then show ?thesis
      using q \<open>2 * _ \<le> _\<close> \<open>(m, e) = _\<close> by (intro conjI exI[of _ up] exI[of _ "5 + down"]) simp_all
  qed
qed

section \<open>Whole numbers\<close>

lemma show_nat_times_10: "0 < n \<Longrightarrow> show_nat (n * 10) = show_nat n @ [digit_char 0]"
  by (simp add: show_nat.simps[of "n * 10"])

lemma digit_char_0 [simp]: "digit_char 0 = CHR ''0''"
  by (simp add: digit_char_def char_of_def bit_Suc_0_iff)

lemma show_nat_zeros: "0 < n \<Longrightarrow> show_nat (n * 10 ^ k) = show_nat n @ replicate k (CHR ''0'')"
proof (induction k)
  case (Suc k)
  have "show_nat (n * 10 ^ k * 10) = show_nat (n * 10 ^ k) @ [CHR ''0'']" using Suc.prems by (subst show_nat_times_10) simp_all
  then show ?case using Suc by (simp add: replicate_append_same ac_simps)
qed simp

lemma length_show_nat: "10 ^ k \<le> n \<Longrightarrow> n < 10 ^ Suc k \<Longrightarrow> length (show_nat n) = Suc k"
proof (induction k arbitrary: n)
  case 0
  then show ?case by (simp add: show_nat.simps[of n])
next
  case (Suc k)
  have "length (show_nat (n div 10)) = Suc k" using Suc.prems by (intro Suc.IH) auto
  moreover have "\<not> n < 10" using Suc.prems(1) by (simp add: not_less order_trans[OF _ Suc.prems(1)])
  ultimately show ?case by (simp add: show_nat.simps[of n])
qed

lemma strip_zeros_replicate [simp]: "strip_zeros (replicate k (CHR ''0'')) = []"
  by (simp add: strip_zeros_def dropWhile_eq_Nil_conv)

lemma show_ratio_whole:
  assumes "n < 1000000"
  shows "show_ratio n 1 = show_nat n"
proof (cases "n = 0")
  case False
  let ?e = "exponent_up n 1"
  have down: "exponent_down n 1 = 0" using False by (subst exponent_down.simps) simp
  have up: "10 ^ ?e \<le> n" "n < 10 ^ Suc ?e" using exponent_up_spec[of 1 n] False by simp_all
  then have "(10 :: nat) ^ ?e < 10 ^ 6" using assms by simp
  then have e: "?e \<le> 5" using power_less_imp_less_exp[of "10 :: nat" ?e 6] by simp
  let ?m = "n * 10 ^ (5 - ?e)"
  have "n * 10 ^ 5 = ?m * 10 ^ ?e" using e by (simp add: power_add[symmetric] mult.assoc)
  then have m: "round_div_even (n * 10 ^ 5) (10 ^ ?e) = ?m" by (simp only: round_div_even_exact zero_less_power zero_less_numeral)
  have "?m < 10 ^ Suc ?e * 10 ^ (5 - ?e)" using up(2) by simp
  also have "(10 :: nat) ^ Suc ?e * 10 ^ (5 - ?e) = 10 ^ 6" using e by (simp only: power_add[symmetric]) simp
  finally have "six_digits n 1 = (?m, int ?e)" using m down by (simp add: six_digits_def Let_def)
  moreover have "show_fixed ?m (int ?e) = show_nat n"
    using length_show_nat[OF up] False by (simp add: show_fixed_def show_nat_zeros with_fraction_def)
  ultimately show ?thesis using False e by (simp add: show_ratio_def)
qed (simp add: show_ratio_def show_nat.simps[of 0])

end
