(* ===== verification/Services.thy ===== *)
theory Services
  imports Double_Text Float_Load
begin

text \<open>
  The small stateful services around the store: metrics (src/monitor/metrics.cpp), the
  password gate (src/security/auth_gate.cpp), server configuration from the environment
  and the command line (src/config.cpp, src/main.cpp), run-time configuration
  (src/config/runtime_config.cpp) and the logger (src/util/logger.cpp).

  Counters of type \<open>std::size_t\<close> are 64-bit words and wrap. \<open>commands_per_sec\<close> is a
  \<open>double\<close> that only ever holds a converted \<open>size_t\<close>: it is the natural number of that
  value, rounded to 53 bits, and printed by \<open>operator<<\<close> in the default format (six
  significant digits, scientific from a million on). The environment is a partial
  function; \<open>atoi\<close> and \<open>atol\<close> are undefined out of range, \<open>Inl Out_of_range\<close> here.
\<close>

section \<open>Metrics\<close>

record ServerMetrics =
  sm_memory_bytes :: "64 word"
  sm_active_clients :: "64 word"
  sm_commands_processed :: "64 word"
  sm_keys_stored :: "64 word"
  sm_commands_per_sec :: nat

record MetricsCollector =
  commands :: "64 word"
  active_clients :: "64 word"
  keys_stored :: "64 word"
  memory_bytes :: "64 word"
  window_commands :: "64 word"
  commands_per_sec :: nat

definition MetricsCollector_new :: MetricsCollector where
  "MetricsCollector_new =
     \<lparr>commands = 0, active_clients = 0, keys_stored = 0, memory_bytes = 0, window_commands = 0,
      commands_per_sec = 0\<rparr>"

definition MetricsCollector_record_command :: "MetricsCollector \<Rightarrow> MetricsCollector" where
  "MetricsCollector_record_command m =
     m\<lparr>commands := commands m + 1, window_commands := window_commands m + 1\<rparr>"

definition MetricsCollector_set_active_clients :: "MetricsCollector \<Rightarrow> 64 word \<Rightarrow> MetricsCollector" where
  "MetricsCollector_set_active_clients m count = m\<lparr>active_clients := count\<rparr>"

definition MetricsCollector_set_keys_stored :: "MetricsCollector \<Rightarrow> 64 word \<Rightarrow> MetricsCollector" where
  "MetricsCollector_set_keys_stored m count = m\<lparr>keys_stored := count\<rparr>"

definition MetricsCollector_set_memory_bytes :: "MetricsCollector \<Rightarrow> 64 word \<Rightarrow> MetricsCollector" where
  "MetricsCollector_set_memory_bytes m bytes = m\<lparr>memory_bytes := bytes\<rparr>"

definition double_of_size :: "64 word \<Rightarrow> nat" where
  "double_of_size w = round_bits 53 (unat w)"

definition MetricsCollector_tick_throughput :: "MetricsCollector \<Rightarrow> MetricsCollector" where
  "MetricsCollector_tick_throughput m =
     m\<lparr>commands_per_sec := double_of_size (window_commands m), window_commands := 0\<rparr>"

definition MetricsCollector_snapshot :: "MetricsCollector \<Rightarrow> ServerMetrics" where
  "MetricsCollector_snapshot m =
     \<lparr>sm_memory_bytes = memory_bytes m, sm_active_clients = active_clients m,
      sm_commands_processed = commands m, sm_keys_stored = keys_stored m,
      sm_commands_per_sec = commands_per_sec m\<rparr>"

definition show_size :: "64 word \<Rightarrow> string" where
  "show_size w = show_nat (unat w)"

definition show_double :: "nat \<Rightarrow> string" where
  "show_double n = show_ratio n 1"

definition MetricsCollector_render_info :: "MetricsCollector \<Rightarrow> string" where
  "MetricsCollector_render_info mc =
     (let metrics = MetricsCollector_snapshot mc in
      ''+INFO voltdbx'' @ [newline]
      @ ''memory_bytes:'' @ show_size (sm_memory_bytes metrics) @ [newline]
      @ ''active_clients:'' @ show_size (sm_active_clients metrics) @ [newline]
      @ ''commands_processed:'' @ show_size (sm_commands_processed metrics) @ [newline]
      @ ''keys_stored:'' @ show_size (sm_keys_stored metrics) @ [newline]
      @ ''commands_per_sec:'' @ show_double (sm_commands_per_sec metrics) @ [newline])"

section \<open>Password gate\<close>

record AuthGate =
  password :: string

definition AuthGate_enabled :: "AuthGate \<Rightarrow> bool" where
  "AuthGate_enabled g \<longleftrightarrow> password g \<noteq> []"

definition AuthGate_authenticate :: "AuthGate \<Rightarrow> string \<Rightarrow> bool" where
  "AuthGate_authenticate g pw = (if \<not> AuthGate_enabled g then True else password g = pw)"

definition AuthGate_set_password :: "AuthGate \<Rightarrow> string \<Rightarrow> AuthGate" where
  "AuthGate_set_password g pw = g\<lparr>password := pw\<rparr>"

definition AuthGate_masked_password_hint :: "AuthGate \<Rightarrow> string" where
  "AuthGate_masked_password_hint g =
     (if password g = [] then [] else replicate (length (password g)) (CHR ''*''))"

section \<open>Configuration\<close>

record ServerConfig =
  host :: string
  port :: "16 word"
  max_clients :: "64 word"
  data_dir :: string
  snapshot_interval_sec :: "32 word"
  requirepass :: string

definition ServerConfig_default :: ServerConfig where
  "ServerConfig_default =
     \<lparr>host = ''127.0.0.1'', port = 6379, max_clients = 1024, data_dir = ''./data'',
      snapshot_interval_sec = 300, requirepass = []\<rparr>"

type_synonym environment = "string \<rightharpoonup> string"

definition env_or :: "environment \<Rightarrow> string \<Rightarrow> string \<Rightarrow> string" where
  "env_or env key fallback =
     (case env key of None \<Rightarrow> fallback | Some v \<Rightarrow> if length v > 0 then v else fallback)"

definition strtol :: "string \<Rightarrow> int" where
  "strtol s = (let (neg, ds) = scan_number s
               in if neg then - int (digits_val ds) else int (digits_val ds))"

definition atoi :: "string \<Rightarrow> int res" where
  "atoi s = (let v = strtol s in if v < - (2 ^ 31) \<or> v > 2 ^ 31 - 1 then Inl Out_of_range else Inr v)"

definition atol :: "string \<Rightarrow> int res" where
  "atol s = (let v = strtol s in if v < - (2 ^ 63) \<or> v > 2 ^ 63 - 1 then Inl Out_of_range else Inr v)"

definition if_set :: "string option \<Rightarrow> (string \<Rightarrow> 'c \<Rightarrow> 'c res) \<Rightarrow> 'c \<Rightarrow> 'c res" where
  "if_set v f c = (case v of None \<Rightarrow> Inr c | Some s \<Rightarrow> f s c)"

definition set_port :: "string \<Rightarrow> ServerConfig \<Rightarrow> ServerConfig res" where
  "set_port s cfg = bind_res (atoi s) (\<lambda>v. Inr (cfg\<lparr>port := word_of_int v\<rparr>))"

definition set_max_clients :: "string \<Rightarrow> ServerConfig \<Rightarrow> ServerConfig res" where
  "set_max_clients s cfg = bind_res (atol s) (\<lambda>v. Inr (cfg\<lparr>max_clients := word_of_int v\<rparr>))"

definition set_interval :: "string \<Rightarrow> ServerConfig \<Rightarrow> ServerConfig res" where
  "set_interval s cfg = bind_res (atoi s) (\<lambda>v. Inr (cfg\<lparr>snapshot_interval_sec := word_of_int v\<rparr>))"

definition load_config_from_env :: "environment \<Rightarrow> ServerConfig res" where
  "load_config_from_env env =
     (let cfg = ServerConfig_default\<lparr>host := env_or env ''VOLTDBX_HOST'' (host ServerConfig_default)\<rparr> in
      bind_res (if_set (env ''VOLTDBX_PORT'') set_port cfg) (\<lambda>cfg.
      bind_res (if_set (env ''VOLTDBX_MAX_CLIENTS'') set_max_clients cfg) (\<lambda>cfg.
      let cfg = cfg\<lparr>data_dir := env_or env ''VOLTDBX_DATA_DIR'' (data_dir cfg),
                    requirepass := env_or env ''VOLTDBX_REQUIREPASS'' []\<rparr>
      in if_set (env ''VOLTDBX_SNAPSHOT_INTERVAL_SEC'') set_interval cfg)))"

datatype main_action = Print_health | Print_usage | Run_server ServerConfig

fun main_args :: "string list \<Rightarrow> ServerConfig \<Rightarrow> main_action res" where
  "main_args [] cfg = Inr (Run_server cfg)"
| "main_args (arg # rest) cfg =
     (if arg = ''--health'' then Inr Print_health
      else if arg = ''--help'' then Inr Print_usage
      else case rest of
        [] \<Rightarrow> main_args [] cfg
      | v # rest' \<Rightarrow>
          if arg = ''--host'' then main_args rest' (cfg\<lparr>host := v\<rparr>)
          else if arg = ''--port'' then bind_res (set_port v cfg) (main_args rest')
          else if arg = ''--data-dir'' then main_args rest' (cfg\<lparr>data_dir := v\<rparr>)
          else if arg = ''--max-clients'' then bind_res (set_max_clients v cfg) (main_args rest')
          else main_args rest cfg)"

record RuntimeConfig =
  defaults :: ServerConfig
  overrides :: "string \<rightharpoonup> string"

definition RuntimeConfig_new :: "ServerConfig \<Rightarrow> RuntimeConfig" where
  "RuntimeConfig_new cfg = \<lparr>defaults = cfg, overrides = Map.empty\<rparr>"

definition RuntimeConfig_get :: "RuntimeConfig \<Rightarrow> string \<Rightarrow> string option" where
  "RuntimeConfig_get c key =
     (case overrides c key of
        Some v \<Rightarrow> Some v
      | None \<Rightarrow>
          if key = ''host'' then Some (host (defaults c))
          else if key = ''port'' then Some (show_nat (unat (port (defaults c))))
          else if key = ''max_clients'' then Some (show_nat (unat (max_clients (defaults c))))
          else if key = ''data_dir'' then Some (data_dir (defaults c))
          else if key = ''snapshot_interval_sec'' then
            Some (show_nat (unat (snapshot_interval_sec (defaults c))))
          else if key = ''requirepass'' then Some (requirepass (defaults c))
          else None)"

definition RuntimeConfig_set :: "RuntimeConfig \<Rightarrow> string \<Rightarrow> string \<Rightarrow> RuntimeConfig \<times> bool" where
  "RuntimeConfig_set c key value =
     (if key = ''requirepass'' \<or> key = ''data_dir'' \<or> key = ''host'' then
        (c\<lparr>overrides := (overrides c)(key \<mapsto> value)\<rparr>, True)
      else if key = ''max_clients'' \<or> key = ''port'' \<or> key = ''snapshot_interval_sec'' then
        (c\<lparr>overrides := (overrides c)(key \<mapsto> value)\<rparr>, True)
      else (c, False))"

definition deref :: "'a option \<Rightarrow> 'a res" where
  "deref x = (case x of None \<Rightarrow> Inl Bad_optional | Some v \<Rightarrow> Inr v)"

definition config_keys :: "string list" where
  "config_keys = [''host'', ''port'', ''max_clients'', ''data_dir'', ''snapshot_interval_sec'', ''requirepass'']"

definition RuntimeConfig_dump :: "RuntimeConfig \<Rightarrow> string res" where
  "RuntimeConfig_dump c =
     fold_res (\<lambda>out key. bind_res (deref (RuntimeConfig_get c key))
                 (\<lambda>v. Inr (out @ key @ ''='' @ v @ [newline])))
       config_keys []"

section \<open>Logger\<close>

datatype LogLevel = Debug | Info | Warn | Error

fun level_rank :: "LogLevel \<Rightarrow> nat" where
  "level_rank Debug = 0"
| "level_rank Info = 1"
| "level_rank Warn = 2"
| "level_rank Error = 3"

instantiation LogLevel :: linorder
begin

definition less_eq_LogLevel :: "LogLevel \<Rightarrow> LogLevel \<Rightarrow> bool" where
  "less_eq_LogLevel a b \<longleftrightarrow> level_rank a \<le> level_rank b"

definition less_LogLevel :: "LogLevel \<Rightarrow> LogLevel \<Rightarrow> bool" where
  "less_LogLevel a b \<longleftrightarrow> level_rank a < level_rank b"

lemma level_rank_inj: "level_rank a = level_rank b \<longleftrightarrow> a = b"
  by (cases a; cases b) simp_all

instance
  by standard (auto simp: less_eq_LogLevel_def less_LogLevel_def level_rank_inj[symmetric])

end

record logger =
  g_level :: LogLevel
  stderr_out :: "string list"

definition parse_level :: "string option \<Rightarrow> LogLevel" where
  "parse_level s =
     (case s of
        None \<Rightarrow> Info
      | Some v \<Rightarrow> if v = ''debug'' then Debug else if v = ''warn'' then Warn
                  else if v = ''error'' then Error else Info)"

definition emit :: "logger \<Rightarrow> string \<Rightarrow> string \<Rightarrow> logger" where
  "emit l tag msg = l\<lparr>stderr_out := stderr_out l @ [''['' @ tag @ ''] '' @ msg]\<rparr>"

definition set_log_level :: "logger \<Rightarrow> LogLevel \<Rightarrow> logger" where
  "set_log_level l level = l\<lparr>g_level := level\<rparr>"

definition current_log_level :: "logger \<Rightarrow> LogLevel" where
  "current_log_level l = g_level l"

definition log_info :: "logger \<Rightarrow> string \<Rightarrow> logger" where
  "log_info l msg = (if g_level l \<le> Info then emit l ''info'' msg else l)"

definition log_warn :: "logger \<Rightarrow> string \<Rightarrow> logger" where
  "log_warn l msg = (if g_level l \<le> Warn then emit l ''warn'' msg else l)"

definition log_error :: "logger \<Rightarrow> string \<Rightarrow> logger" where
  "log_error l msg = emit l ''error'' msg"

section \<open>Lemmas\<close>

lemma record_commands:
  "commands ((MetricsCollector_record_command ^^ n) m) = commands m + of_nat n"
  "window_commands ((MetricsCollector_record_command ^^ n) m) = window_commands m + of_nat n"
  by (induction n) (simp_all add: MetricsCollector_record_command_def)

lemma authenticate_iff: "AuthGate_authenticate g pw \<longleftrightarrow> password g = [] \<or> pw = password g"
  by (auto simp: AuthGate_authenticate_def AuthGate_enabled_def)

lemma config_set_known: "RuntimeConfig_set c key v =
    (if key \<in> set config_keys then (c\<lparr>overrides := (overrides c)(key \<mapsto> v)\<rparr>, True) else (c, False))"
  by (auto simp: RuntimeConfig_set_def config_keys_def)

lemma config_get_known: "key \<in> set config_keys \<Longrightarrow> RuntimeConfig_get c key \<noteq> None"
  by (auto simp: RuntimeConfig_get_def config_keys_def split: option.splits)

lemma config_dump_total: "\<exists>out. RuntimeConfig_dump c = Inr out"
proof -
  have "\<exists>out. fold_res (\<lambda>out key. bind_res (deref (RuntimeConfig_get c key))
      (\<lambda>v. Inr (out @ key @ ''='' @ v @ [newline]))) keys acc = Inr out"
    if "set keys \<subseteq> set config_keys" for keys acc
    using that
  proof (induction keys arbitrary: acc)
    case (Cons k keys)
    then obtain v where "RuntimeConfig_get c k = Some v" using config_get_known by fastforce
    with Cons show ?case by (simp add: deref_def)
  qed simp
  then show ?thesis by (simp add: RuntimeConfig_dump_def)
qed

section \<open>Properties\<close>

text \<open>
  \<open>CONFIG SET\<close> accepts exactly the six known keys and \<open>CONFIG GET\<close> then returns what was
  set; an unknown key changes nothing and has no value; \<open>dump\<close> never dereferences an empty
  optional.
\<close>

theorem runtime_config_spec:
  "(let (c', ok) = RuntimeConfig_set c key v in
      ok = (key \<in> set config_keys) \<and> (if ok then RuntimeConfig_get c' key = Some v else c' = c)
      \<and> (\<forall>k. k \<noteq> key \<longrightarrow> RuntimeConfig_get c' k = RuntimeConfig_get c k))
   \<and> (\<exists>out. RuntimeConfig_dump c = Inr out)"
proof -
  have "let (c', ok) = RuntimeConfig_set c key v in
      ok = (key \<in> set config_keys) \<and> (if ok then RuntimeConfig_get c' key = Some v else c' = c)
      \<and> (\<forall>k. k \<noteq> key \<longrightarrow> RuntimeConfig_get c' k = RuntimeConfig_get c k)"
    by (simp add: config_set_known RuntimeConfig_get_def cong: option.case_cong)
  then show ?thesis using config_dump_total by blast
qed

theorem runtime_config_spec_witness:
  "(let (c', ok) = RuntimeConfig_set (RuntimeConfig_new ServerConfig_default) ''port'' ''7000'' in
      ok \<and> RuntimeConfig_get c' ''port'' = Some ''7000'' \<and> RuntimeConfig_get c' ''host'' = Some ''127.0.0.1'')"
proof -
  let ?c = "RuntimeConfig_new ServerConfig_default"
  obtain c' ok where r: "RuntimeConfig_set ?c ''port'' ''7000'' = (c', ok)" by (rule prod.exhaust)
  have "RuntimeConfig_get ?c ''host'' = Some ''127.0.0.1''"
    by (simp add: RuntimeConfig_get_def RuntimeConfig_new_def ServerConfig_default_def)
  with runtime_config_spec[of ?c "''port''" "''7000''"] show ?thesis
    unfolding r by (simp add: config_keys_def)
qed


end
