(* ===== verification/Dispatcher.thy ===== *)
theory Dispatcher
  imports Protocol Persistence Pubsub Services
begin

text \<open>
  \<open>CommandDispatcher\<close> of src/protocol/dispatcher.cpp with the handlers it registers
  (src/protocol/aof_handler.cpp, auth_handler.cpp, batch_handler.cpp, config_handler.cpp,
  counter_handler.cpp, flush_handler.cpp, scan_handler.cpp).

  The references the dispatcher holds are the fields of one record; what a command reads
  from outside (the hash function, the successive readings of the clock, the outcomes of
  file operations, the delivery callback of the broker) is the record \<open>call_env\<close>.
  \<open>register_builtin_handlers\<close> is the table \<open>handlers_\<close>, a partial function. The
  commands that touch the store implement the specification \<open>spec_command\<close>, a map from
  keys to values (\<open>dispatch_refines\<close>).
\<close>

section \<open>State\<close>

record call_env =
  env_hash :: hash
  env_clock :: "nat \<Rightarrow> int"
  env_io :: io_env
  env_delivery :: "SessionMailbox delivery"

record CommandDispatcher =
  storage :: StorageEngine
  channels :: ChannelRegistry
  mailboxes :: SessionMailbox
  metrics :: MetricsCollector
  auth :: AuthGate
  runtime :: RuntimeConfig
  aof_log :: AofLog
  files :: disk

type_synonym handler = "CommandDispatcher \<Rightarrow> ParsedCommand \<Rightarrow> (CommandDispatcher \<times> string) res"

definition CommandDispatcher_new :: "ServerConfig \<Rightarrow> AofLog \<Rightarrow> disk \<Rightarrow> CommandDispatcher" where
  "CommandDispatcher_new cfg a fs =
     \<lparr>storage = StorageEngine_new, channels = ChannelRegistry_new, mailboxes = SessionMailbox_new,
      metrics = MetricsCollector_new, auth = \<lparr>password = requirepass cfg\<rparr>,
      runtime = RuntimeConfig_new cfg, aof_log = a, files = fs\<rparr>"

text \<open>A dispatcher that has just been made over empty files, and a call in which every file operation succeeds.\<close>

abbreviation new_dispatcher :: CommandDispatcher where
  "new_dispatcher \<equiv> CommandDispatcher_new ServerConfig_default \<lparr>stream_open = True\<rparr>
     \<lparr>aof_file = None, rewrite_file = None, snapshot_file = None\<rparr>"

abbreviation quiet_env :: call_env where
  "quiet_env \<equiv> \<lparr>env_hash = \<lambda>_. 0, env_clock = \<lambda>_. 0,
     env_io = \<lparr>temp_open_ok = True, remove_ok = True, rename_ok = True, log_open_ok = True\<rparr>, env_delivery = None\<rparr>"

definition long_long_of_size :: "nat \<Rightarrow> int" where
  "long_long_of_size n = sint (of_nat n :: 64 word)"

section \<open>Handlers in files of their own\<close>

definition handle_bgrewriteaof :: "io_env \<Rightarrow> disk \<Rightarrow> AofLog \<Rightarrow> StorageEngine \<Rightarrow> (disk \<times> AofLog) \<times> string" where
  "handle_bgrewriteaof io d a s =
     (let before = AofLog_bytes_on_disk d;
          (d', a', ok) = AofLog_rewrite_from io d a s in
      if \<not> ok then ((d', a'), err_response ''aof rewrite failed'')
      else ((d', a'), ''+OK rewritten bytes_before='' @ show_nat before
              @ '' bytes_after='' @ show_nat (AofLog_bytes_on_disk d')))"

definition handle_auth :: "ParsedCommand \<Rightarrow> AuthGate \<Rightarrow> string" where
  "handle_auth cmd gate =
     (case cmd_args cmd of
        [pw] \<Rightarrow> if AuthGate_authenticate gate pw then ok_response else err_response ''invalid password''
      | _ \<Rightarrow> err_response ''wrong number of arguments for AUTH'')"

definition mget_reply :: "string option list \<Rightarrow> string" where
  "mget_reply values =
     ''*'' @ show_nat (length values) @ crlf
     @ concat (map (\<lambda>v. (case v of None \<Rightarrow> null_bulk_response | Some x \<Rightarrow> bulk_string_response x) @ crlf) values)"

definition handle_mget :: "hash \<Rightarrow> (nat \<Rightarrow> int) \<Rightarrow> ParsedCommand \<Rightarrow> StorageEngine \<Rightarrow> string" where
  "handle_mget h clock cmd s =
     (if cmd_args cmd = [] then err_response ''wrong number of arguments for MGET''
      else mget_reply (BatchOperations_mget h clock s (cmd_args cmd)))"

fun arg_pairs :: "string list \<Rightarrow> BatchSetPair list" where
  "arg_pairs (k # v # rest) = \<lparr>pair_key = k, pair_value = v\<rparr> # arg_pairs rest"
| "arg_pairs _ = []"

definition handle_mset :: "hash \<Rightarrow> ParsedCommand \<Rightarrow> StorageEngine \<Rightarrow> (StorageEngine \<times> string) res" where
  "handle_mset h cmd s =
     (if length (cmd_args cmd) < 2 \<or> length (cmd_args cmd) mod 2 \<noteq> 0
      then Inr (s, err_response ''wrong number of arguments for MSET'')
      else bind_res (BatchOperations_mset h s (arg_pairs (cmd_args cmd))) (\<lambda>(s', _). Inr (s', ok_response)))"

definition handle_config :: "ParsedCommand \<Rightarrow> RuntimeConfig \<Rightarrow> (RuntimeConfig \<times> string) res" where
  "handle_config cmd rt =
     (case cmd_args cmd of
        [] \<Rightarrow> bind_res (RuntimeConfig_dump rt) (\<lambda>text. Inr (rt, bulk_string_response text))
      | sub # rest \<Rightarrow>
          if sub = ''GET'' \<and> length rest = 1 then
            (case RuntimeConfig_get rt (rest ! 0) of
               None \<Rightarrow> Inr (rt, err_response ''unknown config key'')
             | Some value \<Rightarrow> Inr (rt, bulk_string_response value))
          else if sub = ''SET'' \<and> length rest = 2 then
            (let (rt', ok) = RuntimeConfig_set rt (rest ! 0) (rest ! 1) in
             if \<not> ok then Inr (rt', err_response ''unsupported config key'') else Inr (rt', ok_response))
          else Inr (rt, err_response ''unsupported CONFIG subcommand''))"

definition handle_incr :: "hash \<Rightarrow> int \<Rightarrow> ParsedCommand \<Rightarrow> StorageEngine \<Rightarrow> (StorageEngine \<times> string) res" where
  "handle_incr h now cmd s =
     (case cmd_args cmd of
        [key] \<Rightarrow> bind_res (CounterStore_increment h now s key 1) (\<lambda>(s', n). Inr (s', integer_response n))
      | _ \<Rightarrow> Inr (s, err_response ''wrong number of arguments for INCR''))"

definition handle_decr :: "hash \<Rightarrow> int \<Rightarrow> ParsedCommand \<Rightarrow> StorageEngine \<Rightarrow> (StorageEngine \<times> string) res" where
  "handle_decr h now cmd s =
     (case cmd_args cmd of
        [key] \<Rightarrow> bind_res (CounterStore_decrement h now s key 1) (\<lambda>(s', n). Inr (s', integer_response n))
      | _ \<Rightarrow> Inr (s, err_response ''wrong number of arguments for DECR''))"

definition handle_incrby :: "hash \<Rightarrow> int \<Rightarrow> ParsedCommand \<Rightarrow> StorageEngine \<Rightarrow> (StorageEngine \<times> string) res" where
  "handle_incrby h now cmd s =
     (case cmd_args cmd of
        [key, by_text] \<Rightarrow>
          bind_res (stoll by_text) (\<lambda>delta.
          bind_res (CounterStore_increment h now s key delta) (\<lambda>(s', n). Inr (s', integer_response n)))
      | _ \<Rightarrow> Inr (s, err_response ''wrong number of arguments for INCRBY''))"

definition handle_flushdb :: "StorageEngine \<Rightarrow> StorageEngine \<times> string" where
  "handle_flushdb s = (StorageEngine_clear_all s, ok_response)"

definition handle_dbsize :: "StorageEngine \<Rightarrow> string" where
  "handle_dbsize s = integer_response (long_long_of_size (StorageEngine_entry_count s))"

section \<open>The SCAN command\<close>

definition decode_scan_cursor :: "string \<Rightarrow> ScanCursor res" where
  "decode_scan_cursor token =
     (if token = [] \<or> token = ''0'' then Inr (ScanCursor 0 0)
      else case find_char (CHR '':'') token of
        None \<Rightarrow> bind_res (stoull token) (\<lambda>b. Inr (ScanCursor b 0))
      | Some sep \<Rightarrow>
          bind_res (stoull (take sep token)) (\<lambda>b.
          bind_res (stoull (drop (sep + 1) token)) (\<lambda>c. Inr (ScanCursor b c))))"

definition encode_scan_cursor :: "ScanCursor \<Rightarrow> string" where
  "encode_scan_cursor c =
     (if cur_bucket c = 0 \<and> cur_chain c = 0 then ''0''
      else show_nat (cur_bucket c) @ '':'' @ show_nat (cur_chain c))"

fun scan_options :: "string list \<Rightarrow> nat \<Rightarrow> string \<Rightarrow> (nat \<times> string) res" where
  "scan_options (opt # v # rest) count pattern =
     (if opt = ''COUNT'' then bind_res (stoull v) (\<lambda>n. scan_options rest n pattern)
      else if opt = ''MATCH'' then scan_options rest count v
      else scan_options (v # rest) count pattern)"
| "scan_options _ count pattern = Inr (count, pattern)"

definition scan_reply :: "ScanPage \<Rightarrow> string" where
  "scan_reply page =
     (let next = (if page_finished page then ''0'' else encode_scan_cursor (page_next page)) in
      ''*2'' @ crlf @ bulk_string_response next @ crlf
      @ ''*'' @ show_nat (length (page_keys page)) @ crlf
      @ concat (map (\<lambda>k. bulk_string_response k @ crlf) (page_keys page)))"

definition handle_scan :: "ParsedCommand \<Rightarrow> StorageEngine \<Rightarrow> string res" where
  "handle_scan cmd s =
     (case cmd_args cmd of
        [] \<Rightarrow> Inr (err_response ''wrong number of arguments for SCAN'')
      | token # opts \<Rightarrow>
          bind_res (decode_scan_cursor token) (\<lambda>cursor.
          bind_res (scan_options opts 10 ''*'') (\<lambda>(count, pattern).
          Inr (scan_reply (StorageEngine_scan_keys s cursor count pattern)))))"

section \<open>Handlers written in the dispatcher\<close>

definition info_handler :: handler where
  "info_handler d cmd =
     (let m = MetricsCollector_set_keys_stored (metrics d) (of_nat (StorageEngine_entry_count (storage d)))
      in Inr (d\<lparr>metrics := m\<rparr>, MetricsCollector_render_info m))"

definition get_handler :: "call_env \<Rightarrow> handler" where
  "get_handler env d cmd =
     (case cmd_args cmd of
        [key] \<Rightarrow>
          (case StorageEngine_get (env_hash env) (env_clock env 0) (storage d) key of
             None \<Rightarrow> Inr (d, null_bulk_response)
           | Some value \<Rightarrow> Inr (d, bulk_string_response value))
      | _ \<Rightarrow> Inr (d, err_response ''wrong number of arguments for GET''))"

definition delete_handler :: "call_env \<Rightarrow> handler" where
  "delete_handler env d cmd =
     (case cmd_args cmd of
        [key] \<Rightarrow>
          (let (s, removed) = StorageEngine_remove (env_hash env) (storage d) key
           in Inr (d\<lparr>storage := s\<rparr>, integer_response (if removed then 1 else 0)))
      | _ \<Rightarrow> Inr (d, err_response ''wrong number of arguments for DELETE''))"

definition exists_handler :: "call_env \<Rightarrow> handler" where
  "exists_handler env d cmd =
     (if cmd_args cmd = [] then Inr (d, err_response ''wrong number of arguments for EXISTS'')
      else Inr (d, integer_response
             (foldl (\<lambda>count key. if StorageEngine_exists (env_hash env) (storage d) key then count + 1 else count)
                0 (cmd_args cmd))))"

definition subscribe_handler :: handler where
  "subscribe_handler d cmd =
     (case cmd_args cmd of
        [channel] \<Rightarrow>
          Inr (d\<lparr>channels := PubSubBroker_register_subscriber (channels d) 1 channel\<rparr>,
               ok_response @ '' subscribed '' @ channel)
      | _ \<Rightarrow> Inr (d, err_response ''wrong number of arguments for SUBSCRIBE''))"

definition publish_handler :: "call_env \<Rightarrow> handler" where
  "publish_handler env d cmd =
     (case cmd_args cmd of
        channel # word # words \<Rightarrow>
          (let message = join_words (word # words);
               (mb, delivered) =
                  PubSubBroker_publish (env_delivery env) (channels d) (mailboxes d) channel message
           in Inr (d\<lparr>mailboxes := mb\<rparr>, integer_response (long_long_of_size delivered)))
      | _ \<Rightarrow> Inr (d, err_response ''wrong number of arguments for PUBLISH''))"

definition expire_handler :: "call_env \<Rightarrow> handler" where
  "expire_handler env d cmd =
     (case cmd_args cmd of
        [key, ttl] \<Rightarrow>
          bind_res (stoll ttl) (\<lambda>seconds.
          bind_res (StorageEngine_set_ttl (env_hash env) (env_clock env 0) (storage d) key seconds)
            (\<lambda>(s, ok). Inr (d\<lparr>storage := s\<rparr>, integer_response (if \<not> ok then 0 else 1))))
      | _ \<Rightarrow> Inr (d, err_response ''wrong number of arguments for EXPIRE''))"

definition set_handler :: "call_env \<Rightarrow> handler" where
  "set_handler env d cmd =
     (case cmd_args cmd of
        key # word # words \<Rightarrow>
          bind_res (StorageEngine_set (env_hash env) (storage d) key (join_words (word # words)))
            (\<lambda>(s, _). Inr (d\<lparr>storage := s\<rparr>, ok_response))
      | _ \<Rightarrow> Inr (d, err_response ''wrong number of arguments for SET''))"

definition on_storage :: "(StorageEngine \<Rightarrow> (StorageEngine \<times> string) res) \<Rightarrow> CommandDispatcher \<Rightarrow> (CommandDispatcher \<times> string) res" where
  "on_storage f d = bind_res (f (storage d)) (\<lambda>(s, reply). Inr (d\<lparr>storage := s\<rparr>, reply))"

fun register_builtin_handlers :: "call_env \<Rightarrow> CommandType \<Rightarrow> handler option" where
  "register_builtin_handlers env Unknown = None"
| "register_builtin_handlers env Ping = Some (\<lambda>d cmd. Inr (d, ''+PONG''))"
| "register_builtin_handlers env CommandType.Info = Some info_handler"
| "register_builtin_handlers env Get = Some (get_handler env)"
| "register_builtin_handlers env Delete = Some (delete_handler env)"
| "register_builtin_handlers env Exists = Some (exists_handler env)"
| "register_builtin_handlers env Subscribe = Some subscribe_handler"
| "register_builtin_handlers env Publish = Some (publish_handler env)"
| "register_builtin_handlers env Expire = Some (expire_handler env)"
| "register_builtin_handlers env Mget =
     Some (\<lambda>d cmd. Inr (d, handle_mget (env_hash env) (env_clock env) cmd (storage d)))"
| "register_builtin_handlers env Mset = Some (\<lambda>d cmd. on_storage (handle_mset (env_hash env) cmd) d)"
| "register_builtin_handlers env Incr =
     Some (\<lambda>d cmd. on_storage (handle_incr (env_hash env) (env_clock env 0) cmd) d)"
| "register_builtin_handlers env Decr =
     Some (\<lambda>d cmd. on_storage (handle_decr (env_hash env) (env_clock env 0) cmd) d)"
| "register_builtin_handlers env Incrby =
     Some (\<lambda>d cmd. on_storage (handle_incrby (env_hash env) (env_clock env 0) cmd) d)"
| "register_builtin_handlers env Scan =
     Some (\<lambda>d cmd. bind_res (handle_scan cmd (storage d)) (\<lambda>reply. Inr (d, reply)))"
| "register_builtin_handlers env Auth = Some (\<lambda>d cmd. Inr (d, handle_auth cmd (auth d)))"
| "register_builtin_handlers env Config =
     Some (\<lambda>d cmd. bind_res (handle_config cmd (runtime d)) (\<lambda>(rt, reply). Inr (d\<lparr>runtime := rt\<rparr>, reply)))"
| "register_builtin_handlers env Flushdb =
     Some (\<lambda>d cmd. let (s, reply) = handle_flushdb (storage d) in Inr (d\<lparr>storage := s\<rparr>, reply))"
| "register_builtin_handlers env Dbsize = Some (\<lambda>d cmd. Inr (d, handle_dbsize (storage d)))"
| "register_builtin_handlers env Bgrewriteaof =
     Some (\<lambda>d cmd. let ((fs, a), reply) = handle_bgrewriteaof (env_io env) (files d) (aof_log d) (storage d)
                    in Inr (d\<lparr>files := fs, aof_log := a\<rparr>, reply))"
| "register_builtin_handlers env Set = Some (set_handler env)"

definition CommandDispatcher_dispatch :: "call_env \<Rightarrow> handler" where
  "CommandDispatcher_dispatch env d cmd =
     (case register_builtin_handlers env (cmd_type cmd) of
        None \<Rightarrow> Inr (d, ''-ERR unknown command'')
      | Some f \<Rightarrow> f (d\<lparr>metrics := MetricsCollector_record_command (metrics d)\<rparr>) cmd)"

section \<open>Specification of the data commands\<close>

definition wrong_args :: "string \<Rightarrow> string" where
  "wrong_args name = err_response (''wrong number of arguments for '' @ name)"

definition bulk_reply :: "string option \<Rightarrow> string" where
  "bulk_reply v = (case v of None \<Rightarrow> null_bulk_response | Some x \<Rightarrow> bulk_string_response x)"

fun put_args :: "string list \<Rightarrow> store \<Rightarrow> store" where
  "put_args (k # v # rest) m = put_args rest (m(k \<mapsto> fresh_entry v))"
| "put_args _ m = m"

definition spec_add :: "int \<Rightarrow> store \<Rightarrow> string \<Rightarrow> int \<Rightarrow> (store \<times> string) res" where
  "spec_add now m key delta =
     bind_res (CounterStore_parse_value (spec_get now m key)) (\<lambda>c.
     bind_res (checked_int64 (c + delta)) (\<lambda>n.
     Inr (m(key \<mapsto> fresh_entry (show_int n)), integer_response n)))"

fun spec_command :: "(nat \<Rightarrow> int) \<Rightarrow> CommandType \<Rightarrow> string list \<Rightarrow> store \<Rightarrow> (store \<times> string) res option" where
  "spec_command clock Get [k] m = Some (Inr (m, bulk_reply (spec_get (clock 0) m k)))"
| "spec_command clock Get _ m = Some (Inr (m, wrong_args ''GET''))"
| "spec_command clock Set (k # w # ws) m =
     Some (Inr (m(k \<mapsto> fresh_entry (join_words (w # ws))), ok_response))"
| "spec_command clock Set _ m = Some (Inr (m, wrong_args ''SET''))"
| "spec_command clock Delete [k] m = Some (Inr (m(k := None), integer_response (if m k \<noteq> None then 1 else 0)))"
| "spec_command clock Delete _ m = Some (Inr (m, wrong_args ''DELETE''))"
| "spec_command clock Exists ks m =
     Some (Inr (m, if ks = [] then wrong_args ''EXISTS''
                   else integer_response (int (length (filter (\<lambda>k. m k \<noteq> None) ks)))))"
| "spec_command clock Expire [k, ttl] m =
     Some (bind_res (stoll ttl) (\<lambda>seconds.
       case m k of
         None \<Rightarrow> Inr (m, integer_response 0)
       | Some e \<Rightarrow> bind_res (add_seconds (clock 0) seconds)
                    (\<lambda>t. Inr (m(k \<mapsto> e\<lparr>expires_at := Some t\<rparr>), integer_response 1))))"
| "spec_command clock Expire _ m = Some (Inr (m, wrong_args ''EXPIRE''))"
| "spec_command clock Mget ks m =
     Some (Inr (m, if ks = [] then wrong_args ''MGET''
                   else mget_reply (map (\<lambda>i. spec_get (clock i) m (ks ! i)) [0..<length ks])))"
| "spec_command clock Mset args m =
     Some (Inr (if args = [] \<or> odd (length args) then (m, wrong_args ''MSET'')
                else (put_args args m, ok_response)))"
| "spec_command clock Incr [k] m = Some (spec_add (clock 0) m k 1)"
| "spec_command clock Incr _ m = Some (Inr (m, wrong_args ''INCR''))"
| "spec_command clock Decr [k] m = Some (spec_add (clock 0) m k (- 1))"
| "spec_command clock Decr _ m = Some (Inr (m, wrong_args ''DECR''))"
| "spec_command clock Incrby [k, n] m = Some (bind_res (stoll n) (spec_add (clock 0) m k))"
| "spec_command clock Incrby _ m = Some (Inr (m, wrong_args ''INCRBY''))"
| "spec_command clock Flushdb _ m = Some (Inr (Map.empty, ok_response))"
| "spec_command clock Dbsize _ m = Some (Inr (m, integer_response (long_long_of_size (card (dom m)))))"
| "spec_command _ _ _ _ = None"

section \<open>Invariant\<close>

definition dispatcher_ok :: "hash \<Rightarrow> CommandDispatcher \<Rightarrow> bool" where
  "dispatcher_ok h d \<longleftrightarrow> engine_ok h (storage d) \<and> registry_ok (channels d)"

lemma dispatcher_ok_new: "dispatcher_ok h (CommandDispatcher_new cfg a fs)"
  by (simp add: dispatcher_ok_def CommandDispatcher_new_def engine_ok_new registry_ok_new)

abbreviation stored :: "hash \<Rightarrow> CommandDispatcher \<Rightarrow> store" where
  "stored h d \<equiv> engine_view h (storage d)"

definition refines_store :: "hash \<Rightarrow> (StorageEngine \<times> string) res \<Rightarrow> (store \<times> string) res \<Rightarrow> bool" where
  "refines_store h r spec \<longleftrightarrow>
     (case r of
        Inl f \<Rightarrow> spec = Inl f
      | Inr (s', reply) \<Rightarrow> engine_ok h s' \<and> spec = Inr (engine_view h s', reply))"

lemma refines_storeI [intro]:
  "engine_ok h s' \<Longrightarrow> spec = Inr (engine_view h s', reply) \<Longrightarrow> refines_store h (Inr (s', reply)) spec"
  by (simp add: refines_store_def)

lemma refines_store_Inl [simp]: "refines_store h (Inl f) spec \<longleftrightarrow> spec = Inl f"
  by (simp add: refines_store_def)

section \<open>The handlers refine the specification\<close>

lemma wrong_args_eqs:
  "err_response ''wrong number of arguments for GET'' = wrong_args ''GET''"
  "err_response ''wrong number of arguments for SET'' = wrong_args ''SET''"
  "err_response ''wrong number of arguments for DELETE'' = wrong_args ''DELETE''"
  "err_response ''wrong number of arguments for EXISTS'' = wrong_args ''EXISTS''"
  "err_response ''wrong number of arguments for EXPIRE'' = wrong_args ''EXPIRE''"
  "err_response ''wrong number of arguments for MGET'' = wrong_args ''MGET''"
  "err_response ''wrong number of arguments for MSET'' = wrong_args ''MSET''"
  "err_response ''wrong number of arguments for INCR'' = wrong_args ''INCR''"
  "err_response ''wrong number of arguments for DECR'' = wrong_args ''DECR''"
  "err_response ''wrong number of arguments for INCRBY'' = wrong_args ''INCRBY''"
  by (simp_all add: wrong_args_def)

lemma increment_refines:
  assumes "engine_ok h s"
  shows "refines_store h
     (bind_res (CounterStore_increment h now s key delta) (\<lambda>(s', n). Inr (s', integer_response n)))
     (spec_add now (engine_view h s) key delta)"
proof (cases "CounterStore_parse_value (StorageEngine_get h now s key)")
  case (Inl f)
  then show ?thesis using increment_fault[OF Inl, of delta] by (simp add: spec_add_def get_correct)
next
  case (Inr c)
  show ?thesis
  proof (cases "int64_range (c + delta)")
    case True
    from increment_correct[OF assms Inr True] True Inr show ?thesis
      by (auto simp: spec_add_def get_correct checked_int64_def refines_store_def)
  next
    case False
    with increment_overflow[OF Inr False] Inr show ?thesis
      by (simp add: spec_add_def get_correct checked_int64_def)
  qed
qed

lemma decrement_one: "CounterStore_decrement h now s key 1 = CounterStore_increment h now s key (- 1)"
  by (simp add: CounterStore_decrement_def checked_int64_def int64_range_def)

lemma put_args_pairs:
  "put_args args m =
     m ++ map_of (rev (map (\<lambda>p. (pair_key p, fresh_entry (pair_value p))) (arg_pairs args)))"
proof (induction args m rule: put_args.induct)
  case (1 k v rest m)
  then show ?case by (simp only: put_args.simps arg_pairs.simps list.map map_add_upd_assoc) simp
qed simp_all

lemma mset_refines:
  assumes "engine_ok h s"
  shows "refines_store h (handle_mset h cmd s)
     (Inr (if cmd_args cmd = [] \<or> odd (length (cmd_args cmd)) then (engine_view h s, wrong_args ''MSET'')
           else (put_args (cmd_args cmd) (engine_view h s), ok_response)))"
proof (cases "length (cmd_args cmd) < 2 \<or> length (cmd_args cmd) mod 2 \<noteq> 0")
  case True
  then have "cmd_args cmd = [] \<or> odd (length (cmd_args cmd))"
    by (cases "cmd_args cmd" rule: arg_pairs.cases) (auto simp: even_iff_mod_2_eq_zero)
  with True assms show ?thesis by (auto simp: handle_mset_def wrong_args_eqs refines_store_def)
next
  case False
  then have "cmd_args cmd \<noteq> []" "even (length (cmd_args cmd))" by (auto simp: even_iff_mod_2_eq_zero)
  with False mset_correct[OF assms, of "arg_pairs (cmd_args cmd)"] show ?thesis
    by (auto simp: handle_mset_def put_args_pairs refines_store_def)
qed

lemma expire_refines:
  assumes "engine_ok h s"
  shows "refines_store h
     (bind_res (StorageEngine_set_ttl h now s key seconds)
        (\<lambda>(s, ok). Inr (s, integer_response (if \<not> ok then 0 else 1))))
     (case engine_view h s key of
        None \<Rightarrow> Inr (engine_view h s, integer_response 0)
      | Some e \<Rightarrow> bind_res (add_seconds now seconds)
           (\<lambda>t. Inr ((engine_view h s)(key \<mapsto> e\<lparr>expires_at := Some t\<rparr>), integer_response 1)))"
proof (cases "engine_view h s key")
  case None
  then show ?thesis using assms by (auto simp: set_ttl_missing)
next
  case (Some e)
  show ?thesis
  proof (cases "add_seconds now seconds")
    case (Inl f)
    then show ?thesis using Some by (simp add: set_ttl_overflow)
  next
    case (Inr t)
    then show ?thesis using Some set_ttl_correct[OF assms Some Inr] by (auto simp: refines_store_def)
  qed
qed

lemma exists_count:
  "foldl (\<lambda>count key. if P key then count + 1 else count) (c :: int) ks = c + int (length (filter P ks))"
  by (induction ks arbitrary: c) auto

section \<open>Dispatch refines the specification\<close>

definition refines_command :: "hash \<Rightarrow> (CommandDispatcher \<times> string) res \<Rightarrow> (store \<times> string) res \<Rightarrow> bool" where
  "refines_command h r spec \<longleftrightarrow>
     (case r of
        Inl f \<Rightarrow> spec = Inl f
      | Inr (d', reply) \<Rightarrow> dispatcher_ok h d' \<and> spec = Inr (stored h d', reply))"

lemma refines_command_Inr [simp]:
  "refines_command h (Inr (d', reply)) spec \<longleftrightarrow> dispatcher_ok h d' \<and> spec = Inr (stored h d', reply)"
  by (simp add: refines_command_def)

lemma bind_res_assoc: "bind_res (bind_res m f) g = bind_res m (\<lambda>x. bind_res (f x) g)"
  by (cases m) auto

lemma on_storage_refines:
  "registry_ok (channels d) \<Longrightarrow> refines_store h (f (storage d)) spec \<Longrightarrow>
     refines_command h (on_storage f d) spec"
  by (cases "f (storage d)") (auto simp: on_storage_def refines_store_def refines_command_def dispatcher_ok_def)

abbreviation handler_refines :: "call_env \<Rightarrow> CommandDispatcher \<Rightarrow> ParsedCommand \<Rightarrow> CommandType \<Rightarrow> (CommandDispatcher \<times> string) res \<Rightarrow> bool" where
  "handler_refines env d cmd ty r \<equiv>
     \<forall>spec. spec_command (env_clock env) ty (cmd_args cmd) (stored (env_hash env) d) = Some spec
       \<longrightarrow> refines_command (env_hash env) r spec"

lemma dispatcher_okD:
  assumes "dispatcher_ok h d"
  shows "engine_ok h (storage d)" "registry_ok (channels d)"
  using assms by (simp_all add: dispatcher_ok_def)

lemma get_refines:
  assumes "dispatcher_ok (env_hash env) d"
  shows "handler_refines env d cmd Get (get_handler env d cmd)"
  using assms
  by (cases "(env_clock env, Get, cmd_args cmd, stored (env_hash env) d)" rule: spec_command.cases)
    (auto simp: get_handler_def get_correct bulk_reply_def wrong_args_eqs split: option.splits)

lemma set_refines:
  assumes "dispatcher_ok (env_hash env) d"
  shows "handler_refines env d cmd Set (set_handler env d cmd)"
proof (cases "cmd_args cmd" rule: arg_pairs.cases)
  case (1 k w ws)
  from set_correct[OF dispatcher_okD(1)[OF assms], of k "join_words (w # ws)"] 1 assms show ?thesis
    by (auto simp: set_handler_def dispatcher_ok_def refines_command_def)
qed (use assms in \<open>auto simp: set_handler_def wrong_args_eqs\<close>)

lemma delete_refines:
  assumes "dispatcher_ok (env_hash env) d"
  shows "handler_refines env d cmd Delete (delete_handler env d cmd)"
proof (cases "\<exists>k. cmd_args cmd = [k]")
  case True
  then obtain k where args: "cmd_args cmd = [k]" by blast
  obtain s' b where "StorageEngine_remove (env_hash env) (storage d) k = (s', b)" by (rule prod.exhaust)
  with remove_correct[OF dispatcher_okD(1)[OF assms] this] args assms show ?thesis
    by (simp add: delete_handler_def dispatcher_ok_def)
next
  case False
  then show ?thesis using assms
    by (cases "(env_clock env, Delete, cmd_args cmd, stored (env_hash env) d)" rule: spec_command.cases)
      (auto simp: delete_handler_def wrong_args_eqs)
qed

lemma mset_handler_refines:
  assumes "dispatcher_ok (env_hash env) d"
  shows "handler_refines env d cmd Mset (on_storage (handle_mset (env_hash env) cmd) d)"
proof (intro allI impI on_storage_refines)
  fix spec
  assume "spec_command (env_clock env) Mset (cmd_args cmd) (stored (env_hash env) d) = Some spec"
  with mset_refines[OF dispatcher_okD(1)[OF assms], of cmd]
  show "refines_store (env_hash env) (handle_mset (env_hash env) cmd (storage d)) spec"
    unfolding spec_command.simps option.inject by simp
qed (rule dispatcher_okD(2)[OF assms])

lemma expire_handler_refines:
  assumes "dispatcher_ok (env_hash env) d"
  shows "handler_refines env d cmd Expire (expire_handler env d cmd)"
proof (cases "\<exists>k t. cmd_args cmd = [k, t]")
  case True
  then obtain k t where args: "cmd_args cmd = [k, t]" by blast
  have h: "expire_handler env d cmd = on_storage (\<lambda>s. bind_res (stoll t) (\<lambda>seconds.
      bind_res (StorageEngine_set_ttl (env_hash env) (env_clock env 0) s k seconds)
        (\<lambda>(s, ok). Inr (s, integer_response (if \<not> ok then 0 else 1))))) d"
    by (cases "stoll t")
      (auto simp: expire_handler_def args on_storage_def bind_res_assoc case_prod_unfold)
  show ?thesis
    unfolding h using args expire_refines[OF dispatcher_okD(1)[OF assms], of "env_clock env 0" k]
    by (cases "stoll t")
      (auto intro!: on_storage_refines dispatcher_okD(2)[OF assms] simp: args)
next
  case False
  then show ?thesis using assms
    by (cases "(env_clock env, Expire, cmd_args cmd, stored (env_hash env) d)" rule: spec_command.cases)
      (auto simp: expire_handler_def wrong_args_eqs split: list.splits)
qed

lemma exists_refines:
  assumes "dispatcher_ok (env_hash env) d"
  shows "handler_refines env d cmd Exists (exists_handler env d cmd)"
  using assms by (auto simp: exists_handler_def wrong_args_eqs exists_count exists_correct)

lemma mget_refines:
  assumes "dispatcher_ok (env_hash env) d"
  shows "handler_refines env d cmd Mget
     (Inr (d, handle_mget (env_hash env) (env_clock env) cmd (storage d)))"
  using assms by (auto simp: handle_mget_def wrong_args_eqs mget_correct)

lemma incr_refines:
  assumes "dispatcher_ok (env_hash env) d"
  shows "handler_refines env d cmd Incr (on_storage (handle_incr (env_hash env) (env_clock env 0) cmd) d)"
  using dispatcher_okD[OF assms]
  by (cases "(env_clock env, Incr, cmd_args cmd, stored (env_hash env) d)" rule: spec_command.cases)
    (auto simp: handle_incr_def wrong_args_eqs intro!: on_storage_refines increment_refines)

lemma decr_refines:
  assumes "dispatcher_ok (env_hash env) d"
  shows "handler_refines env d cmd Decr (on_storage (handle_decr (env_hash env) (env_clock env 0) cmd) d)"
  using dispatcher_okD[OF assms]
  by (cases "(env_clock env, Decr, cmd_args cmd, stored (env_hash env) d)" rule: spec_command.cases)
    (auto simp: handle_decr_def wrong_args_eqs decrement_one intro!: on_storage_refines increment_refines)

lemma incrby_refines:
  assumes "dispatcher_ok (env_hash env) d"
  shows "handler_refines env d cmd Incrby (on_storage (handle_incrby (env_hash env) (env_clock env 0) cmd) d)"
proof (cases "\<exists>k t. cmd_args cmd = [k, t]")
  case True
  then obtain k t where args: "cmd_args cmd = [k, t]" by blast
  then show ?thesis using dispatcher_okD[OF assms]
    by (cases "stoll t") (auto simp: handle_incrby_def intro!: on_storage_refines increment_refines)
next
  case False
  then show ?thesis using dispatcher_okD[OF assms]
    by (cases "(env_clock env, Incrby, cmd_args cmd, stored (env_hash env) d)" rule: spec_command.cases)
      (auto simp: handle_incrby_def wrong_args_eqs intro!: on_storage_refines split: list.splits)
qed

lemma dispatch_refines:
  assumes "dispatcher_ok (env_hash env) d"
    and "spec_command (env_clock env) (cmd_type cmd) (cmd_args cmd) (stored (env_hash env) d) = Some spec"
  shows "refines_command (env_hash env) (CommandDispatcher_dispatch env d cmd) spec"
proof -
  let ?d = "d\<lparr>metrics := MetricsCollector_record_command (metrics d)\<rparr>"
  have ok: "dispatcher_ok (env_hash env) ?d" using assms(1) by (simp add: dispatcher_ok_def)
  have spec: "spec_command (env_clock env) (cmd_type cmd) (cmd_args cmd) (stored (env_hash env) ?d) = Some spec"
    using assms(2) by simp
  note refs = get_refines[OF ok, of cmd] set_refines[OF ok, of cmd] delete_refines[OF ok, of cmd]
    expire_handler_refines[OF ok, of cmd] exists_refines[OF ok, of cmd] mget_refines[OF ok, of cmd]
    incr_refines[OF ok, of cmd] decr_refines[OF ok, of cmd] incrby_refines[OF ok, of cmd]
    mset_handler_refines[OF ok, of cmd]
  show ?thesis
  proof (cases "cmd_type cmd")
    case Flushdb
    then show ?thesis using spec clear_correct[OF dispatcher_okD(1)[OF ok]] ok
      by (auto simp: CommandDispatcher_dispatch_def handle_flushdb_def dispatcher_ok_def)
  next
    case Dbsize
    then show ?thesis using spec entry_count_correct[OF dispatcher_okD(1)[OF ok]] ok
      by (auto simp: CommandDispatcher_dispatch_def handle_dbsize_def)
  qed (use spec refs in \<open>simp_all add: CommandDispatcher_dispatch_def\<close>)
qed

section \<open>The other commands\<close>

lemma cases_other:
  assumes "spec_command clock (cmd_type cmd) (cmd_args cmd) m = None"
  shows "cmd_type cmd \<in> {Unknown, Ping, Subscribe, Publish, CommandType.Info, Scan, Auth, Config, Bgrewriteaof}"
  using assms by (cases "(clock, cmd_type cmd, cmd_args cmd, m)" rule: spec_command.cases) auto

lemma handle_config_total: "\<exists>rt reply. handle_config cmd r = Inr (rt, reply)"
  using config_dump_total[of r]
  by (auto simp: handle_config_def Let_def split: list.splits option.splits prod.splits)

lemma dispatch_other:
  assumes "dispatcher_ok h d" "spec_command clock (cmd_type cmd) (cmd_args cmd) m = None"
    and "CommandDispatcher_dispatch env d cmd = Inr (d', reply)"
  shows "storage d' = storage d \<and> dispatcher_ok h d'"
  using cases_other[OF assms(2)] assms(1,3)
  by (auto simp: CommandDispatcher_dispatch_def dispatcher_ok_def info_handler_def subscribe_handler_def
      publish_handler_def PubSubBroker_register_subscriber_def registry_ok_subscribe Let_def
      split: list.splits prod.splits)

lemma dispatch_ok:
  assumes "dispatcher_ok (env_hash env) d" "CommandDispatcher_dispatch env d cmd = Inr (d', reply)"
  shows "dispatcher_ok (env_hash env) d'"
proof (cases "spec_command (env_clock env) (cmd_type cmd) (cmd_args cmd) (stored (env_hash env) d)")
  case None
  then show ?thesis using dispatch_other[OF assms(1) None assms(2)] by blast
next
  case (Some spec)
  then show ?thesis using dispatch_refines[OF assms(1) Some] assms(2) by simp
qed

lemma add_seconds_fault: "add_seconds t n = Inl f \<Longrightarrow> f = Signed_overflow"
  by (auto simp: add_seconds_def checked_int64_def bind_res_eq_Inl split: if_splits)

lemma stoll_fault: "stoll s = Inl f \<Longrightarrow> f = Invalid_argument \<or> f = Out_of_range"
  by (auto simp: stoll_def Let_def split: prod.splits if_splits)

lemma stoull_fault: "stoull s = Inl f \<Longrightarrow> f = Invalid_argument \<or> f = Out_of_range"
  by (auto simp: stoull_def Let_def split: prod.splits if_splits)

lemma parse_value_fault: "CounterStore_parse_value v = Inl f \<Longrightarrow> f = Invalid_argument \<or> f = Out_of_range"
  by (auto simp: CounterStore_parse_value_def dest: stoll_fault split: option.splits if_splits)

lemma spec_add_fault:
  "spec_add now m k n = Inl f \<Longrightarrow> f \<in> {Invalid_argument, Out_of_range, Signed_overflow}"
  by (auto simp: spec_add_def bind_res_eq_Inl checked_int64_def dest: parse_value_fault split: if_splits)

lemma spec_command_fault:
  assumes "spec_command clock ty args m = Some (Inl f)"
  shows "ty \<in> {Expire, Incr, Decr, Incrby} \<and> f \<in> {Invalid_argument, Out_of_range, Signed_overflow}"
  using assms
  by (cases "(clock, ty, args, m)" rule: spec_command.cases)
    (auto simp: bind_res_eq_Inl dest: stoll_fault spec_add_fault add_seconds_fault
      split: if_splits option.splits)

lemma scan_options_fault: "scan_options args c p = Inl f \<Longrightarrow> f = Invalid_argument \<or> f = Out_of_range"
  by (induction args c p rule: scan_options.induct)
    (auto simp: bind_res_eq_Inl dest: stoull_fault split: if_splits)

lemma handle_scan_fault: "handle_scan cmd s = Inl f \<Longrightarrow> f = Invalid_argument \<or> f = Out_of_range"
  by (auto simp: handle_scan_def decode_scan_cursor_def bind_res_eq_Inl
      dest: stoull_fault scan_options_fault split: list.splits if_splits option.splits)

lemma other_fault:
  assumes "spec_command clock (cmd_type cmd) (cmd_args cmd) m = None"
    and "CommandDispatcher_dispatch env d cmd = Inl f"
  shows "cmd_type cmd = Scan \<and> (f = Invalid_argument \<or> f = Out_of_range)"
  using cases_other[OF assms(1)] assms(2) handle_config_total[of cmd "runtime d"]
  by (auto simp: CommandDispatcher_dispatch_def info_handler_def subscribe_handler_def publish_handler_def
      Let_def bind_res_eq_Inl dest: handle_scan_fault split: list.splits prod.splits)

lemma dispatch_fault:
  assumes "dispatcher_ok (env_hash env) d" "CommandDispatcher_dispatch env d cmd = Inl f"
  shows "cmd_type cmd \<in> {Expire, Incr, Decr, Incrby, Scan}
     \<and> f \<in> {Invalid_argument, Out_of_range, Signed_overflow}"
proof (cases "spec_command (env_clock env) (cmd_type cmd) (cmd_args cmd) (stored (env_hash env) d)")
  case None
  then show ?thesis using other_fault[OF None assms(2)] by auto
next
  case (Some spec)
  then have "spec = Inl f" using dispatch_refines[OF assms(1) Some] assms(2) by (simp add: refines_command_def)
  with Some show ?thesis using spec_command_fault by fastforce
qed

section \<open>What no command changes\<close>

lemma on_storage_frame:
  "on_storage f d = Inr (d', reply) \<Longrightarrow>
     files d' = files d \<and> aof_log d' = aof_log d \<and> auth d' = auth d \<and> metrics d' = metrics d"
  by (auto simp: on_storage_def)

lemmas handler_frame_defs = CommandDispatcher_dispatch_def info_handler_def get_handler_def delete_handler_def
  exists_handler_def subscribe_handler_def publish_handler_def expire_handler_def set_handler_def Let_def

lemma dispatch_frame:
  assumes "CommandDispatcher_dispatch env d cmd = Inr (d', reply)"
  shows "auth d' = auth d \<and> (cmd_type cmd \<noteq> Bgrewriteaof \<longrightarrow> files d' = files d \<and> aof_log d' = aof_log d)"
proof (cases "cmd_type cmd")
  case Mset
  with assms on_storage_frame show ?thesis by (fastforce simp: CommandDispatcher_dispatch_def)
next
  case Incr
  with assms on_storage_frame show ?thesis by (fastforce simp: CommandDispatcher_dispatch_def)
next
  case Decr
  with assms on_storage_frame show ?thesis by (fastforce simp: CommandDispatcher_dispatch_def)
next
  case Incrby
  with assms on_storage_frame show ?thesis by (fastforce simp: CommandDispatcher_dispatch_def)
qed (use assms in \<open>auto simp: handler_frame_defs split: list.splits prod.splits option.splits if_splits\<close>)

section \<open>Cursors on the wire\<close>

lemma encode_decode_cursor:
  assumes "cur_bucket c < 2 ^ 64" "cur_chain c < 2 ^ 64"
  shows "decode_scan_cursor (encode_scan_cursor c) = Inr c"
proof (cases "cur_bucket c = 0 \<and> cur_chain c = 0")
  case True
  then show ?thesis by (cases c) (simp add: decode_scan_cursor_def encode_scan_cursor_def)
next
  case False
  let ?b = "show_nat (cur_bucket c)" and ?e = "encode_scan_cursor c"
  have e: "?e = ?b @ CHR '':'' # show_nat (cur_chain c)"
    using False by (auto simp: encode_scan_cursor_def)
  have colon: "CHR '':'' \<notin> set ?b" using show_nat_digits isdigit_not_special by blast
  have "?e \<noteq> []" "?e \<noteq> ''0''" using e by (auto simp: append_eq_Cons_conv)
  moreover have "find_char (CHR '':'') ?e = Some (length ?b)"
    unfolding e by (rule find_char_append[OF colon])
  ultimately show ?thesis
    using assms e by (simp add: decode_scan_cursor_def stoull_show_nat)
qed

section \<open>Properties\<close>

text \<open>
  C3: every command on keys and values (\<open>GET\<close>, \<open>SET\<close>, \<open>DEL\<close>, \<open>EXISTS\<close>, \<open>EXPIRE\<close>, \<open>MGET\<close>,
  \<open>MSET\<close>, \<open>INCR\<close>, \<open>DECR\<close>, \<open>INCRBY\<close>, \<open>FLUSHDB\<close>, \<open>DBSIZE\<close>), with any arguments, right or wrong
  in number, gives the reply, the fault and the new contents that the specification on maps
  gives, and keeps the dispatcher's invariant.
\<close>

theorem dispatch_implements_spec:
  assumes "dispatcher_ok (env_hash env) d"
    and "spec_command (env_clock env) (cmd_type cmd) (cmd_args cmd) (stored (env_hash env) d) = Some spec"
  shows "case CommandDispatcher_dispatch env d cmd of
       Inl f \<Rightarrow> spec = Inl f
     | Inr (d', reply) \<Rightarrow> dispatcher_ok (env_hash env) d' \<and> spec = Inr (stored (env_hash env) d', reply)"
  using dispatch_refines[OF assms] by (simp add: refines_command_def)

theorem dispatch_implements_spec_witness:
  "\<exists>d'. CommandDispatcher_dispatch
       quiet_env
       new_dispatcher
       \<lparr>cmd_type = Incr, cmd_name = ''INCR'', cmd_args = [''n'']\<rparr> = Inr (d', '':1'')
     \<and> stored (\<lambda>_. 0) d' = [''n'' \<mapsto> fresh_entry ''1'']"
proof -
  let ?cmd = "\<lparr>cmd_type = Incr, cmd_name = ''INCR'', cmd_args = [''n'']\<rparr>"
  have view: "stored (\<lambda>_. 0) new_dispatcher = Map.empty" by (simp add: CommandDispatcher_new_def engine_view_new)
  have one: "show_int 1 = ''1''" by code_simp
  have spec: "spec_command (env_clock quiet_env) (cmd_type ?cmd) (cmd_args ?cmd) (stored (env_hash quiet_env) new_dispatcher)
      = Some (Inr ([''n'' \<mapsto> fresh_entry ''1''], '':1''))"
    by (simp add: view spec_add_def spec_get_def CounterStore_parse_value_def checked_int64_def int64_range_def
        integer_response_def one)
  have "dispatcher_ok (env_hash quiet_env) new_dispatcher" by (rule dispatcher_ok_new)
  from dispatch_implements_spec[OF this spec] show ?thesis
    by (cases "CommandDispatcher_dispatch quiet_env new_dispatcher ?cmd") auto
qed

text \<open>
  C25: only \<open>EXPIRE\<close>, \<open>INCR\<close>, \<open>DECR\<close>, \<open>INCRBY\<close> and \<open>SCAN\<close> can fail to return, and only by a
  number that does not parse, does not fit 64 bits, or overflows; every other command
  always gives a reply.
\<close>

theorem dispatch_fault_sources:
  assumes "dispatcher_ok (env_hash env) d" "CommandDispatcher_dispatch env d cmd = Inl f"
  shows "cmd_type cmd \<in> {Expire, Incr, Decr, Incrby, Scan}
     \<and> f \<in> {Invalid_argument, Out_of_range, Signed_overflow}"
  using assms by (rule dispatch_fault)

theorem dispatch_fault_sources_witness:
  "CommandDispatcher_dispatch
       quiet_env
       new_dispatcher
       \<lparr>cmd_type = Scan, cmd_name = ''SCAN'', cmd_args = [''x'']\<rparr> = Inl Invalid_argument
   \<and> Invalid_argument \<in> {Invalid_argument, Out_of_range, Signed_overflow}"
proof -
  let ?cmd = "\<lparr>cmd_type = Scan, cmd_name = ''SCAN'', cmd_args = [''x'']\<rparr>"
  have "stoull ''x'' = Inl Invalid_argument"
    by (simp add: stoull_def scan_number_def strip_sign_def isspace_def isdigit_def)
  then have r: "CommandDispatcher_dispatch quiet_env new_dispatcher ?cmd = Inl Invalid_argument"
    by (simp add: CommandDispatcher_dispatch_def handle_scan_def decode_scan_cursor_def)
  have "dispatcher_ok (env_hash quiet_env) new_dispatcher" by (rule dispatcher_ok_new)
  from dispatch_fault_sources[OF this r] r show ?thesis by blast
qed

text \<open>
  A value stored by a \<open>SET\<close> line is what a following \<open>GET\<close> line for the same key returns,
  at any time, with the words of the value joined by single spaces.
\<close>

theorem set_then_get:
  assumes "dispatcher_ok (env_hash env) d" "env_hash env' = env_hash env"
    and "is_word k" "\<forall>w \<in> set (w1 # ws). is_word w"
  shows "\<exists>c1 d1 c2 d2. parse_line (join_words (''SET'' # k # w1 # ws)) = Some c1
     \<and> CommandDispatcher_dispatch env d c1 = Inr (d1, ok_response)
     \<and> parse_line (join_words [''GET'', k]) = Some c2
     \<and> CommandDispatcher_dispatch env' d1 c2 = Inr (d2, bulk_string_response (join_words (w1 # ws)))"
proof -
  let ?c1 = "\<lparr>cmd_type = Set, cmd_name = ''SET'', cmd_args = k # w1 # ws\<rparr>"
  let ?c2 = "\<lparr>cmd_type = Get, cmd_name = ''GET'', cmd_args = [k]\<rparr>"
  let ?m = "(stored (env_hash env) d)(k \<mapsto> fresh_entry (join_words (w1 # ws)))"
  have names: "command_type_from_name ''SET'' = Set" "command_type_from_name ''GET'' = Get"
    by code_simp+
  have p1: "parse_line (join_words (''SET'' # k # w1 # ws)) = Some ?c1"
    using parse_line_join_words[of "''SET''" "k # w1 # ws"] assms(3,4) names by (simp add: is_word_def isspace_def)
  have p2: "parse_line (join_words [''GET'', k]) = Some ?c2"
    using parse_line_join_words[of "''GET''" "[k]"] assms(3) names by (simp add: is_word_def isspace_def)
  have "refines_command (env_hash env) (CommandDispatcher_dispatch env d ?c1) (Inr (?m, ok_response))"
    by (rule dispatch_refines[OF assms(1)]) simp
  then obtain d1 where d1: "CommandDispatcher_dispatch env d ?c1 = Inr (d1, ok_response)"
    "dispatcher_ok (env_hash env) d1" "stored (env_hash env) d1 = ?m"
    by (cases "CommandDispatcher_dispatch env d ?c1") (auto simp: refines_command_def)
  have sp: "spec_command (env_clock env') (cmd_type ?c2) (cmd_args ?c2) (stored (env_hash env') d1)
      = Some (Inr (?m, bulk_string_response (join_words (w1 # ws))))"
    using d1(3) assms(2) by (simp add: spec_get_def bulk_reply_def fresh_entry_def expired_at_def)
  have "dispatcher_ok (env_hash env') d1" using d1(2) assms(2) by simp
  then have "refines_command (env_hash env') (CommandDispatcher_dispatch env' d1 ?c2)
      (Inr (?m, bulk_string_response (join_words (w1 # ws))))"
    by (rule dispatch_refines[OF _ sp])
  then obtain d2 where "CommandDispatcher_dispatch env' d1 ?c2 = Inr (d2, bulk_string_response (join_words (w1 # ws)))"
    by (cases "CommandDispatcher_dispatch env' d1 ?c2") (auto simp: refines_command_def)
  with p1 p2 d1(1) show ?thesis by blast
qed

theorem set_then_get_witness:
  "\<exists>env d c1 d1 c2 d2. parse_line ''SET k hello world'' = Some c1
     \<and> CommandDispatcher_dispatch env d c1 = Inr (d1, ''+OK'')
     \<and> parse_line ''GET k'' = Some c2
     \<and> CommandDispatcher_dispatch env d1 c2 = Inr (d2, ''$11'' @ crlf @ ''hello world'')"
proof -
  have ok: "dispatcher_ok (env_hash quiet_env) new_dispatcher" by (rule dispatcher_ok_new)
  have words: "is_word ''k''" "\<forall>w \<in> set [''hello'', ''world'']. is_word w" by (simp_all add: is_word_def isspace_def)
  have "bulk_string_response (join_words [''hello'', ''world'']) = ''$11'' @ crlf @ ''hello world''" by code_simp
  moreover have "join_words [''SET'', ''k'', ''hello'', ''world''] = ''SET k hello world''" "join_words [''GET'', ''k''] = ''GET k''"
    by code_simp+
  ultimately show ?thesis using set_then_get[OF ok refl words] unfolding ok_response_def by metis
qed

text \<open>
  A scan cursor survives the wire: decoding an encoded cursor gives it back, and only the
  start cursor is written as 0, the value that tells the client a scan has ended.
\<close>

theorem scan_cursor_roundtrip:
  assumes "cur_bucket c < 2 ^ 64" "cur_chain c < 2 ^ 64"
  shows "decode_scan_cursor (encode_scan_cursor c) = Inr c
     \<and> (encode_scan_cursor c = ''0'' \<longleftrightarrow> c = ScanCursor 0 0)"
proof
  show d: "decode_scan_cursor (encode_scan_cursor c) = Inr c" by (rule encode_decode_cursor[OF assms])
  show "encode_scan_cursor c = ''0'' \<longleftrightarrow> c = ScanCursor 0 0"
    using d by (auto simp: decode_scan_cursor_def encode_scan_cursor_def)
qed

theorem scan_cursor_roundtrip_witness:
  "decode_scan_cursor (encode_scan_cursor (ScanCursor 12 3)) = Inr (ScanCursor 12 3)"
  using scan_cursor_roundtrip[of "ScanCursor 12 3"] by simp

text \<open>
  C39: no command but \<open>BGREWRITEAOF\<close> writes to the append-only log or to any file, and no
  command changes the password gate: a \<open>SET\<close> is not logged, and \<open>CONFIG SET requirepass\<close>
  has no effect on \<open>AUTH\<close>.
\<close>

theorem commands_leave_log_and_gate:
  assumes "CommandDispatcher_dispatch env d cmd = Inr (d', reply)"
  shows "auth d' = auth d
     \<and> (if cmd_type cmd = Bgrewriteaof then storage d' = storage d
        else files d' = files d \<and> aof_log d' = aof_log d)"
  using dispatch_frame[OF assms] assms
  by (auto simp: CommandDispatcher_dispatch_def Let_def split: prod.splits)

theorem commands_leave_log_and_gate_witness:
  "\<exists>env d d'. CommandDispatcher_dispatch env d \<lparr>cmd_type = Flushdb, cmd_name = ''FLUSHDB'', cmd_args = []\<rparr>
       = Inr (d', ''+OK'') \<and> files d' = files d \<and> auth d' = auth d"
proof -
  let ?cmd = "\<lparr>cmd_type = Flushdb, cmd_name = ''FLUSHDB'', cmd_args = []\<rparr>"
  obtain d' where r: "CommandDispatcher_dispatch quiet_env new_dispatcher ?cmd = Inr (d', ''+OK'')"
    by (simp add: CommandDispatcher_dispatch_def handle_flushdb_def ok_response_def)
  from commands_leave_log_and_gate[OF r] r show ?thesis by auto
qed

end
