(* ===== verification/Net.thy ===== *)
theory Net
  imports Services
begin

text \<open>
  The network layer around a connection: \<open>ClientSession\<close> (src/net/client_session.cpp),
  \<open>ConnectionPool\<close> (src/net/connection_pool.cpp), \<open>SessionAuth\<close>
  (src/security/session_auth.cpp) and \<open>TcpServer\<close> (src/net/tcp_server.cpp).

  The operating system's side of a socket is data: a connection carries the results the
  next calls of \<open>read\<close> will give (a byte, or nothing for a result \<open>\<le> 0\<close>: end of file, an
  error, or \<open>EAGAIN\<close> on this non-blocking socket; an exhausted list gives nothing), the
  results of the next calls of \<open>write\<close> (negative for an error, otherwise the number of
  bytes taken; when the list is exhausted the kernel takes everything), the bytes the
  kernel has taken, and the file descriptors closed so far. Results of \<open>socket\<close>, \<open>bind\<close>
  and so on are arguments of \<open>bind_and_listen\<close>.
\<close>

section \<open>Client sessions\<close>

record ClientSession =
  fd :: int
  peer_addr :: string
  session_id :: "64 word"
  alive :: bool

record connection = ClientSession +
  incoming :: "char option list"
  write_results :: "int list"
  outgoing :: string
  closed_fds :: "int list"

definition next_id :: "64 word \<Rightarrow> 64 word \<times> 64 word" where
  "next_id g_session_counter = (g_session_counter, g_session_counter + 1)"

definition ClientSession_new ::
    "64 word \<Rightarrow> int \<Rightarrow> string \<Rightarrow> char option list \<Rightarrow> int list \<Rightarrow> connection \<times> 64 word" where
  "ClientSession_new counter socket peer reads writes =
     (let (i, counter') = next_id counter in
      (\<lparr>fd = socket, peer_addr = peer, session_id = i, alive = True,
        incoming = reads, write_results = writes, outgoing = [], closed_fds = []\<rparr>, counter'))"

definition ClientSession_mark_closed :: "connection \<Rightarrow> connection" where
  "ClientSession_mark_closed c =
     (if \<not> alive c then c
      else if fd c \<ge> 0 then c\<lparr>alive := False, closed_fds := closed_fds c @ [fd c], fd := -1\<rparr>
      else c\<lparr>alive := False\<rparr>)"

definition ClientSession_destroy :: "connection \<Rightarrow> connection" where
  "ClientSession_destroy c = ClientSession_mark_closed c"

definition strip_cr :: "string \<Rightarrow> string" where
  "strip_cr buffer = (if buffer \<noteq> [] \<and> last buffer = carriage_return then butlast buffer else buffer)"

definition max_line :: nat where "max_line = 65536"

fun read_loop :: "string \<Rightarrow> char option list \<Rightarrow> string \<times> bool \<times> char option list" where
  "read_loop buffer [] = (buffer, False, [])"
| "read_loop buffer (None # rest) = (buffer, False, rest)"
| "read_loop buffer (Some ch # rest) =
     (if ch = newline then (strip_cr buffer, True, rest)
      else if length (buffer @ [ch]) > max_line then (buffer @ [ch], False, rest)
      else read_loop (buffer @ [ch]) rest)"

definition ClientSession_read_line :: "connection \<Rightarrow> string \<times> connection" where
  "ClientSession_read_line c =
     (if \<not> alive c then ([], c)
      else let (buffer, still_open, rest) = read_loop [] (incoming c);
               c' = c\<lparr>incoming := rest\<rparr>
           in (buffer, if still_open then c' else ClientSession_mark_closed c'))"

definition ClientSession_write_line :: "connection \<Rightarrow> string \<Rightarrow> connection \<times> bool" where
  "ClientSession_write_line c line =
     (if \<not> alive c then (c, False)
      else
        let payload = (if line = [] \<or> last line \<noteq> newline then line @ [newline] else line);
            (written, rest) = (case write_results c of [] \<Rightarrow> (int (length payload), []) | w # ws \<Rightarrow> (w, ws));
            c' = c\<lparr>write_results := rest\<rparr> in
        if written < 0 then (ClientSession_mark_closed c', False)
        else (c'\<lparr>outgoing := outgoing c @ take (nat written) payload\<rparr>, True))"

section \<open>Connection pool\<close>

record ConnectionStats =
  stat_active :: "64 word"
  stat_rejected :: "64 word"
  stat_idle_closed :: "64 word"

record ConnectionPool =
  max_connections :: "64 word"
  idle_timeout :: int
  active :: "64 word"
  rejected :: "64 word"
  idle_closed :: "64 word"
  last_activity :: int

definition ConnectionPool_new :: "64 word \<Rightarrow> int \<Rightarrow> int \<Rightarrow> ConnectionPool" where
  "ConnectionPool_new limit timeout now =
     \<lparr>max_connections = limit, idle_timeout = timeout, active = 0, rejected = 0, idle_closed = 0,
      last_activity = now\<rparr>"

definition ConnectionPool_admit :: "int \<Rightarrow> ConnectionPool \<Rightarrow> ConnectionPool \<times> bool" where
  "ConnectionPool_admit now p =
     (if active p \<ge> max_connections p then (p\<lparr>rejected := rejected p + 1\<rparr>, False)
      else (p\<lparr>active := active p + 1, last_activity := now\<rparr>, True))"

definition ConnectionPool_release :: "int \<Rightarrow> ConnectionPool \<Rightarrow> ConnectionPool" where
  "ConnectionPool_release now p =
     (if active p > 0 then p\<lparr>active := active p - 1\<rparr> else p)\<lparr>last_activity := now\<rparr>"

definition ConnectionPool_tick_idle_cleanup :: "int \<Rightarrow> ConnectionPool \<Rightarrow> ConnectionPool" where
  "ConnectionPool_tick_idle_cleanup now p =
     (if active p = 0 \<and> now - last_activity p > idle_timeout p * 1000000000
      then p\<lparr>idle_closed := idle_closed p + 1, last_activity := now\<rparr> else p)"

definition ConnectionPool_stats :: "ConnectionPool \<Rightarrow> ConnectionStats" where
  "ConnectionPool_stats p =
     \<lparr>stat_active = active p, stat_rejected = rejected p, stat_idle_closed = idle_closed p\<rparr>"

section \<open>Per-session authentication\<close>

record SessionAuth =
  required :: bool
  authenticated :: bool

definition SessionAuth_new :: "AuthGate \<Rightarrow> bool \<Rightarrow> SessionAuth" where
  "SessionAuth_new gate req = \<lparr>required = req, authenticated = (\<not> req \<or> \<not> AuthGate_enabled gate)\<rparr>"

definition SessionAuth_ensure_authenticated ::
    "AuthGate \<Rightarrow> SessionAuth \<Rightarrow> connection \<Rightarrow> string \<Rightarrow> (SessionAuth \<times> connection) \<times> bool" where
  "SessionAuth_ensure_authenticated gate a c pw =
     (if \<not> required a \<or> \<not> AuthGate_enabled gate \<or> authenticated a then ((a, c), True)
      else if AuthGate_authenticate gate pw then ((a\<lparr>authenticated := True\<rparr>, c), True)
      else ((a, fst (ClientSession_write_line c ''-ERR invalid password'')), False))"

definition SessionAuth_reset :: "AuthGate \<Rightarrow> SessionAuth \<Rightarrow> SessionAuth" where
  "SessionAuth_reset gate a = a\<lparr>authenticated := (\<not> required a \<or> \<not> AuthGate_enabled gate)\<rparr>"

section \<open>Listening socket\<close>

datatype signal = SIGINT | SIGTERM

text \<open>
  \<open>g_active_server\<close> is the field \<open>active_server\<close>: whether the global pointer designates this
  server. \<open>handled\<close> holds the signals whose action is the handler \<open>setup_signals\<close> installs; the
  action of any other signal is the default one.
\<close>

record TcpServer =
  tcp_host :: string
  tcp_port :: "16 word"
  listen_fd :: int
  tcp_running :: bool
  on_sigint :: "(logger \<Rightarrow> logger) option"
  on_sigterm :: "(logger \<Rightarrow> logger) option"
  active_server :: bool
  handled :: "signal set"
  tcp_closed :: "int list"
  tcp_errors :: "string list"

record bind_outcome =
  socket_result :: int
  setsockopt_result :: int
  inet_pton_result :: int
  bind_result :: int
  listen_result :: int
  errno_text :: string

definition TcpServer_new :: "string \<Rightarrow> 16 word \<Rightarrow> TcpServer" where
  "TcpServer_new h p =
     \<lparr>tcp_host = h, tcp_port = p, listen_fd = -1, tcp_running = False, on_sigint = None, on_sigterm = None,
      active_server = False, handled = {}, tcp_closed = [], tcp_errors = []\<rparr>"

definition TcpServer_install_signal_handlers ::
    "(logger \<Rightarrow> logger) option \<Rightarrow> (logger \<Rightarrow> logger) option \<Rightarrow> TcpServer \<Rightarrow> TcpServer" where
  "TcpServer_install_signal_handlers int_handler term_handler t =
     t\<lparr>on_sigint := int_handler, on_sigterm := term_handler\<rparr>"

definition TcpServer_setup_signals :: "TcpServer \<Rightarrow> TcpServer" where
  "TcpServer_setup_signals t = t\<lparr>handled := {SIGINT, SIGTERM}\<rparr>"

definition TcpServer_close_listen :: "TcpServer \<Rightarrow> TcpServer" where
  "TcpServer_close_listen t =
     (if listen_fd t \<ge> 0 then t\<lparr>tcp_closed := tcp_closed t @ [listen_fd t], listen_fd := -1\<rparr> else t)"

definition TcpServer_fail :: "TcpServer \<Rightarrow> string \<Rightarrow> TcpServer \<times> bool" where
  "TcpServer_fail t message =
     (TcpServer_close_listen (t\<lparr>tcp_errors := tcp_errors t @ [message]\<rparr>), False)"

definition TcpServer_bind_and_listen :: "bind_outcome \<Rightarrow> TcpServer \<Rightarrow> TcpServer \<times> bool" where
  "TcpServer_bind_and_listen os t =
     (let t1 = t\<lparr>listen_fd := socket_result os\<rparr> in
      if socket_result os < 0 then
        (t1\<lparr>tcp_errors := tcp_errors t1 @ [''socket failed: '' @ errno_text os]\<rparr>, False)
      else if setsockopt_result os < 0 then TcpServer_fail t1 ''setsockopt SO_REUSEADDR failed''
      else if \<not> (tcp_host t1 = ''0.0.0.0'' \<or> tcp_host t1 = []) \<and> inet_pton_result os \<noteq> 1 then
        TcpServer_fail t1 (''invalid bind address: '' @ tcp_host t1)
      else if bind_result os < 0 then
        TcpServer_fail t1 (''bind failed on '' @ tcp_host t1 @ '':'' @ show_nat (unat (tcp_port t1))
          @ '': '' @ errno_text os)
      else if listen_result os < 0 then TcpServer_fail t1 (''listen failed: '' @ errno_text os)
      else (TcpServer_setup_signals (t1\<lparr>tcp_running := True, active_server := True\<rparr>), True))"

definition TcpServer_stop :: "TcpServer \<Rightarrow> TcpServer" where
  "TcpServer_stop t =
     (if \<not> tcp_running t then t else TcpServer_close_listen (t\<lparr>tcp_running := False\<rparr>))"

definition TcpServer_destroy :: "TcpServer \<Rightarrow> TcpServer" where
  "TcpServer_destroy t = (TcpServer_stop t)\<lparr>active_server := False\<rparr>"

definition forward_signal :: "signal \<Rightarrow> TcpServer \<Rightarrow> TcpServer" where
  "forward_signal sig t =
     (let t1 = (if active_server t then TcpServer_stop t else t) in t1\<lparr>handled := handled t1 - {sig}\<rparr>)"

text \<open>The handlers that \<open>setup_signals\<close> installs.\<close>

definition signal_action :: "signal \<Rightarrow> TcpServer \<times> logger \<Rightarrow> TcpServer \<times> logger" where
  "signal_action sig srv =
     (let t = forward_signal sig (fst srv);
          user = (case sig of SIGINT \<Rightarrow> on_sigint t | SIGTERM \<Rightarrow> on_sigterm t)
      in (t, if active_server t then (case user of None \<Rightarrow> snd srv | Some f \<Rightarrow> f (snd srv)) else snd srv))"

section \<open>Reading lines\<close>

lemma strip_cr_snoc [simp]: "strip_cr (l @ [carriage_return]) = l"
  by (simp add: strip_cr_def)

lemma crlf_chars [simp]: "carriage_return \<noteq> newline" "newline \<noteq> carriage_return"
  by (simp_all add: carriage_return_def newline_def)

lemma read_loop_bytes:
  assumes "newline \<notin> set l" "length buffer + length l \<le> max_line"
  shows "read_loop buffer (map Some l @ rest) = read_loop (buffer @ l) rest"
  using assms
proof (induction l arbitrary: buffer)
  case (Cons x xs)
  then show ?case using Cons.IH[of "buffer @ [x]"] by auto
qed simp

lemma read_loop_line:
  assumes "newline \<notin> set l" "length l \<le> max_line"
  shows "read_loop [] (map Some (l @ [newline]) @ rest) = (strip_cr l, True, rest)"
  using read_loop_bytes[of l "[]" "Some newline # rest"] assms by simp

lemma read_loop_consumes:
  "read_loop buffer rs = (b, still_open, rest) \<Longrightarrow>
     length rest \<le> length rs \<and> (still_open \<longrightarrow> length rest < length rs)"
proof (induction buffer rs rule: read_loop.induct)
  case (3 buffer ch r)
  from "3.prems" "3.IH" show ?case by (fastforce split: if_splits)
qed auto

lemma read_loop_bound:
  "read_loop buffer rs = (b, still_open, rest) \<Longrightarrow> length buffer \<le> max_line \<Longrightarrow>
     length b \<le> max_line + 1 \<and> (still_open \<longrightarrow> length b \<le> max_line \<and> newline \<notin> set b - set buffer)"
proof (induction buffer rs rule: read_loop.induct)
  case (3 buffer ch r)
  from "3.prems" "3.IH" show ?case
    by (auto simp: strip_cr_def split: if_splits dest: in_set_butlastD)
qed auto

lemma read_line_crlf:
  assumes "alive c" "newline \<notin> set l" "length l < max_line"
    and "incoming c = map Some (l @ crlf) @ rest"
  shows "ClientSession_read_line c = (l, c\<lparr>incoming := rest\<rparr>)"
  using assms read_loop_line[of "l @ [carriage_return]" rest]
  by (simp add: ClientSession_read_line_def crlf_def)

lemma mark_closed_dead [simp]: "\<not> alive (ClientSession_mark_closed c)"
  by (simp add: ClientSession_mark_closed_def)

lemma mark_closed_incoming [simp]: "incoming (ClientSession_mark_closed c) = incoming c"
  by (simp add: ClientSession_mark_closed_def)

lemma read_line_consumes:
  assumes "ClientSession_read_line c = (l, c')" "alive c" "alive c'"
  shows "length (incoming c') < length (incoming c)"
  using assms read_loop_consumes[of "[]" "incoming c"]
  by (auto simp: ClientSession_read_line_def Let_def split: prod.splits if_splits)

lemma write_line_incoming [simp]: "incoming (fst (ClientSession_write_line c l)) = incoming c"
  by (auto simp: ClientSession_write_line_def Let_def split: list.splits)

section \<open>File descriptors\<close>

text \<open>A session owns its descriptor until it closes it, once.\<close>

definition fd_owned :: "int \<Rightarrow> connection \<Rightarrow> bool" where
  "fd_owned socket c \<longleftrightarrow>
     (if alive c then fd c = socket \<and> closed_fds c = [] else fd c = -1 \<and> closed_fds c = [socket])"

lemma fd_owned_mark_closed: "socket \<ge> 0 \<Longrightarrow> fd_owned socket c \<Longrightarrow> fd_owned socket (ClientSession_mark_closed c)"
  by (auto simp: fd_owned_def ClientSession_mark_closed_def)

lemma fd_owned_read_line:
  "socket \<ge> 0 \<Longrightarrow> fd_owned socket c \<Longrightarrow> fd_owned socket (snd (ClientSession_read_line c))"
  by (auto simp: fd_owned_def ClientSession_read_line_def ClientSession_mark_closed_def Let_def split: prod.splits)

lemma fd_owned_write_line:
  "socket \<ge> 0 \<Longrightarrow> fd_owned socket c \<Longrightarrow> fd_owned socket (fst (ClientSession_write_line c l))"
  by (auto simp: fd_owned_def ClientSession_write_line_def ClientSession_mark_closed_def Let_def split: list.splits)

section \<open>Connection pool: lemmas\<close>

inductive pool_use :: "ConnectionPool \<Rightarrow> ConnectionPool \<Rightarrow> bool" where
  admit: "pool_use p (fst (ConnectionPool_admit now p))"
| release: "pool_use p (ConnectionPool_release now p)"
| idle: "pool_use p (ConnectionPool_tick_idle_cleanup now p)"

inductive_cases pool_useE: "pool_use p q"

definition within_limit :: "64 word \<Rightarrow> ConnectionPool \<Rightarrow> bool" where
  "within_limit limit p \<longleftrightarrow> max_connections p = limit \<and> active p \<le> limit"

lemma within_limit_admit:
  "within_limit limit p \<Longrightarrow> within_limit limit (fst (ConnectionPool_admit now p))"
  by (auto simp: within_limit_def ConnectionPool_admit_def not_le intro: inc_le)

lemma within_limit_release: "within_limit limit p \<Longrightarrow> within_limit limit (ConnectionPool_release now p)"
  by (auto simp: within_limit_def ConnectionPool_release_def word_le_nat_alt word_less_nat_alt unat_minus_one unat_gt_0)

interpretation conns: transition_system
  "\<lambda>p. \<exists>timeout now. p = ConnectionPool_new limit timeout now" pool_use "within_limit limit" for limit
proof (unfold_locales, goal_cases)
  case (1 p)
  then show ?case by (auto simp: within_limit_def ConnectionPool_new_def)
next
  case (2 p q)
  have "within_limit limit (ConnectionPool_tick_idle_cleanup now p)" for now
    using 2 by (auto simp: ConnectionPool_tick_idle_cleanup_def within_limit_def)
  with 2 show ?case by (auto elim!: pool_useE intro: within_limit_admit within_limit_release)
qed

lemma admit_release:
  assumes "active p < max_connections p"
  shows "snd (ConnectionPool_admit t1 p)"
    and "active (ConnectionPool_release t2 (fst (ConnectionPool_admit t1 p))) = active p"
proof -
  have "active p \<noteq> - 1" using assms by (metis not_le word_order.extremum)
  then have "active p + 1 > 0" by (metis max_word_wrap word_neq_0_conv)
  then show "snd (ConnectionPool_admit t1 p)"
    and "active (ConnectionPool_release t2 (fst (ConnectionPool_admit t1 p))) = active p"
    using assms by (auto simp: ConnectionPool_admit_def ConnectionPool_release_def not_le)
qed

section \<open>Listening socket: lemmas\<close>

lemma bind_and_listen_result:
  assumes "TcpServer_bind_and_listen os t = (t', ok)" "\<not> tcp_running t"
  shows "if ok then tcp_running t' \<and> listen_fd t' = socket_result os \<and> listen_fd t' \<ge> 0 \<and> tcp_closed t' = tcp_closed t
       \<and> active_server t' \<and> handled t' = {SIGINT, SIGTERM}
     else \<not> tcp_running t' \<and> listen_fd t' < 0
       \<and> tcp_closed t' = tcp_closed t @ (if socket_result os \<ge> 0 then [socket_result os] else [])"
  using assms
  by (auto simp: TcpServer_bind_and_listen_def TcpServer_fail_def TcpServer_close_listen_def
      TcpServer_setup_signals_def Let_def split: if_splits)

section \<open>Properties\<close>

text \<open>
  After any use of a new connection pool the number of active connections is at most the
  configured limit, and \<open>admit\<close> succeeds exactly while it is below the limit; the count never
  wraps.
\<close>

theorem connection_limit:
  assumes "pool_use\<^sup>*\<^sup>* (ConnectionPool_new limit timeout t0) p"
  shows "active p \<le> limit \<and> (snd (ConnectionPool_admit now p) \<longleftrightarrow> active p < limit)
     \<and> (active p < limit \<longrightarrow> unat (active (fst (ConnectionPool_admit now p))) = Suc (unat (active p)))"
proof -
  have w: "within_limit limit p" using conns.inv_reachable[OF _ assms] by blast
  have "unat (active p + 1) = Suc (unat (active p))" if "active p < limit"
    using that unatSuc[of "active p"] by (metis add.commute max_word_wrap not_le word_order.extremum)
  with w show ?thesis by (auto simp: within_limit_def ConnectionPool_admit_def not_le)
qed

theorem connection_limit_witness:
  "snd (ConnectionPool_admit 5 (ConnectionPool_new 2 120 0))
     \<and> \<not> snd (ConnectionPool_admit 5 (ConnectionPool_new 0 120 0))"
  using connection_limit[of 2 120 0 "ConnectionPool_new 2 120 0" 5] connection_limit[of 0 120 0 "ConnectionPool_new 0 120 0" 5]
  by (simp add: ConnectionPool_new_def)

text \<open>
  C36: \<open>read_line\<close> returns the bytes before the line end without the carriage return and
  leaves the rest of the input untouched, for every line below the limit of 65536 bytes;
  whatever the input, it returns at most one byte more than the limit, and a session that
  stays open has consumed input.
\<close>

theorem read_line_spec:
  assumes "alive c" "newline \<notin> set l" "length l < max_line"
  shows "ClientSession_read_line (c\<lparr>incoming := map Some (l @ crlf) @ rest\<rparr>) = (l, c\<lparr>incoming := rest\<rparr>)
     \<and> length (fst (ClientSession_read_line c)) \<le> max_line + 1
     \<and> (alive (snd (ClientSession_read_line c)) \<longrightarrow>
          length (incoming (snd (ClientSession_read_line c))) < length (incoming c))"
proof -
  obtain b o1 r where loop: "read_loop [] (incoming c) = (b, o1, r)" by (cases "read_loop [] (incoming c)")
  then have "length b \<le> max_line + 1" using read_loop_bound[OF loop] by simp
  moreover have "fst (ClientSession_read_line c) = b" using assms(1) loop by (simp add: ClientSession_read_line_def Let_def)
  moreover obtain l1 c1 where r1: "ClientSession_read_line c = (l1, c1)" by (rule prod.exhaust)
  ultimately show ?thesis
    using read_line_crlf[of "c\<lparr>incoming := map Some (l @ crlf) @ rest\<rparr>" l rest] read_line_consumes[OF r1] assms by auto
qed

theorem read_line_spec_witness:
  "\<exists>c. fst (ClientSession_read_line (c\<lparr>incoming := map Some (''GET k'' @ crlf) @ [None]\<rparr>)) = ''GET k''"
  using read_line_spec[of "fst (ClientSession_new 1 4 ''peer'' [] [])" "''GET k''" "[None]"]
  by (intro exI[of _ "fst (ClientSession_new 1 4 ''peer'' [] [])"])
    (simp add: ClientSession_new_def next_id_def newline_def max_line_def)

text \<open>
  \<open>bind_and_listen\<close> does not leak its socket: when it fails, for whatever reason, the
  descriptor it opened has been closed once and the server is not running; when it
  succeeds the server runs on that descriptor, which a later \<open>stop\<close> closes, once however
  often it is called.
\<close>

theorem listener_closed_once:
  assumes "TcpServer_bind_and_listen os (TcpServer_new hst prt) = (t, ok)"
  shows "(if ok then tcp_running t \<and> listen_fd t = socket_result os \<and> tcp_closed t = []
          else \<not> tcp_running t \<and> listen_fd t < 0)
     \<and> tcp_closed (TcpServer_stop (TcpServer_stop t)) = (if socket_result os \<ge> 0 then [socket_result os] else [])
     \<and> \<not> tcp_running (TcpServer_stop t)"
  using bind_and_listen_result[OF assms] assms
  by (auto simp: TcpServer_stop_def TcpServer_close_listen_def TcpServer_new_def split: if_splits)

theorem listener_closed_once_witness:
  "\<exists>t. TcpServer_bind_and_listen
       \<lparr>socket_result = 3, setsockopt_result = 0, inet_pton_result = 1, bind_result = -1, listen_result = 0,
        errno_text = ''Address already in use''\<rparr>
       (TcpServer_new ''127.0.0.1'' 6379) = (t, False)
     \<and> tcp_closed (TcpServer_stop (TcpServer_stop t)) = [3]"
proof -
  let ?os = "\<lparr>socket_result = 3, setsockopt_result = 0, inet_pton_result = 1, bind_result = -1, listen_result = 0,
        errno_text = ''Address already in use''\<rparr>"
  obtain t where r: "TcpServer_bind_and_listen ?os (TcpServer_new ''127.0.0.1'' 6379) = (t, False)"
    by (simp add: TcpServer_bind_and_listen_def TcpServer_fail_def Let_def)
  from listener_closed_once[OF r] r show ?thesis by auto
qed

end
