(* ===== verification/Session.thy ===== *)
theory Session
  imports Dispatcher Net
begin

text \<open>
  One client session: \<open>CommandHandler\<close> of src/server/command_handler.cpp.

  \<open>handle_session\<close> is a loop over what the socket delivers; it returns because every round
  consumes input or closes the session. The environment of the n-th round of a session is
  \<open>envs n\<close>. \<open>session_round\<close> is the body of the loop, the unit in which sessions of different
  workers interleave (theory Server); \<open>handle_session_unfold\<close> ties the two together.

  The locale \<open>session_invariant\<close> is the contract of a property that survives everything a
  session does: reading, writing, closing, and dispatching a command. It is interpreted for
  the ownership of the descriptor (\<open>owned\<close>), for the well-formedness of the store and the
  registry (\<open>sane\<close>), and for what the wire can put into the store (\<open>wired\<close>).
\<close>

section \<open>One session\<close>

function CommandHandler_handle_session ::
    "(nat \<Rightarrow> call_env) \<Rightarrow> nat \<Rightarrow> CommandDispatcher \<Rightarrow> connection \<Rightarrow> (CommandDispatcher \<times> connection) res" where
  "CommandHandler_handle_session envs n d session =
     (if \<not> alive session then Inr (d, ClientSession_mark_closed session)
      else
        let (line, session1) = ClientSession_read_line session in
        if \<not> alive session1 then Inr (d, ClientSession_mark_closed session1)
        else if line = [] then CommandHandler_handle_session envs (Suc n) d session1
        else case parse_line line of
               None \<Rightarrow>
                 CommandHandler_handle_session envs (Suc n) d
                   (fst (ClientSession_write_line session1 ''-ERR empty command''))
             | Some cmd \<Rightarrow>
                 bind_res (CommandDispatcher_dispatch (envs n) d cmd) (\<lambda>(d', response).
                   CommandHandler_handle_session envs (Suc n) d'
                     (fst (ClientSession_write_line session1 response))))"
  by pat_completeness auto
termination
  by (relation "measure (\<lambda>(envs, n, d, session). length (incoming session))")
    (auto dest: read_line_consumes[OF sym])

declare CommandHandler_handle_session.simps [simp del]

definition session_round ::
    "call_env \<Rightarrow> CommandDispatcher \<Rightarrow> connection \<Rightarrow> (CommandDispatcher \<times> connection \<times> bool) res" where
  "session_round env d session =
     (if \<not> alive session then Inr (d, ClientSession_mark_closed session, False)
      else
        let (line, session1) = ClientSession_read_line session in
        if \<not> alive session1 then Inr (d, ClientSession_mark_closed session1, False)
        else if line = [] then Inr (d, session1, True)
        else case parse_line line of
               None \<Rightarrow> Inr (d, fst (ClientSession_write_line session1 ''-ERR empty command''), True)
             | Some cmd \<Rightarrow>
                 bind_res (CommandDispatcher_dispatch env d cmd) (\<lambda>(d', response).
                   Inr (d', fst (ClientSession_write_line session1 response), True)))"

section \<open>Transcripts\<close>

definition terminated :: "string \<Rightarrow> string" where
  "terminated r = (if r = [] \<or> last r \<noteq> newline then r @ [newline] else r)"

fun serve :: "(nat \<Rightarrow> call_env) \<Rightarrow> nat \<Rightarrow> CommandDispatcher \<Rightarrow> string list \<Rightarrow> (CommandDispatcher \<times> string list) res" where
  "serve envs n d [] = Inr (d, [])"
| "serve envs n d (l # ls) =
     (if l = [] then serve envs (Suc n) d ls
      else case parse_line l of
             None \<Rightarrow> bind_res (serve envs (Suc n) d ls) (\<lambda>(d', rs). Inr (d', ''-ERR empty command'' # rs))
           | Some cmd \<Rightarrow>
               bind_res (CommandDispatcher_dispatch (envs n) d cmd) (\<lambda>(d1, r).
               bind_res (serve envs (Suc n) d1 ls) (\<lambda>(d', rs). Inr (d', r # rs))))"

definition request_ok :: "string \<Rightarrow> bool" where
  "request_ok l \<longleftrightarrow> newline \<notin> set l \<and> length l < max_line"

abbreviation requests :: "string list \<Rightarrow> char option list" where
  "requests ls \<equiv> map Some (concat (map (\<lambda>l. l @ crlf) ls))"

lemma session_write_open:
  assumes "alive c" "write_results c = []"
  shows "ClientSession_write_line c r = (c\<lparr>outgoing := outgoing c @ terminated r\<rparr>, True)"
  using assms by (simp add: ClientSession_write_line_def terminated_def Let_def)

lemma handle_session_eof:
  assumes "alive c" "incoming c = []"
  shows "CommandHandler_handle_session envs n d c = Inr (d, ClientSession_mark_closed c)"
proof -
  have "ClientSession_read_line c = ([], ClientSession_mark_closed c)"
    using assms by (simp add: ClientSession_read_line_def) (metis (full_types) connection.surjective connection.update_convs(1))
  then show ?thesis
    using assms by (subst CommandHandler_handle_session.simps) (simp add: ClientSession_mark_closed_def)
qed

lemma handle_session_line:
  assumes "alive c" "request_ok l" "incoming c = map Some (l @ crlf) @ rest"
  shows "CommandHandler_handle_session envs n d c =
     (let c1 = c\<lparr>incoming := rest\<rparr> in
      if l = [] then CommandHandler_handle_session envs (Suc n) d c1
      else case parse_line l of
             None \<Rightarrow> CommandHandler_handle_session envs (Suc n) d (fst (ClientSession_write_line c1 ''-ERR empty command''))
           | Some cmd \<Rightarrow>
               bind_res (CommandDispatcher_dispatch (envs n) d cmd) (\<lambda>(d', response).
                 CommandHandler_handle_session envs (Suc n) d' (fst (ClientSession_write_line c1 response))))"
proof -
  have "ClientSession_read_line c = (l, c\<lparr>incoming := rest\<rparr>)"
    using read_line_crlf[OF assms(1) _ _ assms(3)] assms(2) by (simp add: request_ok_def)
  then show ?thesis using assms(1) by (subst CommandHandler_handle_session.simps) (simp add: Let_def)
qed

definition answered :: "connection \<Rightarrow> string list \<Rightarrow> connection" where
  "answered c rs =
     ClientSession_mark_closed (c\<lparr>incoming := [], outgoing := outgoing c @ concat (map terminated rs)\<rparr>)"

lemma answered_Cons:
  "answered (c\<lparr>incoming := x, outgoing := outgoing c @ terminated r\<rparr>) rs = answered c (r # rs)"
  by (simp add: answered_def)

lemma answered_incoming: "answered (c\<lparr>incoming := x\<rparr>) rs = answered c rs"
  by (simp add: answered_def)

lemma handle_session_serves:
  assumes "alive c" "write_results c = []" "\<forall>l \<in> set ls. request_ok l" "incoming c = requests ls"
  shows "CommandHandler_handle_session envs n d c =
     bind_res (serve envs n d ls) (\<lambda>(d', rs). Inr (d', answered c rs))"
  using assms
proof (induction ls arbitrary: n d c)
  case Nil
  then show ?case using handle_session_eof[of c envs n d]
    by (simp add: answered_def) (metis (full_types) connection.surjective connection.update_convs(1,3))
next
  case (Cons l ls)
  let ?rest = "requests ls"
  let ?c1 = "c\<lparr>incoming := ?rest\<rparr>"
  have w: "fst (ClientSession_write_line ?c1 r) = ?c1\<lparr>outgoing := outgoing c @ terminated r\<rparr>" for r
    using Cons.prems by (simp add: session_write_open)
  have step: "CommandHandler_handle_session envs n d c =
     (if l = [] then CommandHandler_handle_session envs (Suc n) d ?c1
      else case parse_line l of
             None \<Rightarrow> CommandHandler_handle_session envs (Suc n) d
                       (?c1\<lparr>outgoing := outgoing c @ terminated ''-ERR empty command''\<rparr>)
           | Some cmd \<Rightarrow>
               bind_res (CommandDispatcher_dispatch (envs n) d cmd) (\<lambda>(d', response).
                 CommandHandler_handle_session envs (Suc n) d'
                   (?c1\<lparr>outgoing := outgoing c @ terminated response\<rparr>)))"
    using handle_session_line[of c l ?rest envs n d] Cons.prems unfolding Let_def w by simp
  have skip: "CommandHandler_handle_session envs (Suc n) d ?c1 =
      bind_res (serve envs (Suc n) d ls) (\<lambda>(d'', rs). Inr (d'', answered c rs))"
    using Cons.IH[of ?c1 "Suc n" d] Cons.prems by (simp add: answered_incoming)
  have reply: "CommandHandler_handle_session envs m d' (?c1\<lparr>outgoing := outgoing c @ terminated r\<rparr>) =
      bind_res (serve envs m d' ls) (\<lambda>(d'', rs). Inr (d'', answered c (r # rs)))" for m d' r
    using Cons.IH[of "?c1\<lparr>outgoing := outgoing c @ terminated r\<rparr>" m d'] Cons.prems
    by (simp add: answered_Cons)
  show ?case
    unfolding step serve.simps skip reply
    by (auto simp: bind_res_assoc case_prod_unfold intro!: bind_res_cong split: option.splits)
qed

section \<open>Invariants of a session\<close>

lemma handle_session_unfold:
  "CommandHandler_handle_session envs n d c =
     bind_res (session_round (envs n) d c) (\<lambda>(d', c', goes_on).
       if goes_on then CommandHandler_handle_session envs (Suc n) d' c' else Inr (d', c'))"
proof -
  obtain line c1 where r: "ClientSession_read_line c = (line, c1)" by (rule prod.exhaust)
  show ?thesis
    by (subst CommandHandler_handle_session.simps)
      (auto simp: session_round_def r Let_def bind_res_assoc case_prod_unfold intro!: bind_res_cong split: option.split)
qed

lemma session_round_progress:
  assumes "session_round env d c = Inr (d', c', goes_on)"
  shows "if goes_on then length (incoming c') < length (incoming c) else \<not> alive c'"
proof -
  obtain line c1 where r: "ClientSession_read_line c = (line, c1)" by (rule prod.exhaust)
  show ?thesis
    using assms read_line_consumes[OF r] by (auto simp: session_round_def r split: if_splits option.splits)
qed

lemma session_round_eof:
  assumes "alive c" "incoming c = []"
  shows "session_round env d c = Inr (d, ClientSession_mark_closed c, False)"
proof -
  have "ClientSession_read_line c = ([], ClientSession_mark_closed c)"
    using assms by (simp add: ClientSession_read_line_def) (metis (full_types) connection.surjective connection.update_convs(1))
  then show ?thesis using assms by (simp add: session_round_def ClientSession_mark_closed_def)
qed

lemma session_round_incoming:
  assumes "session_round env d c = Inr (d', c', goes_on)"
  shows "length (incoming c') \<le> length (incoming c)"
proof -
  obtain line c1 where r: "ClientSession_read_line c = (line, c1)" by (rule prod.exhaust)
  have "length (incoming c1) \<le> length (incoming c)"
    using r read_loop_consumes[of "[]" "incoming c"]
    by (auto simp: ClientSession_read_line_def Let_def split: prod.splits if_splits)
  then show ?thesis using assms by (auto simp: session_round_def r split: if_splits option.splits)
qed

lemma session_round_dead: "session_round env d c = Inr (d', c', goes_on) \<Longrightarrow> \<not> alive c \<Longrightarrow> \<not> alive c'"
  by (auto simp: session_round_def)

locale session_invariant =
  fixes P :: "CommandDispatcher \<Rightarrow> connection \<Rightarrow> bool" and E :: "call_env \<Rightarrow> bool"
  assumes read_inv: "P d c \<Longrightarrow> P d (snd (ClientSession_read_line c))"
    and write_inv: "P d c \<Longrightarrow> P d (fst (ClientSession_write_line c r))"
    and close_inv: "P d c \<Longrightarrow> P d (ClientSession_mark_closed c)"
    and dispatch_inv: "P d c \<Longrightarrow> E env \<Longrightarrow> parse_line line = Some cmd \<Longrightarrow>
       CommandDispatcher_dispatch env d cmd = Inr (d', r) \<Longrightarrow> P d' c"
begin

lemma round_keeps:
  assumes "session_round env d c = Inr (d', c', goes_on)" "P d c" "E env"
  shows "P d' c'"
proof -
  obtain line c1 where r: "ClientSession_read_line c = (line, c1)" by (rule prod.exhaust)
  have "P d c1" using read_inv[OF assms(2)] r by simp
  with assms show ?thesis
    using dispatch_inv[OF _ assms(3)] write_inv close_inv
    by (auto simp: session_round_def r split: if_splits option.splits)
qed

lemma session_keeps:
  assumes "CommandHandler_handle_session envs n d c = Inr (d', c')" "P d c" "\<forall>i. E (envs i)"
  shows "P d' c' \<and> \<not> alive c'"
  using assms
proof (induction "length (incoming c)" arbitrary: n d c rule: less_induct)
  case less
  note m = handle_session_unfold[of envs n d c]
  with less.prems(1) obtain d1 c1 goes_on where r: "session_round (envs n) d c = Inr (d1, c1, goes_on)"
    "(if goes_on then CommandHandler_handle_session envs (Suc n) d1 c1 else Inr (d1, c1)) = Inr (d', c')"
    by auto
  note P1 = round_keeps[OF r(1) less.prems(2)] and prog = session_round_progress[OF r(1)]
  show ?case
  proof (cases goes_on)
    case True
    then show ?thesis using less.hyps[of c1 "Suc n" d1] r(2) P1 prog less.prems(3) by simp
  qed (use r(2) P1 prog less.prems(3) in simp)
qed

end

interpretation owned: session_invariant "\<lambda>d c. socket \<ge> 0 \<and> fd_owned socket c" "\<lambda>_. True" for socket
  by unfold_locales (auto simp: fd_owned_read_line fd_owned_write_line fd_owned_mark_closed)

section \<open>What the wire can store\<close>

text \<open>
  No key or value holds a newline and, when \<open>strict\<close>, no key a space. Both formats on disk
  need the first, the log also the second.
\<close>

definition wire_store :: "bool \<Rightarrow> store \<Rightarrow> bool" where
  "wire_store strict m \<longleftrightarrow>
     (\<forall>k e. m k = Some e \<longrightarrow> newline \<notin> set k \<and> (strict \<longrightarrow> CHR '' '' \<notin> set k) \<and> newline \<notin> set (entry_value e))"

lemma word_chars: "is_word w \<Longrightarrow> newline \<notin> set w \<and> CHR '' '' \<notin> set w"
  by (auto simp: is_word_def isspace_def newline_def)

lemma join_words_chars:
  assumes "\<forall>w \<in> set (w # ws). is_word w"
  shows "newline \<notin> set (join_words (w # ws))"
proof -
  have "\<forall>x \<in> set (w # ws). newline \<notin> set x" using assms word_chars by blast
  moreover have "newline \<noteq> CHR '' ''" by (simp add: newline_def)
  ultimately show ?thesis unfolding join_words_Cons by auto
qed

lemma show_int_chars: "newline \<notin> set (show_int i)"
proof -
  have "newline \<notin> set (show_nat n)" for n
    using show_nat_digits[of n] isdigit_not_special by (auto simp: isspace_def newline_def)
  then show ?thesis by (auto simp: show_int_def newline_def)
qed

lemma wire_store_upd:
  "wire_store strict m \<Longrightarrow> is_word k \<Longrightarrow> newline \<notin> set (entry_value e) \<Longrightarrow> wire_store strict (m(k \<mapsto> e))"
  using word_chars[of k] by (auto simp: wire_store_def)

lemma wire_store_fresh:
  "wire_store strict m \<Longrightarrow> is_word k \<Longrightarrow> newline \<notin> set v \<Longrightarrow> wire_store strict (m(k \<mapsto> fresh_entry v))"
  by (rule wire_store_upd) (simp_all add: fresh_entry_def)

lemma wire_store_sub: "wire_store strict m \<Longrightarrow> m' \<subseteq>\<^sub>m m \<Longrightarrow> wire_store strict m'"
  unfolding wire_store_def map_le_def by (metis domI)

lemma wire_put_args: "wire_store strict m \<Longrightarrow> \<forall>a \<in> set args. is_word a \<Longrightarrow> wire_store strict (put_args args m)"
proof (induction args m rule: put_args.induct)
  case (1 k v rest m)
  then have "wire_store strict (m(k \<mapsto> fresh_entry v))" using wire_store_fresh[of strict m k v] word_chars[of v] by simp
  with 1 show ?case by (simp add: fun_upd_def)
qed simp_all

lemma wire_spec_add:
  "wire_store strict m \<Longrightarrow> is_word k \<Longrightarrow> spec_add now m k n = Inr (m', r) \<Longrightarrow> wire_store strict m'"
  using wire_store_fresh[OF _ _ show_int_chars] by (auto simp: spec_add_def)

lemma wire_set:
  assumes "wire_store strict m" "\<forall>a \<in> set args. is_word a" "spec_command clock Set args m = Some (Inr (m', r))"
  shows "wire_store strict m'"
proof (cases args rule: arg_pairs.cases)
  case (1 k w ws)
  then show ?thesis using assms wire_store_fresh[of strict m k "join_words (w # ws)"] join_words_chars[of w ws]
    by (simp del: join_words.simps)
qed (use assms in auto)

lemma wire_expire:
  assumes "wire_store strict m" "spec_command clock Expire args m = Some (Inr (m', r))"
  shows "wire_store strict m'"
  using assms
  by (cases "(clock, Expire, args, m)" rule: spec_command.cases)
    (auto simp: wire_store_def split: option.splits if_splits)

lemma wire_counter:
  assumes "wire_store strict m" "\<forall>a \<in> set args. is_word a" "ty = Incr \<or> ty = Decr \<or> ty = Incrby"
    and "spec_command clock ty args m = Some (Inr (m', r))"
  shows "wire_store strict m'"
  using assms
  by (cases "(clock, ty, args, m)" rule: spec_command.cases) (auto dest: wire_spec_add)

lemma spec_command_sub:
  assumes "ty = Get \<or> ty = Delete \<or> ty = Exists \<or> ty = Mget \<or> ty = Flushdb \<or> ty = Dbsize"
    and "spec_command clock ty args m = Some (Inr (m', r))"
  shows "m' \<subseteq>\<^sub>m m"
  using assms
  by (cases "(clock, ty, args, m)" rule: spec_command.cases) (auto simp: map_le_def split: if_splits)

lemma wire_spec_command:
  assumes "wire_store strict m" "\<forall>a \<in> set args. is_word a" "spec_command clock ty args m = Some (Inr (m', r))"
  shows "wire_store strict m'"
proof -
  note sub = wire_store_sub[OF assms(1) spec_command_sub[OF _ assms(3)]]
  note counter = wire_counter[OF assms(1,2) _ assms(3)]
  show ?thesis
  proof (cases ty)
    case Set
    then show ?thesis using wire_set assms by blast
  next
    case Expire
    then show ?thesis using wire_expire assms by blast
  next
    case Mset
    then show ?thesis using wire_put_args[OF assms(1,2)] assms by (auto split: if_splits)
  qed (use sub counter assms(3) in simp_all)
qed

lemma wire_dispatch:
  assumes "dispatcher_ok (env_hash env) d" "wire_store strict (stored (env_hash env) d)"
    and "\<forall>a \<in> set (cmd_args cmd). is_word a" "CommandDispatcher_dispatch env d cmd = Inr (d', reply)"
  shows "wire_store strict (stored (env_hash env) d')"
proof (cases "spec_command (env_clock env) (cmd_type cmd) (cmd_args cmd) (stored (env_hash env) d)")
  case None
  then show ?thesis using dispatch_other[OF assms(1) None assms(4)] assms(2) by simp
next
  case (Some spec)
  with dispatch_refines[OF assms(1) Some] assms(4)
  have "spec = Inr (stored (env_hash env) d', reply)" by simp
  with Some wire_spec_command[OF assms(2,3)] show ?thesis by blast
qed

interpretation sane: session_invariant "\<lambda>d c. dispatcher_ok h d" "\<lambda>env. env_hash env = h" for h
  by unfold_locales (use dispatch_ok in blast)+

lemma session_round_fault:
  assumes "session_round env d c = Inl f" "dispatcher_ok (env_hash env) d"
  shows "f \<in> {Invalid_argument, Out_of_range, Signed_overflow}"
  using assms dispatch_fault[OF assms(2)]
  by (fastforce simp: session_round_def Let_def bind_res_eq_Inl split: if_splits option.splits prod.splits)

lemma session_fault:
  assumes "CommandHandler_handle_session envs n d c = Inl f" "dispatcher_ok h d" "\<forall>i. env_hash (envs i) = h"
  shows "f \<in> {Invalid_argument, Out_of_range, Signed_overflow}"
  using assms
proof (induction "length (incoming c)" arbitrary: n d c rule: less_induct)
  case less
  note m = handle_session_unfold[of envs n d c]
  show ?case
  proof (cases "session_round (envs n) d c")
    case (Inl f')
    then show ?thesis using session_round_fault[OF Inl] less.prems m by simp
  next
    case (Inr r)
    then obtain d1 c1 where "session_round (envs n) d c = Inr (d1, c1, True)"
      "CommandHandler_handle_session envs (Suc n) d1 c1 = Inl f"
      using less.prems(1) m by (cases r) (auto split: if_splits)
    then show ?thesis
      using less.hyps[of c1 "Suc n" d1] session_round_progress sane.round_keeps[of "envs n" d c d1 c1 True h] less.prems by simp
  qed
qed

interpretation wired: session_invariant
  "\<lambda>d c. dispatcher_ok h d \<and> wire_store strict (stored h d)" "\<lambda>env. env_hash env = h" for h strict
  by unfold_locales (use dispatch_ok wire_dispatch parse_line_words in blast)+

section \<open>Properties\<close>

text \<open>
  C4: a session over a well-behaved socket answers line by line: for any requests below the
  line limit, each ended by CR LF, \<open>handle_session\<close> dispatches the parsed commands in order,
  writes their replies in order, each ended by a newline, answers a blank line with an error
  and an empty line with nothing, and at end of input closes the session; it faults exactly
  when one of the commands does.
\<close>

theorem session_transcript:
  assumes "alive c" "write_results c = []" "\<forall>l \<in> set ls. request_ok l" "incoming c = requests ls"
  shows "CommandHandler_handle_session envs n d c =
     (case serve envs n d ls of
        Inl f \<Rightarrow> Inl f
      | Inr (d', rs) \<Rightarrow>
          Inr (d', ClientSession_mark_closed
                 (c\<lparr>incoming := [], outgoing := outgoing c @ concat (map terminated rs)\<rparr>)))"
  unfolding handle_session_serves[OF assms] by (cases "serve envs n d ls") (auto simp: answered_def)

theorem session_transcript_witness:
  "\<exists>d d' c'. CommandHandler_handle_session (\<lambda>_. quiet_env)
       0 d (fst (ClientSession_new 1 5 ''peer'' (requests [''PING'', '' '', ''NOPE'']) [])) = Inr (d', c')
     \<and> outgoing c' = concat (map terminated [''+PONG'', ''-ERR empty command'', ''-ERR unknown command''])
     \<and> \<not> alive c'"
proof -
  let ?ls = "[''PING'', '' '', ''NOPE'']"
  let ?c = "fst (ClientSession_new 1 5 ''peer'' (requests ?ls) [])"
  have p: "parse_line ''PING'' = Some \<lparr>cmd_type = Ping, cmd_name = ''PING'', cmd_args = []\<rparr>"
    "parse_line '' '' = None"
    "parse_line ''NOPE'' = Some \<lparr>cmd_type = Unknown, cmd_name = ''NOPE'', cmd_args = []\<rparr>" by code_simp+
  obtain d' where s: "serve (\<lambda>_. quiet_env) 0 new_dispatcher ?ls
      = Inr (d', [''+PONG'', ''-ERR empty command'', ''-ERR unknown command''])"
    by (simp add: p CommandDispatcher_dispatch_def)
  have c: "alive ?c" "write_results ?c = []" "incoming ?c = requests ?ls" "outgoing ?c = []"
    by (simp_all add: ClientSession_new_def next_id_def)
  have "\<forall>l \<in> set ?ls. request_ok l" by (simp add: request_ok_def newline_def max_line_def)
  then have h: "CommandHandler_handle_session (\<lambda>_. quiet_env) 0 new_dispatcher ?c = Inr (d', ClientSession_mark_closed
      (?c\<lparr>incoming := [], outgoing := concat (map terminated [''+PONG'', ''-ERR empty command'', ''-ERR unknown command''])\<rparr>))"
    using session_transcript[OF c(1,2) _ c(3), of "\<lambda>_. quiet_env" 0 new_dispatcher] unfolding s c(4) by simp
  have "outgoing (ClientSession_mark_closed (?c\<lparr>incoming := [], outgoing := x\<rparr>)) = x" for x
    by (simp add: ClientSession_mark_closed_def)
  then show ?thesis using h mark_closed_dead by blast
qed

text \<open>
  C26: whatever bytes arrive and however the writes fare, a session comes to an end: it returns
  with its socket closed exactly once and the store and the registry well-formed, or one of
  its commands raises a fault of number parsing or overflow.
\<close>

theorem session_ends_closed:
  assumes "socket \<ge> 0" "dispatcher_ok h d" "\<forall>i. env_hash (envs i) = h"
  shows "case CommandHandler_handle_session envs n d (fst (ClientSession_new counter socket peer reads writes)) of
       Inl f \<Rightarrow> f \<in> {Invalid_argument, Out_of_range, Signed_overflow}
     | Inr (d', c') \<Rightarrow> \<not> alive c' \<and> closed_fds c' = [socket] \<and> dispatcher_ok h d'"
proof (cases "CommandHandler_handle_session envs n d (fst (ClientSession_new counter socket peer reads writes))")
  case (Inl f)
  then show ?thesis using session_fault[OF Inl assms(2,3)] by simp
next
  case (Inr r)
  obtain d' c' where r: "r = (d', c')" by (cases r)
  have "fd_owned socket (fst (ClientSession_new counter socket peer reads writes))"
    by (simp add: fd_owned_def ClientSession_new_def next_id_def)
  with owned.session_keeps[OF Inr[unfolded r], of socket] sane.session_keeps[OF Inr[unfolded r] assms(2,3)] assms(1)
  show ?thesis by (simp add: fd_owned_def Inr r)
qed

theorem session_ends_closed_witness:
  "\<exists>envs d d' c'. CommandHandler_handle_session envs 0 d (fst (ClientSession_new 1 5 ''peer'' [Some (CHR ''x'')] [])) = Inr (d', c')
     \<and> closed_fds c' = [5]"
proof -
  let ?c = "fst (ClientSession_new 1 5 ''peer'' [Some (CHR ''x'')] [])"
  obtain c' where r: "CommandHandler_handle_session (\<lambda>_. quiet_env) 0 new_dispatcher ?c = Inr (new_dispatcher, c')"
    using CommandHandler_handle_session.simps[of "\<lambda>_. quiet_env" 0 new_dispatcher ?c]
    by (simp add: ClientSession_read_line_def ClientSession_new_def next_id_def newline_def max_line_def Let_def)
  have "dispatcher_ok (\<lambda>_. 0) new_dispatcher" by (rule dispatcher_ok_new)
  from session_ends_closed[of 5 "\<lambda>_. 0" new_dispatcher "\<lambda>_. quiet_env" 0 1 "''peer''" "[Some (CHR ''x'')]" "[]"] r this show ?thesis
    by (auto intro!: exI[of _ "\<lambda>_. quiet_env"] exI[of _ new_dispatcher])
qed

end
