(* ===== verification/Accept.thy ===== *)
theory Accept
  imports Net
begin

text \<open>
  Accepting connections: \<open>IoMultiplexer\<close> (src/net/io_multiplexer.cpp), \<open>AsyncAcceptLoop\<close> (src/net/async_accept_loop.cpp) and the blocking
  \<open>AcceptLoop\<close> (src/net/accept_loop.cpp).

  The multiplexer is written twice in the source, over \<open>epoll\<close> and, for macOS, over
  \<open>kqueue\<close>. The two branches differ in the system call and in how the timeout is passed
  (\<open>kevent_timeout\<close>); what they do with the answer is the same, so the definitions stand for
  both, and a result of \<open>epoll_ctl\<close> or \<open>kevent\<close> is one argument.
  What the kernel answers is data. An \<open>accept_event\<close> is the outcome of one call of
  \<open>accept\<close>: a negative descriptor for an error, otherwise the new descriptor, the peer
  address as \<open>inet_ntop\<close> and \<open>ntohs\<close> give it, and the behaviour of the new socket. One
  round of a loop is what happens in it, signals included; a loop leaves when
  \<open>running()\<close> is false, so a run is a list of rounds. The session handler is a function on the state \<open>'s\<close> it changes.
\<close>

section \<open>Multiplexer\<close>

record IoMultiplexer =
  poll_fd :: int
  interest :: "int list"

definition IoMultiplexer_new :: "int \<Rightarrow> IoMultiplexer" where
  "IoMultiplexer_new queue_fd = \<lparr>poll_fd = queue_fd, interest = []\<rparr>"

definition IoMultiplexer_destroy :: "IoMultiplexer \<Rightarrow> IoMultiplexer \<times> int list" where
  "IoMultiplexer_destroy m = (if poll_fd m \<ge> 0 then (m\<lparr>poll_fd := -1\<rparr>, [poll_fd m]) else (m, []))"

definition IoMultiplexer_add_read :: "int \<Rightarrow> IoMultiplexer \<Rightarrow> int \<Rightarrow> IoMultiplexer \<times> bool" where
  "IoMultiplexer_add_read ctl_result m socket =
     (if ctl_result = 0 then (m\<lparr>interest := interest m @ [socket]\<rparr>, True) else (m, False))"

definition IoMultiplexer_remove :: "int \<Rightarrow> IoMultiplexer \<Rightarrow> int \<Rightarrow> IoMultiplexer \<times> bool" where
  "IoMultiplexer_remove ctl_result m socket =
     (if ctl_result = 0 then (m\<lparr>interest := removeAll socket (interest m)\<rparr>, True) else (m, False))"

text \<open>
  \<open>wait\<close> gets at most 64 events, in the order of the kernel; \<open>Inl n\<close> is a result \<open>n \<le> 0\<close>
  (nothing ready before the timeout, or an error).
\<close>

text \<open>The \<open>timespec\<close> of the \<open>kqueue\<close> branch: seconds and nanoseconds, or a null pointer to wait for ever.\<close>

definition kevent_timeout :: "int \<Rightarrow> (int \<times> int) option" where
  "kevent_timeout timeout_ms =
     (if timeout_ms \<ge> 0 then Some (timeout_ms div 1000, (timeout_ms mod 1000) * 1000000) else None)"

type_synonym poll_result = "int + int list"

definition IoMultiplexer_wait ::
    "('s \<Rightarrow> int \<Rightarrow> 's) option \<Rightarrow> poll_result \<Rightarrow> 's \<Rightarrow> ('s \<times> int list) \<times> int" where
  "IoMultiplexer_wait on_readable events st =
     (case events of
        Inl count \<Rightarrow> ((st, []), count)
      | Inr fds \<Rightarrow>
          (foldl (\<lambda>(st, ready) socket.
              ((case on_readable of None \<Rightarrow> st | Some f \<Rightarrow> f st socket), ready @ [socket]))
            (st, []) (take 64 fds), int (length (take 64 fds))))"

section \<open>Accepting\<close>

record accept_event =
  accepted_fd :: int
  peer_ip :: string
  peer_port :: "16 word"
  peer_known :: bool
  sock_reads :: "char option list"
  sock_writes :: "int list"

definition peer_text :: "accept_event \<Rightarrow> string" where
  "peer_text ev = peer_ip ev @ '':'' @ show_nat (unat (peer_port ev))"

definition AsyncAcceptLoop_handle_readable ::
    "('s \<Rightarrow> connection \<Rightarrow> 's) option \<Rightarrow> accept_event \<Rightarrow> 's \<times> 64 word \<Rightarrow> 's \<times> 64 word" where
  "AsyncAcceptLoop_handle_readable handler ev st =
     (let (s, counter) = st in
      if accepted_fd ev < 0 then (s, counter)
      else
        let (session, counter') =
              ClientSession_new counter (accepted_fd ev) (peer_text ev) (sock_reads ev) (sock_writes ev)
        in (case handler of None \<Rightarrow> s | Some f \<Rightarrow> f s session, counter'))"

text \<open>
  A round of the asynchronous loop: a signal that may arrive while it waits, the answer of
  \<open>epoll_wait\<close>, and the outcome of \<open>accept\<close> if it is called. A signal acts only while its
  action is the handler of the server. The state also holds the counter of session ids.
\<close>

record accept_round =
  round_signal :: "signal option"
  round_poll :: poll_result
  round_event :: accept_event

definition AsyncAcceptLoop_round ::
    "('s \<Rightarrow> connection \<Rightarrow> 's) option \<Rightarrow> int \<Rightarrow> 's \<times> 64 word \<Rightarrow> accept_round \<Rightarrow> 's \<times> 64 word" where
  "AsyncAcceptLoop_round handler lfd st r =
     fst (fst (IoMultiplexer_wait
       (Some (\<lambda>st socket. if socket = lfd then AsyncAcceptLoop_handle_readable handler (round_event r) st else st))
       (round_poll r) st))"

definition round_signalled :: "accept_round \<Rightarrow> TcpServer \<times> logger \<Rightarrow> TcpServer \<times> logger" where
  "round_signalled r srv =
     (case round_signal r of
        None \<Rightarrow> srv
      | Some sig \<Rightarrow> if sig \<in> handled (fst srv) then signal_action sig srv else srv)"

fun AsyncAcceptLoop_loop ::
    "('s \<Rightarrow> connection \<Rightarrow> 's) option \<Rightarrow> accept_round list \<Rightarrow> TcpServer \<times> logger \<Rightarrow> 's \<times> 64 word
       \<Rightarrow> (TcpServer \<times> logger) \<times> 's \<times> 64 word" where
  "AsyncAcceptLoop_loop handler [] srv st = (srv, st)"
| "AsyncAcceptLoop_loop handler (r # rounds) srv st =
     (if \<not> tcp_running (fst srv) then (srv, st)
      else let srv1 = round_signalled r srv in
           AsyncAcceptLoop_loop handler rounds srv1 (AsyncAcceptLoop_round handler (listen_fd (fst srv1)) st r))"

definition AsyncAcceptLoop_run_until_stopped ::
    "('s \<Rightarrow> connection \<Rightarrow> 's) option \<Rightarrow> int \<Rightarrow> accept_round list \<Rightarrow> IoMultiplexer
       \<Rightarrow> TcpServer \<times> logger \<Rightarrow> 's \<times> 64 word \<Rightarrow> IoMultiplexer \<times> (TcpServer \<times> logger) \<times> 's \<times> 64 word" where
  "AsyncAcceptLoop_run_until_stopped handler ctl_result rounds m srv st =
     (let (m', _) = IoMultiplexer_add_read ctl_result m (listen_fd (fst srv))
      in (m', AsyncAcceptLoop_loop handler rounds srv st))"

section \<open>The blocking loop\<close>

record 's AcceptLoop =
  loop_state :: 's
  sessions :: "connection list"
  loop_counter :: "64 word"
  loop_log :: logger

definition AcceptLoop_peer_address :: "accept_event \<Rightarrow> string" where
  "AcceptLoop_peer_address ev = (if \<not> peer_known ev then ''unknown'' else peer_text ev)"

definition AcceptLoop_run_once ::
    "('s \<Rightarrow> connection \<Rightarrow> 's) option \<Rightarrow> bool \<Rightarrow> bool \<Rightarrow> 's AcceptLoop \<Rightarrow> accept_event \<Rightarrow> 's AcceptLoop" where
  "AcceptLoop_run_once handler running_before still_running l ev =
     (if \<not> running_before then l
      else if accepted_fd ev < 0 then
        (if still_running then l\<lparr>loop_log := log_warn (loop_log l) ''accept failed''\<rparr> else l)
      else
        let (session, counter) =
              ClientSession_new (loop_counter l) (accepted_fd ev) (AcceptLoop_peer_address ev)
                (sock_reads ev) (sock_writes ev);
            l1 = l\<lparr>loop_counter := counter,
                   loop_log := log_info (loop_log l) (''client connected id='' @ show_size (session_id session)
                     @ '' peer='' @ peer_addr session)\<rparr> in
        (case handler of
           Some f \<Rightarrow> l1\<lparr>loop_state := f (loop_state l1) session\<rparr>
         | None \<Rightarrow> l1\<lparr>sessions := sessions l1 @ [session]\<rparr>))"

definition AcceptLoop_run_until_stopped ::
    "('s \<Rightarrow> connection \<Rightarrow> 's) option \<Rightarrow> (accept_event \<times> bool \<times> bool) list \<Rightarrow> 's AcceptLoop \<Rightarrow> 's AcceptLoop \<times> connection list" where
  "AcceptLoop_run_until_stopped handler rounds l =
     (let l1 = foldl (\<lambda>l (ev, running_before, still_running).
                  let l' = AcceptLoop_run_once handler running_before still_running l ev
                  in l'\<lparr>sessions := filter alive (sessions l')\<rparr>) l rounds
      in (l1\<lparr>sessions := []\<rparr>, map ClientSession_mark_closed (sessions l1)))"

definition AcceptLoop_active_sessions :: "'s AcceptLoop \<Rightarrow> nat" where
  "AcceptLoop_active_sessions l = length (sessions l)"

section \<open>Lemmas\<close>

lemma wait_ready:
  "snd (fst (IoMultiplexer_wait cb events st)) = (case events of Inl _ \<Rightarrow> [] | Inr fds \<Rightarrow> take 64 fds)"
proof -
  have "snd (foldl (\<lambda>(st, ready) socket. (g st socket, ready @ [socket])) (st, acc) fds) = acc @ fds"
    for g :: "'s \<Rightarrow> int \<Rightarrow> 's" and acc fds st
    by (induction fds arbitrary: st acc) auto
  from this[of "\<lambda>st socket. case cb of None \<Rightarrow> st | Some f \<Rightarrow> f st socket" st "[]"]
  show ?thesis by (simp add: IoMultiplexer_wait_def split: sum.splits)
qed

lemma wait_state:
  "fst (fst (IoMultiplexer_wait (Some f) (Inr fds) st)) = foldl f st (take 64 fds)"
proof -
  have "fst (foldl (\<lambda>(st, ready) socket. (f st socket, ready @ [socket])) (st, acc) fds) = foldl f st fds"
    for acc fds st by (induction fds arbitrary: st acc) auto
  then show ?thesis by (simp add: IoMultiplexer_wait_def)
qed

lemma round_listen_fd:
  "round_poll r = Inr [lfd] \<Longrightarrow>
     AsyncAcceptLoop_round handler lfd st r = AsyncAcceptLoop_handle_readable handler (round_event r) st"
  by (simp add: AsyncAcceptLoop_round_def wait_state)

lemma round_timeout: "round_poll r = Inl n \<Longrightarrow> AsyncAcceptLoop_round handler lfd st r = st"
  by (simp add: AsyncAcceptLoop_round_def IoMultiplexer_wait_def)

lemma stop_not_running [simp]: "\<not> tcp_running (TcpServer_stop t)"
  by (simp add: TcpServer_stop_def TcpServer_close_listen_def)

lemma loop_signal_stops:
  assumes "active_server (fst srv)" "round_signal r = Some sig" "sig \<in> handled (fst srv)"
  shows "\<not> tcp_running (fst (round_signalled r srv))"
  using assms by (simp add: round_signalled_def signal_action_def forward_signal_def Let_def)

text \<open>When a signal arrives the loop ends in that round and the listening socket is closed.\<close>

lemma loop_stops_at_signal:
  assumes "tcp_running (fst srv)" "active_server (fst srv)" "handled (fst srv) = {SIGINT, SIGTERM}"
    and "round_signal r = Some sig" "\<forall>r \<in> set rs. round_signal r = None"
  shows "fst (AsyncAcceptLoop_loop handler (rs @ r # rest) srv st) = signal_action sig srv"
  using assms
proof (induction rs arbitrary: st)
  case Nil
  then have r: "round_signalled r srv = signal_action sig srv" by (cases sig) (simp_all add: round_signalled_def)
  moreover have "\<not> tcp_running (fst (signal_action sig srv))"
    using Nil.prems by (simp add: signal_action_def forward_signal_def Let_def)
  ultimately show ?case using Nil.prems(1) by (cases rest) (simp_all add: Let_def)
next
  case (Cons x xs)
  then show ?case by (simp add: round_signalled_def)
qed

section \<open>What a round keeps\<close>

text \<open>A session that has just been accepted: open, on a descriptor of its own.\<close>

definition fresh_session :: "connection \<Rightarrow> bool" where
  "fresh_session c \<longleftrightarrow> alive c \<and> (\<exists>socket \<ge> 0. fd_owned socket c)"

lemma fresh_session_new: "socket \<ge> 0 \<Longrightarrow> fresh_session (fst (ClientSession_new counter socket peer reads writes))"
  by (auto simp: fresh_session_def ClientSession_new_def next_id_def fd_owned_def)

lemma handle_readable_keeps:
  assumes "\<And>s c. I s \<Longrightarrow> fresh_session c \<Longrightarrow> I (f s c)" "I (fst st)"
  shows "I (fst (AsyncAcceptLoop_handle_readable (Some f) ev st))"
  using assms fresh_session_new[of "accepted_fd ev" "snd st" "peer_text ev" "sock_reads ev" "sock_writes ev"]
  by (simp add: AsyncAcceptLoop_handle_readable_def case_prod_unfold Let_def)

lemma round_keeps_invariant:
  assumes "\<And>s c. I s \<Longrightarrow> fresh_session c \<Longrightarrow> I (f s c)" "I (fst st)"
  shows "I (fst (AsyncAcceptLoop_round (Some f) lfd st r))"
proof (cases "round_poll r")
  case (Inr fds)
  have "I (fst (foldl (\<lambda>st socket. if socket = lfd then AsyncAcceptLoop_handle_readable (Some f) (round_event r) st else st)
      st (take 64 fds)))"
    by (rule foldl_invariant[where I = "\<lambda>st. I (fst st)"]) (simp_all add: assms handle_readable_keeps[of I, OF assms(1)])
  then show ?thesis by (simp add: AsyncAcceptLoop_round_def Inr wait_state)
qed (simp add: round_timeout assms(2))

text \<open>The listening socket of a server that was opened on \<open>lfd\<close>: open while it runs, then closed once.\<close>

definition listener_ok :: "int \<Rightarrow> TcpServer \<Rightarrow> bool" where
  "listener_ok lfd t \<longleftrightarrow> lfd \<ge> 0 \<and>
     (if tcp_running t then listen_fd t = lfd \<and> tcp_closed t = [] \<and> active_server t \<and> handled t = {SIGINT, SIGTERM}
      else listen_fd t = -1 \<and> tcp_closed t = [lfd])"

lemma listener_ok_stop: "listener_ok lfd t \<Longrightarrow> listener_ok lfd (TcpServer_stop t)"
  by (simp add: listener_ok_def TcpServer_stop_def TcpServer_close_listen_def)

lemma listener_ok_signal: "listener_ok lfd (fst srv) \<Longrightarrow> listener_ok lfd (fst (signal_action sig srv))"
  by (auto simp: listener_ok_def signal_action_def forward_signal_def TcpServer_stop_def TcpServer_close_listen_def
      Let_def split: if_splits)

lemma listener_ok_signalled: "listener_ok lfd (fst srv) \<Longrightarrow> listener_ok lfd (fst (round_signalled r srv))"
  by (simp add: round_signalled_def listener_ok_signal split: option.split)

lemma signal_stops: "listener_ok lfd (fst srv) \<Longrightarrow> \<not> tcp_running (fst (signal_action sig srv))"
  by (auto simp: listener_ok_def signal_action_def forward_signal_def TcpServer_stop_def TcpServer_close_listen_def Let_def)

lemma listener_ok_bound:
  assumes "TcpServer_bind_and_listen os t = (t', True)" "\<not> tcp_running t" "tcp_closed t = []"
  shows "listener_ok (socket_result os) t'" "tcp_running t'"
  using bind_and_listen_result[OF assms(1,2)] assms(3) by (simp_all add: listener_ok_def)

lemma kevent_timeout_exact:
  assumes "kevent_timeout ms = Some (sec, nsec)"
  shows "sec * 1000000000 + nsec = ms * 1000000 \<and> 0 \<le> nsec \<and> nsec < 1000000000"
proof -
  have "(ms div 1000 * 1000 + ms mod 1000) * 1000000 = ms * 1000000" by simp
  then have "ms div 1000 * 1000000000 + ms mod 1000 * 1000000 = ms * 1000000" by (simp only: distrib_right)
  with assms show ?thesis by (auto simp: kevent_timeout_def split: if_splits)
qed

end
