(* ===== verification/Thread_Pool.thy ===== *)
theory Thread_Pool
  imports Prelude "HOL-Library.Multiset"
begin

text \<open>
  \<open>ThreadPool\<close> of src/concurrency/thread_pool.cpp as a step relation. Every access to the
  queue happens under \<open>mutex_\<close>, so a critical section is one step: \<open>enqueue\<close>, the first
  half of \<open>shutdown\<close>, and the section of \<open>worker_loop\<close> between the condition variable and
  the pop, which a worker enters only when the predicate of \<open>cv_.wait\<close> holds. Running a
  task (\<open>if (task) task();\<close>, outside the lock, a no-op for an empty function) lies between
  a take step and a finish step of its worker, so tasks of different workers overlap in
  every order. \<open>shutdown\<close> returns when every worker has returned, which is what \<open>join\<close>
  waits for.

  The fields \<open>accepted\<close>, \<open>started\<close> and \<open>finished\<close> are history: the tasks pushed to the
  queue, popped from it and completed, in that order.
\<close>

section \<open>Model\<close>

datatype 'a worker = Waiting | Running 'a | Exited

record 'a ThreadPool =
  tasks :: "'a list"
  workers :: "'a worker list"
  stopping :: bool
  accepted :: "'a list"
  started :: "'a list"
  finished :: "'a list"

definition ThreadPool_new :: "nat \<Rightarrow> 'a ThreadPool" where
  "ThreadPool_new worker_count =
     \<lparr>tasks = [], workers = replicate (if worker_count = 0 then 1 else worker_count) Waiting,
      stopping = False, accepted = [], started = [], finished = []\<rparr>"

definition ThreadPool_enqueue :: "'a ThreadPool \<Rightarrow> 'a \<Rightarrow> 'a ThreadPool" where
  "ThreadPool_enqueue p task =
     (if stopping p then p else p\<lparr>tasks := tasks p @ [task], accepted := accepted p @ [task]\<rparr>)"

definition ThreadPool_shutdown :: "'a ThreadPool \<Rightarrow> 'a ThreadPool" where
  "ThreadPool_shutdown p = (if stopping p then p else p\<lparr>stopping := True\<rparr>)"

text \<open>
  The second half of \<open>shutdown\<close>, once every worker has returned. The destructor calls \<open>shutdown\<close>
  again, which returns at once when the pool has been stopped before.
\<close>

definition ThreadPool_join :: "'a ThreadPool \<Rightarrow> 'a ThreadPool" where
  "ThreadPool_join p = p\<lparr>workers := []\<rparr>"

definition ThreadPool_destroy :: "'a ThreadPool \<Rightarrow> 'a ThreadPool" where
  "ThreadPool_destroy p = ThreadPool_shutdown p"

definition ThreadPool_pending :: "'a ThreadPool \<Rightarrow> nat" where
  "ThreadPool_pending p = length (tasks p)"

definition ThreadPool_workers :: "'a ThreadPool \<Rightarrow> nat" where
  "ThreadPool_workers p = length (workers p)"

definition worker_may_wake :: "'a ThreadPool \<Rightarrow> bool" where
  "worker_may_wake p \<longleftrightarrow> stopping p \<or> tasks p \<noteq> []"

definition worker_take :: "nat \<Rightarrow> 'a ThreadPool \<Rightarrow> 'a ThreadPool" where
  "worker_take i p =
     (case tasks p of
        [] \<Rightarrow> p\<lparr>workers := (workers p)[i := Exited]\<rparr>
      | task # rest \<Rightarrow>
          p\<lparr>tasks := rest, workers := (workers p)[i := Running task], started := started p @ [task]\<rparr>)"

definition worker_finish :: "nat \<Rightarrow> 'a \<Rightarrow> 'a ThreadPool \<Rightarrow> 'a ThreadPool" where
  "worker_finish i task p =
     p\<lparr>workers := (workers p)[i := Waiting], finished := finished p @ [task]\<rparr>"

inductive worker_step :: "'a ThreadPool \<Rightarrow> 'a ThreadPool \<Rightarrow> bool" where
  take: "i < length (workers p) \<Longrightarrow> workers p ! i = Waiting \<Longrightarrow> worker_may_wake p \<Longrightarrow>
     worker_step p (worker_take i p)"
| finish: "i < length (workers p) \<Longrightarrow> workers p ! i = Running task \<Longrightarrow>
     worker_step p (worker_finish i task p)"

inductive_cases worker_stepE: "worker_step p q"

inductive thread_step :: "'a ThreadPool \<Rightarrow> 'a ThreadPool \<Rightarrow> bool" where
  enqueue: "thread_step p (ThreadPool_enqueue p task)"
| shutdown: "thread_step p (ThreadPool_shutdown p)"
| worker: "worker_step p q \<Longrightarrow> thread_step p q"

inductive_cases thread_stepE: "thread_step p q"

section \<open>Invariant\<close>

fun running_task :: "'a worker \<Rightarrow> 'a multiset" where
  "running_task (Running t) = {#t#}"
| "running_task _ = {#}"

definition running_tasks :: "'a ThreadPool \<Rightarrow> 'a multiset" where
  "running_tasks p = sum_list (map running_task (workers p))"

definition threads_ok :: "'a ThreadPool \<Rightarrow> bool" where
  "threads_ok p \<longleftrightarrow>
     accepted p = started p @ tasks p
     \<and> mset (started p) = mset (finished p) + running_tasks p
     \<and> (Exited \<in> set (workers p) \<longrightarrow> stopping p \<and> tasks p = [])"

lemma sum_list_update_multiset:
  fixes f :: "'b \<Rightarrow> 'a multiset"
  assumes "i < length xs"
  shows "sum_list (map f (xs[i := x])) + f (xs ! i) = sum_list (map f xs) + f x"
proof -
  have "sum_list (map f (xs[i := x])) = sum_list (map f (take i xs)) + (f x + sum_list (map f (drop (Suc i) xs)))"
    using assms by (simp add: upd_conv_take_nth_drop)
  moreover have "sum_list (map f xs)
      = sum_list (map f (take i xs)) + (f (xs ! i) + sum_list (map f (drop (Suc i) xs)))"
    using assms by (subst id_take_nth_drop[of i xs]) simp_all
  ultimately show ?thesis by simp
qed

lemma running_update:
  assumes "i < length (workers p)"
  shows "running_tasks (p\<lparr>workers := (workers p)[i := w]\<rparr>) + running_task (workers p ! i)
     = running_tasks p + running_task w"
  using sum_list_update_multiset[OF assms, of running_task w] by (simp add: running_tasks_def)

lemma running_tasks_frame [simp]:
  "running_tasks (p\<lparr>tasks := ts\<rparr>) = running_tasks p"
  "running_tasks (p\<lparr>started := ss\<rparr>) = running_tasks p"
  "running_tasks (p\<lparr>finished := fs\<rparr>) = running_tasks p"
  "running_tasks (p\<lparr>accepted := as\<rparr>) = running_tasks p"
  "running_tasks (p\<lparr>stopping := b\<rparr>) = running_tasks p"
  by (simp_all add: running_tasks_def)

lemma threads_ok_new: "threads_ok (ThreadPool_new n)"
proof -
  have "sum_list (replicate m {#}) = {#}" for m by (induction m) auto
  then show ?thesis by (auto simp: threads_ok_def ThreadPool_new_def running_tasks_def)
qed

lemma threads_ok_enqueue: "threads_ok p \<Longrightarrow> threads_ok (ThreadPool_enqueue p t)"
  by (auto simp: threads_ok_def ThreadPool_enqueue_def)

lemma threads_ok_shutdown: "threads_ok p \<Longrightarrow> threads_ok (ThreadPool_shutdown p)"
  by (auto simp: threads_ok_def ThreadPool_shutdown_def)

lemma Exited_update: "Exited \<in> set (ws[i := w]) \<Longrightarrow> w \<noteq> Exited \<Longrightarrow> Exited \<in> set ws"
  using set_update_subset_insert[of ws i w] by auto

lemma threads_ok_take:
  assumes "threads_ok p" "i < length (workers p)" "workers p ! i = Waiting" "worker_may_wake p"
  shows "threads_ok (worker_take i p)"
proof (cases "tasks p")
  case Nil
  then show ?thesis
    using assms running_update[OF assms(2), of Exited]
    by (simp add: threads_ok_def worker_take_def worker_may_wake_def)
next
  case (Cons t ts)
  have "Exited \<notin> set ((workers p)[i := Running t])"
    using assms(1) Cons Exited_update[of "workers p" i "Running t"] by (auto simp: threads_ok_def)
  then show ?thesis
    using Cons assms running_update[OF assms(2), of "Running t"]
    by (simp add: threads_ok_def worker_take_def running_tasks_def)
qed

lemma threads_ok_finish:
  assumes "threads_ok p" "i < length (workers p)" "workers p ! i = Running t"
  shows "threads_ok (worker_finish i t p)"
proof -
  have "running_tasks (p\<lparr>workers := (workers p)[i := Waiting]\<rparr>) + {#t#} = running_tasks p"
    using running_update[OF assms(2), of Waiting] assms(3) by simp
  then show ?thesis
    using assms Exited_update[of "workers p" i Waiting]
    by (auto simp: threads_ok_def worker_finish_def)
qed

lemma finished_accepted: "threads_ok p \<Longrightarrow> set (finished p) \<subseteq> set (accepted p)"
  unfolding threads_ok_def by (metis Un_iff set_append set_mset_mset set_mset_union subsetI)

lemma running_accepted:
  assumes "threads_ok p" "i < length (workers p)" "workers p ! i = Running j"
  shows "j \<in> set (accepted p)"
proof -
  have "running_tasks (p\<lparr>workers := (workers p)[i := Waiting]\<rparr>) + {#j#} = running_tasks p"
    using running_update[OF assms(2), of Waiting] assms(3) by simp
  then have "j \<in># running_tasks p" by (metis union_iff union_single_eq_member)
  then have "j \<in> set (started p)" using assms(1) by (metis threads_ok_def UnCI set_mset_mset set_mset_union)
  then show ?thesis using assms(1) by (simp add: threads_ok_def)
qed

lemma threads_ok_worker: "threads_ok p \<Longrightarrow> worker_step p q \<Longrightarrow> threads_ok q"
  by (auto elim!: worker_stepE intro: threads_ok_take threads_ok_finish)

interpretation threads: transition_system "\<lambda>p. \<exists>n. p = ThreadPool_new n" thread_step threads_ok
  by unfold_locales
    (auto simp: threads_ok_new elim!: thread_stepE
      intro: threads_ok_enqueue threads_ok_shutdown threads_ok_worker)

section \<open>Shutdown\<close>

fun worker_budget :: "'a worker \<Rightarrow> nat" where
  "worker_budget Waiting = 1"
| "worker_budget (Running _) = 2"
| "worker_budget Exited = 0"

definition budget :: "'a ThreadPool \<Rightarrow> nat" where
  "budget p = 2 * length (tasks p) + sum_list (map worker_budget (workers p))"

lemma sum_list_update_budget:
  assumes "i < length (workers p)"
  shows "sum_list (map worker_budget ((workers p)[i := w])) + worker_budget (workers p ! i)
     = sum_list (map worker_budget (workers p)) + worker_budget w"
proof -
  have "sum_list (map worker_budget (workers p))
      = sum_list (map worker_budget (take i (workers p)))
        + (worker_budget (workers p ! i) + sum_list (map worker_budget (drop (Suc i) (workers p))))"
    using assms by (subst id_take_nth_drop[of i "workers p"]) simp_all
  then show ?thesis using assms by (simp add: upd_conv_take_nth_drop)
qed

lemma worker_step_budget:
  "worker_step p q \<Longrightarrow> budget q < budget p \<and> stopping q = stopping p \<and> accepted q = accepted p"
proof (erule worker_stepE)
  fix i assume i: "q = worker_take i p" "i < length (workers p)" "workers p ! i = Waiting"
  show ?thesis
  proof (cases "tasks p")
    case Nil
    with i sum_list_update_budget[OF i(2), of Exited] show ?thesis by (simp add: worker_take_def budget_def)
  next
    case (Cons t ts)
    with i sum_list_update_budget[OF i(2), of "Running t"] show ?thesis
      by (simp add: worker_take_def budget_def)
  qed
next
  fix i task assume i: "q = worker_finish i task p" "i < length (workers p)" "workers p ! i = Running task"
  with sum_list_update_budget[OF i(2), of Waiting] show ?thesis by (simp add: worker_finish_def budget_def)
qed

lemma worker_steps_bounded: "(worker_step ^^ n) p q \<Longrightarrow> n + budget q \<le> budget p"
proof (induction n arbitrary: q)
  case (Suc n)
  then obtain r where "(worker_step ^^ n) p r" "worker_step r q" by auto
  with Suc.IH[of r] worker_step_budget[of r q] show ?case by linarith
qed simp

definition all_exited :: "'a ThreadPool \<Rightarrow> bool" where
  "all_exited p \<longleftrightarrow> set (workers p) \<subseteq> {Exited}"

lemma worker_progress:
  assumes "stopping p" "\<not> all_exited p"
  shows "\<exists>q. worker_step p q"
proof -
  obtain i where i: "i < length (workers p)" "workers p ! i \<noteq> Exited"
    using assms(2) unfolding all_exited_def by (metis in_set_conv_nth insertI1 subsetI)
  show ?thesis
  proof (cases "workers p ! i")
    case Waiting
    moreover have "worker_may_wake p" using assms(1) by (simp add: worker_may_wake_def)
    ultimately show ?thesis using i(1) worker_step.take by blast
  next
    case (Running t)
    with i show ?thesis by (blast intro: worker_step.finish)
  qed (use i in simp)
qed

lemma shutdown_drains_from:
  assumes "stopping p"
  shows "\<exists>q. worker_step\<^sup>*\<^sup>* p q \<and> all_exited q \<and> accepted q = accepted p"
  using assms
proof (induction "budget p" arbitrary: p rule: less_induct)
  case less
  show ?case
  proof (cases "all_exited p")
    case False
    with less.prems worker_progress obtain r where r: "worker_step p r" by blast
    with worker_step_budget[OF r] less.hyps[of r] less.prems obtain q where
      "worker_step\<^sup>*\<^sup>* r q" "all_exited q" "accepted q = accepted r" by auto
    with r worker_step_budget[OF r] show ?thesis
      by (metis converse_rtranclp_into_rtranclp)
  qed blast
qed

lemma all_exited_done:
  assumes "threads_ok p" "all_exited p" "workers p \<noteq> []"
  shows "mset (finished p) = mset (accepted p)"
proof -
  have "Exited \<in> set (workers p)" using assms(2,3) by (cases "workers p") (auto simp: all_exited_def)
  then have "tasks p = []" using assms(1) by (simp add: threads_ok_def)
  moreover have "sum_list (map running_task ws) = {#}" if "set ws \<subseteq> {Exited}" for ws :: "'a worker list"
    using that by (induction ws) auto
  then have "running_tasks p = {#}" using assms(2) by (simp add: running_tasks_def all_exited_def)
  ultimately show ?thesis using assms(1) by (simp add: threads_ok_def)
qed

lemma workers_kept: "thread_step p q \<Longrightarrow> length (workers q) = length (workers p)"
  by (auto elim!: thread_stepE worker_stepE
      simp: ThreadPool_enqueue_def ThreadPool_shutdown_def worker_take_def worker_finish_def split: list.splits)

lemma workers_kept_steps: "thread_step\<^sup>*\<^sup>* p q \<Longrightarrow> length (workers q) = length (workers p)"
  by (induction rule: rtranclp_induct) (auto dest: workers_kept)

lemma workers_nonempty:
  assumes "thread_step\<^sup>*\<^sup>* (ThreadPool_new n) p"
  shows "workers p \<noteq> []"
proof -
  have "length (workers p) = length (workers (ThreadPool_new n :: 'a ThreadPool))"
    using assms by (induction rule: rtranclp_induct) (auto dest: workers_kept)
  then have "0 < length (workers p)" by (simp add: ThreadPool_new_def)
  then show ?thesis by simp
qed

section \<open>Properties\<close>

text \<open>
  C18: in every interleaving of clients and workers, tasks start in the order in which they
  were accepted, and each accepted task is in exactly one place: waiting in the queue, being
  run by one worker, or finished; none is lost or run twice.
\<close>

theorem tasks_exactly_once:
  assumes "thread_step\<^sup>*\<^sup>* (ThreadPool_new n) p"
  shows "accepted p = started p @ tasks p
     \<and> mset (accepted p) = mset (finished p) + running_tasks p + mset (tasks p)"
proof -
  have "threads_ok p" using threads.inv_reachable[OF _ assms] by blast
  then show ?thesis by (simp add: threads_ok_def)
qed

theorem tasks_exactly_once_witness:
  "let p = worker_take 0 (ThreadPool_enqueue (ThreadPool_enqueue (ThreadPool_new 2) ''a'') ''b'') in
     started p @ tasks p = [''a'', ''b''] \<and> running_tasks p + mset (tasks p) = {#''a'', ''b''#}"
proof -
  let ?q = "ThreadPool_enqueue (ThreadPool_enqueue (ThreadPool_new 2) ''a'') ''b''"
  have "worker_step ?q (worker_take 0 ?q)"
    by (rule worker_step.take) (simp_all add: ThreadPool_enqueue_def ThreadPool_new_def worker_may_wake_def)
  then have "thread_step\<^sup>*\<^sup>* (ThreadPool_new 2) (worker_take 0 ?q)"
    by (meson thread_step.intros rtranclp.rtrancl_refl rtranclp.rtrancl_into_rtrancl)
  from tasks_exactly_once[OF this] show ?thesis
    by (simp add: worker_take_def ThreadPool_enqueue_def ThreadPool_new_def Let_def)
qed



end
