(* ===== verification/Server.thy ===== *)
theory Server
  imports Session Accept Thread_Pool
begin

text \<open>
  The program as a whole: \<open>SessionWorker\<close> (src/concurrency/session_worker.cpp), the two
  schedulers (src/ttl/scheduler.cpp, src/persistence/snapshot_scheduler.cpp) and
  \<open>DatabaseServer\<close> (src/server/database_server.cpp).

  \<open>run\<close> is a function of what the outside world does, the record \<open>run_env\<close>. While the server
  runs, the accept loop, four workers and two schedulers take turns: a list of events, each
  one atomic: a round of the accept loop, a worker taking a session from the queue, one
  round of a worker's session, a sweep, a snapshot, a signal. An event whose thread cannot act changes
  nothing. The engine itself has no lock, so the atomicity of a command with respect to the
  other threads is an assumption of this model and not a property of the code; what
  remains of it when only a call of the engine is atomic is the subject of Command_Steps.
  Tasks of the thread pool are indices into \<open>clients\<close>, the sessions the tasks own.
\<close>

section \<open>Schedulers\<close>

record ExpirationScheduler =
  ttl_running :: bool
  ttl_threads :: nat

definition ExpirationScheduler_start :: "ExpirationScheduler \<Rightarrow> ExpirationScheduler" where
  "ExpirationScheduler_start s =
     (if ttl_running s then s else s\<lparr>ttl_running := True, ttl_threads := ttl_threads s + 1\<rparr>)"

definition ExpirationScheduler_stop :: "ExpirationScheduler \<Rightarrow> ExpirationScheduler" where
  "ExpirationScheduler_stop s =
     (if \<not> ttl_running s then s else s\<lparr>ttl_running := False, ttl_threads := ttl_threads s - 1\<rparr>)"

definition ExpirationScheduler_sweep ::
    "hash \<Rightarrow> (nat \<Rightarrow> int) \<Rightarrow> StorageEngine \<Rightarrow> logger \<Rightarrow> StorageEngine \<times> logger" where
  "ExpirationScheduler_sweep h clock s l =
     (let before = (of_nat (StorageEngine_entry_count s) :: 64 word);
          s' = StorageEngine_purge_expired h clock s;
          after = (of_nat (StorageEngine_entry_count s') :: 64 word)
      in (s', if before \<noteq> after
              then log_info l (''ttl sweep removed '' @ show_size (before - after) @ '' keys'') else l))"

definition ExpirationScheduler_loop ::
    "hash \<Rightarrow> (nat \<Rightarrow> int) list \<Rightarrow> StorageEngine \<Rightarrow> logger \<Rightarrow> StorageEngine \<times> logger" where
  "ExpirationScheduler_loop h clocks s l =
     foldl (\<lambda>(s, l) clock. ExpirationScheduler_sweep h clock s l) (s, l) clocks"

record SnapshotScheduler =
  snap_running :: bool
  snap_threads :: nat

definition SnapshotScheduler_start :: "SnapshotScheduler \<Rightarrow> SnapshotScheduler" where
  "SnapshotScheduler_start s =
     (if snap_running s then s else s\<lparr>snap_running := True, snap_threads := snap_threads s + 1\<rparr>)"

definition SnapshotScheduler_stop :: "SnapshotScheduler \<Rightarrow> SnapshotScheduler" where
  "SnapshotScheduler_stop s =
     (if \<not> snap_running s then s else s\<lparr>snap_running := False, snap_threads := snap_threads s - 1\<rparr>)"

definition path_append :: "string \<Rightarrow> string \<Rightarrow> string" where
  "path_append dir file = (if dir = [] \<or> last dir = CHR ''/'' then dir @ file else dir @ ''/'' @ file)"

definition SnapshotWriter_latest_path :: "string \<Rightarrow> string" where
  "SnapshotWriter_latest_path dir = path_append dir ''snapshot.vdb''"

definition SnapshotScheduler_write ::
    "string \<Rightarrow> bool \<Rightarrow> disk \<Rightarrow> StorageEngine \<Rightarrow> logger \<Rightarrow> disk \<times> logger" where
  "SnapshotScheduler_write dir open_ok d s l =
     (let (d', ok) = SnapshotWriter_write open_ok d s in
      (d', if ok then log_info l (''snapshot written to '' @ SnapshotWriter_latest_path dir)
           else log_warn l ''snapshot write failed''))"

definition SnapshotScheduler_running :: "SnapshotScheduler \<Rightarrow> bool" where
  "SnapshotScheduler_running s = snap_running s"

text \<open>The rounds of the snapshot thread, each with what the engine holds and what opening the file gives.\<close>

definition SnapshotScheduler_loop ::
    "string \<Rightarrow> (StorageEngine \<times> bool) list \<Rightarrow> disk \<Rightarrow> logger \<Rightarrow> disk \<times> logger" where
  "SnapshotScheduler_loop dir rounds d l =
     foldl (\<lambda>(d, l) (s, open_ok). SnapshotScheduler_write dir open_ok d s l) (d, l) rounds"

text \<open>The pause between two snapshots: one second per step, left early when stopped.\<close>

fun snapshot_pause :: "nat \<Rightarrow> bool list \<Rightarrow> nat" where
  "snapshot_pause 0 _ = 0"
| "snapshot_pause (Suc n) (True # rs) = Suc (snapshot_pause n rs)"
| "snapshot_pause (Suc n) _ = 0"

section \<open>The server\<close>

record DatabaseServer =
  config :: ServerConfig
  dispatcher :: CommandDispatcher
  server_log :: logger

definition DatabaseServer_new :: "ServerConfig \<Rightarrow> bool \<Rightarrow> disk \<Rightarrow> logger \<Rightarrow> DatabaseServer" where
  "DatabaseServer_new cfg open_ok d l =
     (let (d', a) = AofLog_new open_ok d in
      \<lparr>config = cfg, dispatcher = CommandDispatcher_new cfg a d', server_log = l\<rparr>)"

definition DatabaseServer_recover :: "hash \<Rightarrow> bool \<Rightarrow> DatabaseServer \<Rightarrow> DatabaseServer res" where
  "DatabaseServer_recover h read_ok srv =
     (let d = dispatcher srv in
      if SnapshotLoader_has_snapshot (files d) then
        bind_res (SnapshotLoader_load_into h read_ok (files d) (storage d)) (\<lambda>(s, _).
          Inr (srv\<lparr>dispatcher := d\<lparr>storage := s\<rparr>,
                   server_log := log_info (server_log srv) ''restored data from snapshot''\<rparr>))
      else
        bind_res (AofLog_replay h read_ok (files d) (storage d)) (\<lambda>(s, _).
          Inr (srv\<lparr>dispatcher := d\<lparr>storage := s\<rparr>,
                   server_log := log_info (server_log srv) ''replayed append-only log''\<rparr>)))"

section \<open>State of a run\<close>

text \<open>
  The local variables of \<open>run\<close>. \<open>background\<close> holds those that exist before the listener is
  opened. A refused client is kept in \<open>refused\<close> to say what happened to its socket.
\<close>

record background =
  server :: DatabaseServer
  snapshots :: SnapshotScheduler
  ttl_scheduler :: ExpirationScheduler

record run_state = background +
  tcp :: TcpServer
  multiplexer :: IoMultiplexer
  connections :: ConnectionPool
  threads :: "nat ThreadPool"
  clients :: "connection list"
  refused :: "connection list"
  session_counter :: "64 word"

definition SessionWorker_dispatch :: "run_state \<Rightarrow> connection \<Rightarrow> run_state" where
  "SessionWorker_dispatch rs session =
     (let rs1 = rs\<lparr>threads := ThreadPool_enqueue (threads rs) (length (clients rs))\<rparr> in
      if stopping (threads rs) then rs1\<lparr>refused := refused rs @ [ClientSession_destroy session]\<rparr>
      else rs1\<lparr>clients := clients rs @ [session]\<rparr>)"

definition entry_word :: "run_state \<Rightarrow> 64 word" where
  "entry_word rs = of_nat (StorageEngine_entry_count (storage (dispatcher (server rs))))"

definition update_metrics :: "(MetricsCollector \<Rightarrow> MetricsCollector) \<Rightarrow> run_state \<Rightarrow> run_state" where
  "update_metrics f rs =
     (let srv = server rs; d = dispatcher srv in
      rs\<lparr>server := srv\<lparr>dispatcher := d\<lparr>metrics := f (metrics d)\<rparr>\<rparr>\<rparr>)"

definition accept_handler :: "int \<Rightarrow> int \<Rightarrow> run_state \<Rightarrow> connection \<Rightarrow> run_state" where
  "accept_handler now1 now2 rs session =
     (let (conns1, admitted) = ConnectionPool_admit now1 (connections rs);
          rs1 = rs\<lparr>connections := conns1\<rparr> in
      if \<not> admitted then
        rs1\<lparr>refused := refused rs
             @ [ClientSession_mark_closed (fst (ClientSession_write_line session ''-ERR max clients reached''))]\<rparr>
      else
        let rs2 = update_metrics (\<lambda>m. MetricsCollector_set_active_clients m
                    (stat_active (ConnectionPool_stats (connections rs1)) + 1)) rs1;
            rs3 = SessionWorker_dispatch rs2 session;
            rs4 = rs3\<lparr>connections := ConnectionPool_release now2 (connections rs3)\<rparr>;
            rs5 = update_metrics (\<lambda>m. MetricsCollector_set_active_clients m
                    (stat_active (ConnectionPool_stats (connections rs4)))) rs4;
            rs6 = update_metrics (\<lambda>m. MetricsCollector_set_keys_stored m (entry_word rs5)) rs5
        in update_metrics (\<lambda>m. MetricsCollector_set_memory_bytes m (entry_word rs6 * 128)) rs6)"

section \<open>Events\<close>

datatype upkeep =
    Sweep "nat \<Rightarrow> int"
  | Snapshot bool

fun upkeep_step :: "hash \<Rightarrow> 'a background_scheme \<Rightarrow> upkeep \<Rightarrow> 'a background_scheme" where
  "upkeep_step h b (Sweep clock) =
     (if \<not> ttl_running (ttl_scheduler b) then b
      else let srv = server b; d = dispatcher srv;
               (s, l) = ExpirationScheduler_sweep h clock (storage d) (server_log srv)
           in b\<lparr>server := srv\<lparr>dispatcher := d\<lparr>storage := s\<rparr>, server_log := l\<rparr>\<rparr>)"
| "upkeep_step h b (Snapshot open_ok) =
     (if \<not> SnapshotScheduler_running (snapshots b) then b
      else let srv = server b; d = dispatcher srv;
               (fs, l) = SnapshotScheduler_write (data_dir (config srv)) open_ok (files d) (storage d) (server_log srv)
           in b\<lparr>server := srv\<lparr>dispatcher := d\<lparr>files := fs\<rparr>, server_log := l\<rparr>\<rparr>)"

text \<open>One round of the accept loop, with the two readings of the clock by the handler.\<close>

definition accept_step :: "int \<Rightarrow> int \<Rightarrow> accept_round \<Rightarrow> run_state \<Rightarrow> run_state" where
  "accept_step now1 now2 r rs =
     (if \<not> tcp_running (tcp rs) then rs
      else
        let (t, l) = round_signalled r (tcp rs, server_log (server rs));
            rs1 = rs\<lparr>tcp := t, server := (server rs)\<lparr>server_log := l\<rparr>\<rparr>;
            (rs2, counter) = AsyncAcceptLoop_round (Some (accept_handler now1 now2)) (listen_fd t)
                               (rs1, session_counter rs1) r
        in rs2\<lparr>session_counter := counter\<rparr>)"

text \<open>
  A worker that takes a session greets its client; then it runs the rounds of
  \<open>handle_session\<close> until the session ends.
\<close>

definition take_step :: "nat \<Rightarrow> run_state \<Rightarrow> run_state" where
  "take_step i rs =
     (let p = threads rs in
      if i < length (workers p) \<and> workers p ! i = Waiting \<and> worker_may_wake p then
        let p' = worker_take i p in
        (case workers p' ! i of
           Running j \<Rightarrow>
             rs\<lparr>threads := p',
                clients := (clients rs)[j := fst (ClientSession_write_line (clients rs ! j) ''+OK voltdbx ready'')]\<rparr>
         | _ \<Rightarrow> rs\<lparr>threads := p'\<rparr>)
      else rs)"

definition round_step :: "hash \<Rightarrow> nat \<Rightarrow> call_env \<Rightarrow> run_state \<Rightarrow> run_state res" where
  "round_step h i env rs =
     (let p = threads rs in
      if i < length (workers p) then
        (case workers p ! i of
           Running j \<Rightarrow>
             bind_res (session_round (env\<lparr>env_hash := h\<rparr>) (dispatcher (server rs)) (clients rs ! j))
               (\<lambda>(d, session, goes_on).
                 Inr (rs\<lparr>server := (server rs)\<lparr>dispatcher := d\<rparr>,
                         clients := (clients rs)[j := session],
                         threads := (if goes_on then p else worker_finish i j p)\<rparr>))
         | _ \<Rightarrow> Inr rs)
      else Inr rs)"

text \<open>
  A signal that arrives between two rounds of the accept loop, or after it. Its handler has
  reset the action of the signal, so that a second one of its kind ends the process.
\<close>

definition signal_step :: "signal \<Rightarrow> run_state \<Rightarrow> run_state res" where
  "signal_step sig rs =
     (if sig \<in> handled (tcp rs) then
        let (t, l) = signal_action sig (tcp rs, server_log (server rs))
        in Inr (rs\<lparr>tcp := t, server := (server rs)\<lparr>server_log := l\<rparr>\<rparr>)
      else Inl Killed)"

datatype event =
    Accept_round int int accept_round
  | Take nat
  | Round nat call_env
  | Upkeep upkeep
  | Signal signal

fun server_step :: "hash \<Rightarrow> run_state \<Rightarrow> event \<Rightarrow> run_state res" where
  "server_step h rs (Accept_round now1 now2 r) = Inr (accept_step now1 now2 r rs)"
| "server_step h rs (Take i) = Inr (take_step i rs)"
| "server_step h rs (Round i env) = round_step h i env rs"
| "server_step h rs (Upkeep u) = Inr (upkeep_step h rs u)"
| "server_step h rs (Signal sig) = signal_step sig rs"

section \<open>The run\<close>

text \<open>
  What the outside world contributes: whether the recovery file can be read; what the
  schedulers do before the listener is opened; the results of opening it; the descriptor
  and the answer of \<open>epoll\<close>; the time at which the connection pool is made; the events until
  the accept loop has left, and those while \<open>pool.shutdown()\<close> joins the workers; whether the
  final snapshot can be opened.
\<close>

record run_env =
  run_read_ok :: bool
  run_early :: "upkeep list"
  run_os :: bind_outcome
  run_epoll_fd :: int
  run_epoll_ctl :: int
  run_start :: int
  run_busy :: "event list"
  run_drain :: "event list"
  run_snap_ok :: bool

datatype run_result =
    Bind_failed background TcpServer
  | Serving run_state
  | Stopped run_state

fun exit_code :: "run_result \<Rightarrow> int option" where
  "exit_code (Bind_failed b t) = Some 1"
| "exit_code (Serving rs) = None"
| "exit_code (Stopped rs) = Some 0"

definition start_schedulers :: "DatabaseServer \<Rightarrow> background" where
  "start_schedulers srv =
     \<lparr>server = srv,
      snapshots = SnapshotScheduler_start \<lparr>snap_running = False, snap_threads = 0\<rparr>,
      ttl_scheduler = ExpirationScheduler_start \<lparr>ttl_running = False, ttl_threads = 0\<rparr>\<rparr>"

definition stop_schedulers :: "'a background_scheme \<Rightarrow> 'a background_scheme" where
  "stop_schedulers b =
     b\<lparr>ttl_scheduler := ExpirationScheduler_stop (ttl_scheduler b),
       snapshots := SnapshotScheduler_stop (snapshots b)\<rparr>"

definition add_log :: "(logger \<Rightarrow> logger) \<Rightarrow> 'a background_scheme \<Rightarrow> 'a background_scheme" where
  "add_log f b = b\<lparr>server := (server b)\<lparr>server_log := f (server_log (server b))\<rparr>\<rparr>"

definition open_listener :: "run_env \<Rightarrow> DatabaseServer \<Rightarrow> TcpServer \<times> bool" where
  "open_listener e srv =
     TcpServer_bind_and_listen (run_os e)
       (TcpServer_install_signal_handlers
          (Some (\<lambda>l. log_info l ''received SIGINT, shutting down''))
          (Some (\<lambda>l. log_info l ''received SIGTERM, shutting down''))
          (TcpServer_new (host (config srv)) (port (config srv))))"

definition start_serving :: "run_env \<Rightarrow> background \<Rightarrow> TcpServer \<Rightarrow> run_state" where
  "start_serving e b t =
     \<lparr>server = server b, snapshots = snapshots b, ttl_scheduler = ttl_scheduler b, tcp = t,
      multiplexer = fst (IoMultiplexer_add_read (run_epoll_ctl e) (IoMultiplexer_new (run_epoll_fd e)) (listen_fd t)),
      connections = ConnectionPool_new (max_clients (config (server b))) 120 (run_start e),
      threads = ThreadPool_new 4, clients = [], refused = [], session_counter = 1\<rparr>"

text \<open>
  The end of \<open>run\<close> from the point where \<open>pool.shutdown()\<close> has waited for every worker: the
  schedulers, the final snapshot, and the destructors of the local variables, of which those
  of the schedulers find nothing left to stop.
\<close>

definition finish_run :: "bool \<Rightarrow> run_state \<Rightarrow> run_state" where
  "finish_run snap_ok rs =
     (let rs1 = stop_schedulers (rs\<lparr>threads := ThreadPool_join (threads rs)\<rparr>); d = dispatcher (server rs1);
          (fs, _) = SnapshotWriter_write snap_ok (files d) (storage d);
          rs2 = rs1\<lparr>server := (server rs1)\<lparr>dispatcher := d\<lparr>files := fs\<rparr>\<rparr>\<rparr>
      in (add_log (\<lambda>l. log_info l ''server stopped cleanly'') rs2)
           \<lparr>threads := ThreadPool_destroy (threads rs2), multiplexer := fst (IoMultiplexer_destroy (multiplexer rs2)),
            tcp := TcpServer_destroy (tcp rs2)\<rparr>)"

definition DatabaseServer_run :: "hash \<Rightarrow> run_env \<Rightarrow> DatabaseServer \<Rightarrow> run_result res" where
  "DatabaseServer_run h e srv =
     bind_res (DatabaseServer_recover h (run_read_ok e) srv) (\<lambda>srv1.
       let b = foldl (upkeep_step h) (start_schedulers srv1) (run_early e);
           (t, bound) = open_listener e srv1 in
       if \<not> bound then
         Inr (Bind_failed (stop_schedulers (add_log (\<lambda>l. log_error l ''failed to start TCP listener'') b))
                (TcpServer_destroy t))
       else
         let b' = add_log (\<lambda>l. log_info l ''TCP server bound, starting accept loop'') b in
         bind_res (fold_res (server_step h) (run_busy e) (start_serving e b' t)) (\<lambda>rs1.
         if tcp_running (tcp rs1) then Inr (Serving rs1)
         else
           bind_res (fold_res (server_step h) (run_drain e)
                       (rs1\<lparr>threads := ThreadPool_shutdown (threads rs1)\<rparr>)) (\<lambda>rs2.
           if \<not> all_exited (threads rs2) then Inr (Serving rs2)
           else Inr (Stopped (finish_run (run_snap_ok e) rs2)))))"

section \<open>The store through a run\<close>

definition server_ok :: "bool \<Rightarrow> hash \<Rightarrow> DatabaseServer \<Rightarrow> bool" where
  "server_ok strict h srv \<longleftrightarrow> dispatcher_ok h (dispatcher srv) \<and> wire_store strict (stored h (dispatcher srv))"

lemma server_ok_cong:
  "storage (dispatcher srv') = storage (dispatcher srv) \<Longrightarrow> channels (dispatcher srv') = channels (dispatcher srv) \<Longrightarrow>
     server_ok strict h srv' = server_ok strict h srv"
  by (simp add: server_ok_def dispatcher_ok_def)

lemma server_ok_log [simp]: "server_ok strict h (srv\<lparr>server_log := l\<rparr>) = server_ok strict h srv"
  by (rule server_ok_cong) simp_all

lemma server_ok_files [simp]:
  "server_ok strict h (srv\<lparr>dispatcher := (dispatcher srv)\<lparr>files := fs\<rparr>\<rparr>) = server_ok strict h srv"
  by (rule server_ok_cong) simp_all

lemma server_ok_metrics [simp]: "server_ok strict h (server (update_metrics f rs)) = server_ok strict h (server rs)"
  by (rule server_ok_cong) (simp_all add: update_metrics_def Let_def)

lemma add_log_ok [simp]: "server_ok strict h (server (add_log f b)) = server_ok strict h (server b)"
  by (simp add: add_log_def)

lemma purge_sub: "engine_ok h s \<Longrightarrow> engine_view h (StorageEngine_purge_expired h clock s) \<subseteq>\<^sub>m engine_view h s"
  by (auto simp: purge_view map_le_def restrict_map_def)

lemma upkeep_step_ok:
  assumes "server_ok strict h (server b)"
  shows "server_ok strict h (server (upkeep_step h b u))"
proof (cases u)
  case (Sweep clock)
  let ?s = "storage (dispatcher (server b))"
  have "engine_ok h ?s" using assms by (simp add: server_ok_def dispatcher_ok_def)
  then show ?thesis
    using assms Sweep purge_ok[of h ?s clock] wire_store_sub[OF _ purge_sub[of h ?s clock]]
    by (auto simp: server_ok_def dispatcher_ok_def ExpirationScheduler_sweep_def Let_def)
next
  case (Snapshot ok)
  then show ?thesis using assms
    by (auto simp: server_ok_def dispatcher_ok_def Let_def split: prod.splits)
qed

section \<open>Sessions and sockets through a run\<close>

lemma update_metrics_frame [simp]:
  "tcp (update_metrics f rs) = tcp rs" "connections (update_metrics f rs) = connections rs"
  "threads (update_metrics f rs) = threads rs" "clients (update_metrics f rs) = clients rs"
  "refused (update_metrics f rs) = refused rs" "server_log (server (update_metrics f rs)) = server_log (server rs)"
  by (simp_all add: update_metrics_def Let_def)

lemma upkeep_step_frame [simp]:
  fixes rs :: run_state
  shows "tcp (upkeep_step h rs u) = tcp rs" "connections (upkeep_step h rs u) = connections rs"
    "threads (upkeep_step h rs u) = threads rs" "clients (upkeep_step h rs u) = clients rs"
    "refused (upkeep_step h rs u) = refused rs"
  by (cases u; simp add: Let_def split: prod.splits)+

definition open_socket :: "connection \<Rightarrow> bool" where
  "open_socket c \<longleftrightarrow> (\<exists>socket \<ge> 0. fd_owned socket c)"

definition closed_socket :: "connection \<Rightarrow> bool" where
  "closed_socket c \<longleftrightarrow> \<not> alive c \<and> open_socket c"

text \<open>
  The sessions of a run: the pool is consistent, its tasks are the indices of the clients in
  the order of their arrival, every client owns its descriptor or has closed it once, and
  every refused or finished client has closed it.
\<close>

definition clients_ok :: "run_state \<Rightarrow> bool" where
  "clients_ok rs \<longleftrightarrow>
     threads_ok (threads rs)
     \<and> accepted (threads rs) = [0..<length (clients rs)]
     \<and> (\<forall>c \<in> set (clients rs). open_socket c)
     \<and> (\<forall>c \<in> set (refused rs). closed_socket c)
     \<and> (\<forall>j \<in> set (finished (threads rs)). \<not> alive (clients rs ! j))"

definition run_ok :: "hash \<Rightarrow> int \<Rightarrow> run_state \<Rightarrow> bool" where
  "run_ok h lfd rs \<longleftrightarrow> server_ok False h (server rs) \<and> listener_ok lfd (tcp rs) \<and> clients_ok rs"

lemma open_socket_fresh: "fresh_session c \<Longrightarrow> open_socket c"
  by (auto simp: fresh_session_def open_socket_def)

lemma open_socket_write: "open_socket c \<Longrightarrow> open_socket (fst (ClientSession_write_line c r))"
  by (auto simp: open_socket_def fd_owned_write_line)

lemma closed_socket_mark_closed: "open_socket c \<Longrightarrow> closed_socket (ClientSession_mark_closed c)"
  by (auto simp: closed_socket_def open_socket_def fd_owned_mark_closed)

lemma open_socket_round:
  "session_round env d c = Inr (d', c', goes_on) \<Longrightarrow> open_socket c \<Longrightarrow> open_socket c'"
  unfolding open_socket_def using owned.round_keeps[of env d c d' c' goes_on] by blast

lemma clients_ok_cong:
  "threads rs' = threads rs \<Longrightarrow> clients rs' = clients rs \<Longrightarrow> refused rs' = refused rs \<Longrightarrow> clients_ok rs' = clients_ok rs"
  by (simp add: clients_ok_def)

lemma clients_ok_metrics [simp]: "clients_ok (update_metrics f rs) = clients_ok rs"
  by (rule clients_ok_cong) simp_all

lemma clients_ok_connections [simp]: "clients_ok (rs\<lparr>connections := p\<rparr>) = clients_ok rs"
  by (rule clients_ok_cong) simp_all

lemma clients_ok_refused:
  "clients_ok rs \<Longrightarrow> closed_socket c \<Longrightarrow> clients_ok (rs\<lparr>refused := refused rs @ [c]\<rparr>)"
  by (simp add: clients_ok_def)

lemma finished_index: "clients_ok rs \<Longrightarrow> j \<in> set (finished (threads rs)) \<Longrightarrow> j < length (clients rs)"
  using finished_accepted[of "threads rs"] by (auto simp: clients_ok_def)

lemma running_index:
  "clients_ok rs \<Longrightarrow> i < length (workers (threads rs)) \<Longrightarrow> workers (threads rs) ! i = Running j \<Longrightarrow> j < length (clients rs)"
  using running_accepted[of "threads rs" i j] by (auto simp: clients_ok_def)

lemma clients_ok_dispatch:
  assumes "clients_ok rs" "open_socket c"
  shows "clients_ok (SessionWorker_dispatch rs c)"
proof (cases "stopping (threads rs)")
  case True
  then show ?thesis
    using clients_ok_refused[OF assms(1) closed_socket_mark_closed[OF assms(2)]]
    by (simp add: SessionWorker_dispatch_def ClientSession_destroy_def ThreadPool_enqueue_def Let_def clients_ok_def)
next
  case False
  then show ?thesis
    using assms finished_index[OF assms(1)] threads_ok_enqueue[of "threads rs" "length (clients rs)"]
    by (auto simp: clients_ok_def SessionWorker_dispatch_def ThreadPool_enqueue_def nth_append)
qed

lemma dispatch_frame_run [simp]:
  "server (SessionWorker_dispatch rs c) = server rs" "tcp (SessionWorker_dispatch rs c) = tcp rs"
  "connections (SessionWorker_dispatch rs c) = connections rs"
  by (simp_all add: SessionWorker_dispatch_def Let_def)

lemma accept_handler_ok:
  assumes "run_ok h lfd rs" "fresh_session c"
  shows "run_ok h lfd (accept_handler now1 now2 rs c)"
proof -
  have c: "open_socket c" using assms(2) by (rule open_socket_fresh)
  have refuse: "clients_ok (rs\<lparr>connections := p, refused := refused rs @ [ClientSession_mark_closed
      (fst (ClientSession_write_line c r))]\<rparr>)" if "clients_ok rs" for p r
    using that closed_socket_mark_closed[OF open_socket_write[OF c]] by (simp add: clients_ok_def)
  show ?thesis
    using assms(1) c
    by (auto simp: run_ok_def accept_handler_def Let_def case_prod_unfold clients_ok_dispatch intro: refuse)
qed

lemma clients_ok_round:
  assumes "clients_ok rs" "i < length (workers (threads rs))" "workers (threads rs) ! i = Running j"
    and "session_round env d (clients rs ! j) = Inr (d', c', goes_on)"
  shows "clients_ok (rs\<lparr>server := srv, clients := (clients rs)[j := c'],
           threads := (if goes_on then threads rs else worker_finish i j (threads rs))\<rparr>)"
proof -
  have j: "j < length (clients rs)" using assms(1-3) by (rule running_index)
  have "open_socket c'"
    using open_socket_round[OF assms(4)] assms(1) j by (simp add: clients_ok_def)
  moreover have "alive c' \<Longrightarrow> alive (clients rs ! j)" "\<not> goes_on \<Longrightarrow> \<not> alive c'"
    using session_round_dead[OF assms(4)] session_round_progress[OF assms(4)] by auto
  ultimately show ?thesis
    using assms(1) j threads_ok_finish[OF _ assms(2,3)]
    by (auto simp: clients_ok_def worker_finish_def nth_list_update dest!: set_update_subset_insert[THEN subsetD])
qed

lemma clients_ok_take:
  assumes "clients_ok rs"
  shows "clients_ok (take_step i rs)"
proof -
  let ?p = "threads rs"
  show ?thesis
  proof (cases "i < length (workers ?p) \<and> workers ?p ! i = Waiting \<and> worker_may_wake ?p")
    case True
    then have on: "i < length (workers ?p)" "workers ?p ! i = Waiting" "worker_may_wake ?p" by blast+
    note ok = threads_ok_take[OF _ on]
    show ?thesis
    proof (cases "tasks ?p")
      case Nil
      then show ?thesis using on assms ok by (simp add: take_step_def worker_take_def clients_ok_def Let_def)
    next
      case (Cons j rest)
      then have "[0..<length (clients rs)] = started ?p @ j # rest" using assms by (metis clients_ok_def threads_ok_def)
      then have "j \<in> set [0..<length (clients rs)]" by (metis in_set_conv_decomp)
      then have j: "j < length (clients rs)" by simp
      then have "open_socket (fst (ClientSession_write_line (clients rs ! j) r))" for r
        using assms by (simp add: clients_ok_def open_socket_write)
      moreover have "alive (fst (ClientSession_write_line c r)) \<Longrightarrow> alive c" for c r
        by (auto simp: ClientSession_write_line_def Let_def split: if_splits)
      ultimately show ?thesis
        using on assms ok Cons j
        by (auto simp: take_step_def worker_take_def clients_ok_def Let_def nth_list_update
            dest!: set_update_subset_insert[THEN subsetD] split: if_splits)
    qed
  qed (use assms in \<open>auto simp: take_step_def\<close>)
qed

lemma wire_snapshot_safe:
  assumes "engine_ok h s" "wire_store strict (engine_view h s)" "StorageEngine_entry_count s < 2 ^ 64"
  shows "snapshot_safe s" "strict \<Longrightarrow> log_safe s"
  using assms snapshot_safe_view[OF assms(1,3)] log_safe_view[OF assms(1)] by (auto simp: wire_store_def)

section \<open>Recovery\<close>

lemma getlines_no_newline: "l \<in> set (getlines c) \<Longrightarrow> newline \<notin> set l"
proof (induction c rule: getlines.induct)
  case (1 c)
  show ?case
  proof (cases "c = []")
    case False
    then have "l = takeWhile (\<lambda>c. c \<noteq> newline) c
        \<or> (\<exists>x r. dropWhile (\<lambda>c. c \<noteq> newline) c = x # r \<and> l \<in> set (getlines r))"
      using 1(2) getlines.simps[of c] by (cases "dropWhile (\<lambda>c. c \<noteq> newline) c") auto
    then show ?thesis using 1(1)[OF False] by (auto dest: set_takeWhileD)
  qed (use 1(2) in simp)
qed

text \<open>A line of either file can only put keys and values of its own bytes.\<close>

definition loaded_ok :: "bool \<Rightarrow> hash \<Rightarrow> StorageEngine \<Rightarrow> bool" where
  "loaded_ok strict h s \<longleftrightarrow> engine_ok h s \<and> wire_store strict (engine_view h s)"

lemma loaded_set:
  assumes "loaded_ok strict h s" "newline \<notin> set k" "strict \<longrightarrow> CHR '' '' \<notin> set k" "newline \<notin> set v"
  shows "\<exists>s'. bind_res (StorageEngine_set h s k v) (\<lambda>(s', _). Inr s') = Inr s' \<and> loaded_ok strict h s'"
  using set_correct[of h s k v] assms by (auto simp: loaded_ok_def wire_store_def fresh_entry_def)

lemma loaded_remove: "loaded_ok strict h s \<Longrightarrow> loaded_ok strict h (fst (StorageEngine_remove h s k))"
  using eng.del_ok[of h s k] eng.del_view[of h s k] by (auto simp: loaded_ok_def wire_store_def)

lemma loaded_fold:
  assumes "\<And>s x. loaded_ok strict h s \<Longrightarrow> x \<in> set xs \<Longrightarrow> \<exists>s'. f s x = Inr s' \<and> loaded_ok strict h s'"
    and "loaded_ok strict h s"
  shows "\<exists>s'. fold_res f xs s = Inr s' \<and> loaded_ok strict h s'"
  using assms
proof (induction xs arbitrary: s)
  case (Cons x xs)
  from Cons.prems(1)[OF Cons.prems(2)] obtain s1 where "f s x = Inr s1" "loaded_ok strict h s1" by auto
  with Cons.IH[of s1] Cons.prems(1) show ?case by simp
qed simp

lemma loaded_replay_line:
  assumes "loaded_ok strict h s" "newline \<notin> set l"
  shows "\<exists>s'. replay_line h s l = Inr s' \<and> loaded_ok strict h s'"
proof (cases "starts_with ''SET '' l")
  case True
  show ?thesis
  proof (cases "find_char (CHR '' '') (drop 4 l)")
    case (Some i)
    have "newline \<notin> set (take i (drop 4 l))" "newline \<notin> set (drop (i + 1) (drop 4 l))"
      using assms(2) by (meson in_set_dropD in_set_takeD)+
    with loaded_set[OF assms(1)] find_char_Some[OF Some] True Some show ?thesis
      by (simp add: replay_line_def)
  qed (use True assms in \<open>simp add: replay_line_def\<close>)
next
  case False
  then show ?thesis using assms loaded_remove[OF assms(1)] by (simp add: replay_line_def)
qed

lemma loaded_new: "loaded_ok strict h StorageEngine_new"
  by (simp add: loaded_ok_def engine_ok_new engine_view_new wire_store_def)

lemma line_pairs_mem: "(k, v) \<in> set (line_pairs ls) \<Longrightarrow> k \<in> set ls \<and> v \<in> set ls"
  by (induction ls rule: line_pairs.induct) auto

lemma load_into_total:
  assumes "loaded_ok False h s"
  shows "\<exists>s' b. SnapshotLoader_load_into h read_ok fs s = Inr (s', b) \<and> loaded_ok False h s'"
proof (cases "snapshot_file fs")
  case (Some content)
  let ?ls = "getlines content"
  let ?xs = "take (stream_read_size (nth_line 1 ?ls)) (line_pairs (drop 2 ?ls))"
  have "newline \<notin> set k \<and> newline \<notin> set v" if "(k, v) \<in> set ?xs" for k v
    using line_pairs_mem[OF in_set_takeD[OF that]] getlines_no_newline in_set_dropD by metis
  then have "\<exists>s'. put_entries h ?xs s = Inr s' \<and> loaded_ok False h s'"
    using loaded_set[of False h] by (intro loaded_fold[OF _ assms]) auto
  with Some assms show ?thesis by (auto simp: SnapshotLoader_load_into_def Let_def)
qed (use assms in \<open>auto simp: SnapshotLoader_load_into_def\<close>)

lemma replay_total:
  assumes "loaded_ok strict h s"
  shows "\<exists>s' b. AofLog_replay h read_ok fs s = Inr (s', b) \<and> loaded_ok strict h s'"
proof (cases "aof_file fs")
  case (Some content)
  have "\<exists>s'. fold_res (replay_line h) (getlines content) s = Inr s' \<and> loaded_ok strict h s'"
    by (intro loaded_fold[OF _ assms] loaded_replay_line getlines_no_newline)
  with Some assms show ?thesis by (auto simp: AofLog_replay_def)
qed (use assms in \<open>auto simp: AofLog_replay_def\<close>)

lemma recover_ok:
  "\<exists>srv. DatabaseServer_recover h read_ok (DatabaseServer_new cfg ok fs l) = Inr srv \<and> server_ok False h srv"
proof -
  let ?fs = "files (dispatcher (DatabaseServer_new cfg ok fs l))"
  have new: "storage (dispatcher (DatabaseServer_new cfg ok fs l)) = StorageEngine_new"
    "channels (dispatcher (DatabaseServer_new cfg ok fs l)) = ChannelRegistry_new"
    by (simp_all add: DatabaseServer_new_def CommandDispatcher_new_def Let_def split: prod.splits)
  show ?thesis
    using load_into_total[OF loaded_new, of h read_ok ?fs] replay_total[OF loaded_new[of False h], of read_ok ?fs] registry_ok_new
    by (auto simp: DatabaseServer_recover_def new server_ok_def dispatcher_ok_def loaded_ok_def Let_def)
qed

lemma recover_snapshot:
  assumes "engine_ok h s" "snapshot_safe s" "snapshot_file fs = Some (snapshot_content (StorageEngine_dump_entries s))"
  shows "\<exists>srv. DatabaseServer_recover h True (DatabaseServer_new cfg ok fs l) = Inr srv
     \<and> stored h (dispatcher srv) = restored h s"
proof -
  let ?new = "DatabaseServer_new cfg ok fs l"
  have new: "storage (dispatcher ?new) = StorageEngine_new" "snapshot_file (files (dispatcher ?new)) = snapshot_file fs"
    by (simp_all add: DatabaseServer_new_def CommandDispatcher_new_def AofLog_new_def open_append_def Let_def
        split: prod.splits)
  obtain s1 where s1: "put_entries h (StorageEngine_dump_entries s) StorageEngine_new = Inr s1"
    "engine_view h s1 = restored h s"
    using put_dump_restores[OF assms(1) engine_ok_new engine_view_new] by blast
  with load_snapshot_content[of "StorageEngine_dump_entries s" "files (dispatcher ?new)" h StorageEngine_new] assms new
  show ?thesis
    by (auto simp: DatabaseServer_recover_def SnapshotLoader_has_snapshot_def Let_def snapshot_safe_def)
qed

section \<open>Invariant of a run\<close>

lemma accept_step_ok:
  assumes "run_ok h lfd rs"
  shows "run_ok h lfd (accept_step now1 now2 r rs)"
proof (cases "tcp_running (tcp rs)")
  case True
  obtain t l where sg: "round_signalled r (tcp rs, server_log (server rs)) = (t, l)" by (rule prod.exhaust)
  let ?rs1 = "rs\<lparr>tcp := t, server := (server rs)\<lparr>server_log := l\<rparr>\<rparr>"
  obtain rs2 counter where rd: "AsyncAcceptLoop_round (Some (accept_handler now1 now2)) (listen_fd t)
      (?rs1, session_counter ?rs1) r = (rs2, counter)" by (rule prod.exhaust)
  have "listener_ok lfd t" using listener_ok_signalled[of lfd "(tcp rs, server_log (server rs))" r] assms sg
    by (simp add: run_ok_def)
  then have "run_ok h lfd ?rs1" using assms by (simp add: run_ok_def clients_ok_def)
  then have "run_ok h lfd rs2"
    using round_keeps_invariant[of "run_ok h lfd" "accept_handler now1 now2" "(?rs1, session_counter ?rs1)" "listen_fd t" r]
      accept_handler_ok rd by simp
  then have "run_ok h lfd (rs2\<lparr>session_counter := counter\<rparr>)" by (simp add: run_ok_def clients_ok_def)
  then show ?thesis using True sg rd by (simp add: accept_step_def Let_def)
qed (use assms in \<open>simp add: accept_step_def\<close>)

lemma take_step_frame [simp]: "server (take_step i rs) = server rs" "tcp (take_step i rs) = tcp rs"
  by (auto simp: take_step_def Let_def split: worker.splits)

lemma round_step_ok:
  assumes "run_ok h lfd rs" "round_step h i env rs = Inr rs'"
  shows "run_ok h lfd rs'"
proof (cases "\<exists>j. i < length (workers (threads rs)) \<and> workers (threads rs) ! i = Running j")
  case True
  then obtain j where on: "i < length (workers (threads rs))" "workers (threads rs) ! i = Running j" by blast
  with assms(2) obtain d c goes_on where
    r: "session_round (env\<lparr>env_hash := h\<rparr>) (dispatcher (server rs)) (clients rs ! j) = Inr (d, c, goes_on)"
    and rs': "rs' = rs\<lparr>server := (server rs)\<lparr>dispatcher := d\<rparr>, clients := (clients rs)[j := c],
        threads := (if goes_on then threads rs else worker_finish i j (threads rs))\<rparr>"
    by (auto simp: round_step_def Let_def)
  have "server_ok False h ((server rs)\<lparr>dispatcher := d\<rparr>)"
    using wired.round_keeps[OF r, of h False] assms(1) by (simp add: server_ok_def run_ok_def)
  with clients_ok_round[OF _ on r] assms(1) show ?thesis unfolding rs' by (simp add: run_ok_def)
next
  case False
  then have "rs' = rs" using assms(2) by (auto simp: round_step_def Let_def split: if_splits worker.splits)
  with assms(1) show ?thesis by simp
qed

lemma signal_step_result:
  assumes "signal_step sig rs = Inr rs'"
  obtains l where "rs' = rs\<lparr>tcp := fst (signal_action sig (tcp rs, server_log (server rs))),
       server := (server rs)\<lparr>server_log := l\<rparr>\<rparr>" "sig \<in> handled (tcp rs)"
  using assms by (auto simp: signal_step_def case_prod_unfold Let_def split: if_splits)

lemma signal_step_ok:
  assumes "run_ok h lfd rs" "signal_step sig rs = Inr rs'"
  shows "run_ok h lfd rs'" "\<not> tcp_running (tcp rs')"
proof -
  have lst: "listener_ok lfd (tcp rs)" using assms(1) by (simp add: run_ok_def)
  obtain l where rs': "rs' = rs\<lparr>tcp := fst (signal_action sig (tcp rs, server_log (server rs))),
      server := (server rs)\<lparr>server_log := l\<rparr>\<rparr>" using assms(2) by (rule signal_step_result)
  have "clients_ok rs' = clients_ok rs" unfolding rs' by (rule clients_ok_cong) simp_all
  then show "run_ok h lfd rs'" "\<not> tcp_running (tcp rs')"
    using assms(1) listener_ok_signal[of lfd "(tcp rs, server_log (server rs))"]
      signal_stops[of lfd "(tcp rs, server_log (server rs))"] lst
    by (simp_all add: run_ok_def rs')
qed

text \<open>The second signal of a kind ends the process.\<close>

lemma second_signal_kills: "signal_step sig rs = Inr rs' \<Longrightarrow> signal_step sig rs' = Inl Killed"
  by (auto simp: signal_step_def signal_action_def forward_signal_def Let_def split: if_splits)

lemma server_step_ok:
  assumes "run_ok h lfd rs" "server_step h rs ev = Inr rs'"
  shows "run_ok h lfd rs'"
proof (cases ev)
  case (Round i env)
  then show ?thesis using round_step_ok[OF assms(1)] assms(2) by simp
next
  case (Take i)
  then show ?thesis using assms clients_ok_take by (auto simp: run_ok_def)
next
  case (Upkeep u)
  moreover have "clients_ok (upkeep_step h rs u) = clients_ok rs" by (rule clients_ok_cong) simp_all
  ultimately show ?thesis using assms upkeep_step_ok by (auto simp: run_ok_def)
qed (use assms accept_step_ok signal_step_ok(1) in auto)

lemma server_steps_ok: "fold_res (server_step h) evs rs = Inr rs' \<Longrightarrow> run_ok h lfd rs \<Longrightarrow> run_ok h lfd rs'"
  by (rule fold_res_invariant[where f = "server_step h"]) (rule server_step_ok)

lemma run_ok_start:
  assumes "open_listener e srv = (t, True)" "server_ok False h (server b)"
  shows "run_ok h (socket_result (run_os e)) (start_serving e b t)"
proof -
  have "listener_ok (socket_result (run_os e)) t"
    using listener_ok_bound(1)[OF assms(1)[unfolded open_listener_def]]
    by (simp add: TcpServer_install_signal_handlers_def TcpServer_new_def)
  moreover have "accepted (ThreadPool_new 4 :: nat ThreadPool) = [] \<and> finished (ThreadPool_new 4 :: nat ThreadPool) = []"
    by (simp add: ThreadPool_new_def)
  ultimately show ?thesis using assms(2) threads_ok_new by (simp add: run_ok_def start_serving_def clients_ok_def)
qed

lemma run_ok_shutdown: "run_ok h lfd rs \<Longrightarrow> run_ok h lfd (rs\<lparr>threads := ThreadPool_shutdown (threads rs)\<rparr>)"
  using threads_ok_shutdown[of "threads rs"] by (simp add: run_ok_def clients_ok_def ThreadPool_shutdown_def)

section \<open>The pool of a run\<close>

text \<open>Every event acts on the thread pool by steps of its step relation, or not at all.\<close>

lemma accept_handler_threads: "thread_step\<^sup>*\<^sup>* (threads rs) (threads (accept_handler now1 now2 rs c))"
  using thread_step.enqueue[of "threads rs" "length (clients rs)"]
  by (auto simp: accept_handler_def SessionWorker_dispatch_def Let_def split: prod.splits)

lemma accept_step_keeps:
  assumes "\<And>rs c. I rs \<Longrightarrow> fresh_session c \<Longrightarrow> I (accept_handler now1 now2 rs c)"
    and "\<And>rs t l. I rs \<Longrightarrow> I (rs\<lparr>tcp := t, server := (server rs)\<lparr>server_log := l\<rparr>\<rparr>)"
    and "\<And>rs n. I rs \<Longrightarrow> I (rs\<lparr>session_counter := n\<rparr>)" "I rs"
  shows "I (accept_step now1 now2 r rs)"
proof -
  have "I (fst (AsyncAcceptLoop_round (Some (accept_handler now1 now2)) lfd st r))" if "I (fst st)" for lfd st
    using round_keeps_invariant[of I "accept_handler now1 now2" st lfd r] assms(1) that by blast
  with assms(2-4) show ?thesis by (simp add: accept_step_def case_prod_unfold Let_def)
qed

lemma accept_step_threads: "thread_step\<^sup>*\<^sup>* (threads rs) (threads (accept_step now1 now2 r rs))"
  by (rule accept_step_keeps) (use accept_handler_threads rtranclp_trans in \<open>fastforce+\<close>)

lemma take_step_threads: "thread_step\<^sup>*\<^sup>* (threads rs) (threads (take_step i rs))"
  using worker_step.take[of i "threads rs"] thread_step.worker[of "threads rs" "worker_take i (threads rs)"]
  by (auto simp: take_step_def Let_def split: worker.splits)

lemma round_step_threads: "round_step h i env rs = Inr rs' \<Longrightarrow> thread_step\<^sup>*\<^sup>* (threads rs) (threads rs')"
  using worker_step.finish[of i "threads rs"] thread_step.worker[of "threads rs"]
  by (auto simp: round_step_def Let_def split: if_splits worker.splits)

lemma server_step_threads: "server_step h rs ev = Inr rs' \<Longrightarrow> thread_step\<^sup>*\<^sup>* (threads rs) (threads rs')"
  by (cases ev) (auto simp: accept_step_threads take_step_threads intro: round_step_threads elim: signal_step_result)

lemma server_steps_threads: "fold_res (server_step h) evs rs = Inr rs' \<Longrightarrow> thread_step\<^sup>*\<^sup>* (threads rs) (threads rs')"
  using fold_res_invariant[where f = "server_step h" and I = "\<lambda>s. thread_step\<^sup>*\<^sup>* (threads rs) (threads s)"]
    server_step_threads rtranclp_trans by (metis rtranclp.rtrancl_refl)

lemma signal_stays_stopped: "\<not> tcp_running t \<Longrightarrow> \<not> tcp_running (fst (signal_action sig (t, l)))"
  by (simp add: signal_action_def forward_signal_def TcpServer_stop_def Let_def)

lemma server_step_stopped: "server_step h rs ev = Inr rs' \<Longrightarrow> \<not> tcp_running (tcp rs) \<Longrightarrow> \<not> tcp_running (tcp rs')"
  by (cases ev) (auto simp: accept_step_def round_step_def signal_stays_stopped Let_def
      elim!: signal_step_result split: if_splits worker.splits)

lemma server_steps_stopped:
  "fold_res (server_step h) evs rs = Inr rs' \<Longrightarrow> \<not> tcp_running (tcp rs) \<Longrightarrow> \<not> tcp_running (tcp rs')"
  by (rule fold_res_invariant[where f = "server_step h" and I = "\<lambda>rs. \<not> tcp_running (tcp rs)"]) (rule server_step_stopped)

section \<open>What events leave alone\<close>

lemma server_step_schedulers:
  assumes "server_step h rs ev = Inr rs'"
  shows "snapshots rs' = snapshots rs \<and> ttl_scheduler rs' = ttl_scheduler rs"
proof (cases ev)
  case (Accept_round t1 t2 r)
  have "snapshots (accept_handler t1 t2 rs c) = snapshots rs \<and> ttl_scheduler (accept_handler t1 t2 rs c) = ttl_scheduler rs"
    for rs c by (simp add: accept_handler_def update_metrics_def SessionWorker_dispatch_def Let_def split: prod.splits)
  with accept_step_keeps[of "\<lambda>s. snapshots s = snapshots rs \<and> ttl_scheduler s = ttl_scheduler rs" t1 t2 rs r] assms Accept_round
  show ?thesis by simp
next
  case (Upkeep u)
  then show ?thesis using assms by (cases u) (auto simp: Let_def split: prod.splits)
qed (use assms in \<open>auto simp: take_step_def round_step_def Let_def elim: signal_step_result split: worker.splits if_splits\<close>)

definition both_running :: "'a background_scheme \<Rightarrow> bool" where
  "both_running b \<longleftrightarrow> snapshots b = \<lparr>snap_running = True, snap_threads = 1\<rparr>
     \<and> ttl_scheduler b = \<lparr>ttl_running = True, ttl_threads = 1\<rparr>"

lemma server_steps_running: "fold_res (server_step h) evs rs = Inr rs' \<Longrightarrow> both_running rs \<Longrightarrow> both_running rs'"
  by (rule fold_res_invariant[where f = "server_step h" and I = both_running])
    (auto simp: both_running_def dest: server_step_schedulers)

lemma early_running: "both_running (foldl (upkeep_step h) (start_schedulers srv) us)"
proof (rule foldl_invariant)
  show "both_running (upkeep_step h b u)" if "both_running b" for b :: background and u
    using that by (cases u) (simp_all add: both_running_def Let_def split: prod.splits)
qed (simp add: both_running_def start_schedulers_def SnapshotScheduler_start_def ExpirationScheduler_start_def)

text \<open>While the accept loop runs no connection is counted between two events, and none is refused.\<close>

definition unrefused :: "64 word \<Rightarrow> run_state \<Rightarrow> bool" where
  "unrefused limit rs \<longleftrightarrow> active (connections rs) = 0 \<and> max_connections (connections rs) = limit \<and> refused rs = []
     \<and> (tcp_running (tcp rs) \<longrightarrow> \<not> stopping (threads rs))"

lemma accept_handler_admits:
  assumes "active (connections rs) = 0" "max_connections (connections rs) > 0" "\<not> stopping (threads rs)"
  shows "connections (accept_handler t1 t2 rs c) = (connections rs)\<lparr>last_activity := t2\<rparr>"
    "refused (accept_handler t1 t2 rs c) = refused rs" "\<not> stopping (threads (accept_handler t1 t2 rs c))"
  using assms
  by (simp_all add: accept_handler_def ConnectionPool_admit_def ConnectionPool_release_def Let_def
      SessionWorker_dispatch_def ThreadPool_enqueue_def)

lemma accept_step_unrefused:
  assumes "unrefused limit rs" "limit > 0"
  shows "unrefused limit (accept_step t1 t2 r rs)"
proof (cases "tcp_running (tcp rs)")
  case True
  let ?I = "\<lambda>s. active (connections s) = 0 \<and> max_connections (connections s) = limit \<and> refused s = [] \<and> \<not> stopping (threads s)"
  have "?I (accept_step t1 t2 r rs)"
    by (rule accept_step_keeps) (use assms True accept_handler_admits in \<open>simp_all add: unrefused_def\<close>)
  then show ?thesis by (simp add: unrefused_def)
qed (use assms in \<open>simp add: accept_step_def\<close>)

lemma server_step_unrefused:
  assumes "unrefused limit rs" "limit > 0" "server_step h rs ev = Inr rs'"
  shows "unrefused limit rs'"
proof (cases ev)
  case (Accept_round t1 t2 r)
  then show ?thesis using assms accept_step_unrefused by auto
next
  case (Signal sig)
  then obtain l where "rs' = rs\<lparr>tcp := fst (signal_action sig (tcp rs, server_log (server rs))),
      server := (server rs)\<lparr>server_log := l\<rparr>\<rparr>" using assms(3) by (auto elim: signal_step_result)
  then show ?thesis using assms(1) signal_stays_stopped[of "tcp rs" sig] by (auto simp: unrefused_def)
qed (use assms in \<open>auto simp: unrefused_def take_step_def worker_take_def round_step_def worker_finish_def Let_def
      split: worker.splits if_splits list.splits\<close>)

lemma server_steps_unrefused:
  "limit > 0 \<Longrightarrow> fold_res (server_step h) evs rs = Inr rs' \<Longrightarrow> unrefused limit rs \<Longrightarrow> unrefused limit rs'"
  using fold_res_invariant[where f = "server_step h" and I = "unrefused limit"] server_step_unrefused by blast

section \<open>Recovery and the run\<close>

lemma early_ok: "server_ok strict h srv \<Longrightarrow> server_ok strict h (server (foldl (upkeep_step h) (start_schedulers srv) us))"
  by (rule foldl_invariant[where I = "\<lambda>b. server_ok strict h (server b)"])
    (simp_all add: upkeep_step_ok start_schedulers_def)

text \<open>
  A run that ends cleanly: the last state before the schedulers are stopped and the final
  snapshot is written satisfies the invariant, and its pool has been reached from a new one.
\<close>

definition drained :: "hash \<Rightarrow> run_env \<Rightarrow> run_state \<Rightarrow> bool" where
  "drained h e rs \<longleftrightarrow> run_ok h (socket_result (run_os e)) rs \<and> \<not> tcp_running (tcp rs)
     \<and> all_exited (threads rs) \<and> thread_step\<^sup>*\<^sup>* (ThreadPool_new 4) (threads rs) \<and> both_running rs"

lemma run_stopped:
  assumes "DatabaseServer_run h e (DatabaseServer_new cfg ok fs l) = Inr (Stopped rs)"
  shows "\<exists>rs2. drained h e rs2 \<and> rs = finish_run (run_snap_ok e) rs2"
proof -
  obtain srv1 where srv1: "DatabaseServer_recover h (run_read_ok e) (DatabaseServer_new cfg ok fs l) = Inr srv1"
    "server_ok False h srv1" using recover_ok by blast
  let ?b = "add_log (\<lambda>l. log_info l ''TCP server bound, starting accept loop'')
      (foldl (upkeep_step h) (start_schedulers srv1) (run_early e))"
  obtain t bound where t: "open_listener e srv1 = (t, bound)" by (rule prod.exhaust)
  with assms srv1(1) obtain rs1 rs2 where bound: "bound"
    and busy: "fold_res (server_step h) (run_busy e) (start_serving e ?b t) = Inr rs1" "\<not> tcp_running (tcp rs1)"
    and drain: "fold_res (server_step h) (run_drain e) (rs1\<lparr>threads := ThreadPool_shutdown (threads rs1)\<rparr>) = Inr rs2"
    and rs2: "all_exited (threads rs2)" "rs = finish_run (run_snap_ok e) rs2"
    by (auto simp: DatabaseServer_run_def Let_def split: if_splits)
  have "run_ok h (socket_result (run_os e)) (start_serving e ?b t)"
    using run_ok_start[of e srv1 t h ?b] t bound early_ok[OF srv1(2)] by simp
  then have ok: "run_ok h (socket_result (run_os e)) rs2"
    using server_steps_ok[OF busy(1)] run_ok_shutdown server_steps_ok[OF drain] by blast
  have "thread_step\<^sup>*\<^sup>* (ThreadPool_new 4) (threads rs1)"
    using server_steps_threads[OF busy(1)] by (simp add: start_serving_def)
  then have "thread_step\<^sup>*\<^sup>* (ThreadPool_new 4) (threads rs2)"
    using thread_step.shutdown[of "threads rs1"] server_steps_threads[OF drain]
    by (metis (no_types, lifting) rtranclp.rtrancl_into_rtrancl rtranclp_trans run_state.select_convs(4)
        run_state.surjective run_state.update_convs(4))
  moreover have "\<not> tcp_running (tcp rs2)" using server_steps_stopped[OF drain] busy(2) by simp
  moreover have "both_running (start_serving e ?b t)"
    using early_running[of h srv1 "run_early e"] by (simp add: both_running_def start_serving_def add_log_def)
  then have "both_running rs1" by (rule server_steps_running[OF busy(1)])
  then have "both_running rs2" using server_steps_running[OF drain] by (simp add: both_running_def)
  ultimately show ?thesis using ok rs2 by (auto simp: drained_def)
qed

lemma recover_log:
  assumes "snapshot_file (files (dispatcher srv)) = None" "aof_file (files (dispatcher srv)) = Some content"
    and "fold_res (replay_line h) (getlines content) (storage (dispatcher srv)) = Inr s"
  shows "DatabaseServer_recover h True srv = Inr (srv\<lparr>dispatcher := (dispatcher srv)\<lparr>storage := s\<rparr>,
           server_log := log_info (server_log srv) ''replayed append-only log''\<rparr>)"
  using assms by (simp add: DatabaseServer_recover_def SnapshotLoader_has_snapshot_def AofLog_replay_def Let_def)

lemma config_kept:
  "DatabaseServer_recover h read_ok srv = Inr srv' \<Longrightarrow> config srv' = config srv"
  "config (server (upkeep_step h b u)) = config (server b)"
  by (auto simp: DatabaseServer_recover_def Let_def split: if_splits)
    (cases u; simp add: Let_def split: prod.splits)

lemma start_unrefused: "unrefused (max_clients (config (server b))) (start_serving e b t)"
  by (simp add: unrefused_def start_serving_def ConnectionPool_new_def ThreadPool_new_def)

lemma run_unrefused:
  assumes "DatabaseServer_run h e (DatabaseServer_new cfg ok fs l) = Inr res" "max_clients cfg > 0"
  shows "case res of Bind_failed b t \<Rightarrow> True | Serving rs \<Rightarrow> refused rs = [] | Stopped rs \<Rightarrow> refused rs = []"
proof -
  obtain srv1 where srv1: "DatabaseServer_recover h (run_read_ok e) (DatabaseServer_new cfg ok fs l) = Inr srv1"
    using recover_ok by blast
  let ?b = "add_log (\<lambda>l. log_info l ''TCP server bound, starting accept loop'')
      (foldl (upkeep_step h) (start_schedulers srv1) (run_early e))"
  obtain t bound where t: "open_listener e srv1 = (t, bound)" by (rule prod.exhaust)
  have "config (server (foldl (upkeep_step h) (start_schedulers srv1) (run_early e))) = cfg"
    using config_kept(1)[OF srv1]
    by (intro foldl_invariant[where I = "\<lambda>b. config (server b) = cfg"])
      (simp_all add: config_kept(2) start_schedulers_def DatabaseServer_new_def case_prod_unfold Let_def)
  then have start: "unrefused (max_clients cfg) (start_serving e ?b t)"
    using start_unrefused[of ?b e t] by (simp add: add_log_def)
  note steps = server_steps_unrefused[OF assms(2)]
  have stop: "unrefused (max_clients cfg) (rs\<lparr>threads := ThreadPool_shutdown (threads rs)\<rparr>)"
    if "unrefused (max_clients cfg) rs" "\<not> tcp_running (tcp rs)" for rs
    using that by (simp add: unrefused_def)
  have fin: "refused (finish_run b rs) = refused rs" for b rs
    by (simp add: finish_run_def add_log_def stop_schedulers_def Let_def split: prod.splits)
  show ?thesis
    using assms(1) srv1 t steps[OF _ start] steps[OF _ stop]
    by (fastforce simp: DatabaseServer_run_def Let_def fin unrefused_def split: if_splits)
qed

lemma finish_run_facts:
  "server_ok strict h (server (finish_run snap_ok rs)) = server_ok strict h (server rs)"
  "storage (dispatcher (server (finish_run snap_ok rs))) = storage (dispatcher (server rs))"
  "snap_ok \<Longrightarrow> snapshot_file (files (dispatcher (server (finish_run snap_ok rs))))
     = Some (snapshot_content (StorageEngine_dump_entries (storage (dispatcher (server rs)))))"
  "clients (finish_run snap_ok rs) = clients rs" "refused (finish_run snap_ok rs) = refused rs"
  "finished (threads (finish_run snap_ok rs)) = finished (threads rs)"
  "workers (threads (finish_run snap_ok rs)) = []" "poll_fd (multiplexer (finish_run snap_ok rs)) < 0"
  "tcp (finish_run snap_ok rs) = TcpServer_destroy (tcp rs)"
  "snapshots (finish_run snap_ok rs) = SnapshotScheduler_stop (snapshots rs)"
  "ttl_scheduler (finish_run snap_ok rs) = ExpirationScheduler_stop (ttl_scheduler rs)"
  by (simp_all add: finish_run_def add_log_def stop_schedulers_def server_ok_def dispatcher_ok_def
      SnapshotWriter_write_def ThreadPool_join_def ThreadPool_destroy_def ThreadPool_shutdown_def IoMultiplexer_destroy_def
      Let_def)

section \<open>The sweep's report\<close>

lemma purge_count_le:
  assumes "engine_ok h s"
  shows "StorageEngine_entry_count (StorageEngine_purge_expired h clock s) \<le> StorageEngine_entry_count s"
proof -
  have "finite (dom (engine_view h s))" using assms by (simp add: view_map_of finite_dom_map_of)
  moreover have "dom (engine_view h (StorageEngine_purge_expired h clock s)) \<subseteq> dom (engine_view h s)"
    using purge_sub[OF assms] by (rule map_le_implies_dom_le)
  ultimately show ?thesis
    using entry_count_correct[OF assms] entry_count_correct[OF purge_ok[OF assms]] by (simp add: card_mono)
qed

lemma sweep_report:
  assumes "engine_ok h s" "StorageEngine_entry_count s < 2 ^ 64"
  shows "snd (ExpirationScheduler_sweep h clock s l) =
     (let removed = StorageEngine_entry_count s - StorageEngine_entry_count (StorageEngine_purge_expired h clock s)
      in if removed = 0 then l else log_info l (''ttl sweep removed '' @ show_nat removed @ '' keys''))"
proof -
  let ?b = "StorageEngine_entry_count s" and ?a = "StorageEngine_entry_count (StorageEngine_purge_expired h clock s)"
  have le: "?a \<le> ?b" by (rule purge_count_le[OF assms(1)])
  then have w: "unat (of_nat ?a :: 64 word) = ?a" "unat (of_nat ?b :: 64 word) = ?b"
    using assms(2) by (simp_all add: unat_of_nat)
  then have "unat ((of_nat ?b :: 64 word) - of_nat ?a) = ?b - ?a"
    using le by (simp add: unat_sub word_le_nat_alt)
  moreover have "(of_nat ?b :: 64 word) = of_nat ?a \<longleftrightarrow> ?b = ?a" using w by metis
  ultimately show ?thesis
    using le by (simp add: ExpirationScheduler_sweep_def show_size_def Let_def)
qed

section \<open>An example run\<close>

text \<open>
  The log on disk holds one key. A client connects and leaves, SIGINT arrives, the workers
  return, and the final snapshot is written.
\<close>

definition example_disk :: disk where
  "example_disk = \<lparr>aof_file = Some (''SET k a b'' @ [newline]), rewrite_file = None, snapshot_file = None\<rparr>"

definition example_event :: accept_event where
  "example_event = \<lparr>accepted_fd = 5, peer_ip = ''10.0.0.1'', peer_port = 4000, peer_known = True,
     sock_reads = [], sock_writes = []\<rparr>"

definition example_run :: run_env where
  "example_run = \<lparr>run_read_ok = True, run_early = [],
     run_os = \<lparr>socket_result = 3, setsockopt_result = 0, inet_pton_result = 1, bind_result = 0, listen_result = 0, errno_text = []\<rparr>,
     run_epoll_fd = 4, run_epoll_ctl = 0, run_start = 0,
     run_busy = [Accept_round 1 2 \<lparr>round_signal = None, round_poll = Inr [3], round_event = example_event\<rparr>,
       Take 2, Round 2 quiet_env,
       Accept_round 3 4 \<lparr>round_signal = Some SIGINT, round_poll = Inl (-1), round_event = example_event\<rparr>],
     run_drain = [Take 0, Take 1, Take 2, Take 3], run_snap_ok = True\<rparr>"

definition example_server :: DatabaseServer where
  "example_server = DatabaseServer_new ServerConfig_default True example_disk \<lparr>g_level = LogLevel.Info, stderr_out = []\<rparr>"

lemma example_recovery:
  "\<exists>srv. DatabaseServer_recover (\<lambda>_. 0) True example_server = Inr srv
     \<and> dispatcher_ok (\<lambda>_. 0) (dispatcher srv) \<and> stored (\<lambda>_. 0) (dispatcher srv) = [''k'' \<mapsto> fresh_entry ''a b'']
     \<and> config srv = ServerConfig_default"
proof -
  let ?fs = "files (dispatcher example_server)"
  have fs: "snapshot_file ?fs = None" "aof_file ?fs = Some (''SET k a b'' @ [newline])"
    and new: "storage (dispatcher example_server) = StorageEngine_new" "config example_server = ServerConfig_default"
      "channels (dispatcher example_server) = ChannelRegistry_new"
    by (simp_all add: example_server_def example_disk_def DatabaseServer_new_def CommandDispatcher_new_def AofLog_new_def
        open_append_def Let_def)
  have lines: "getlines (''SET k a b'' @ [newline]) = [''SET k a b'']" by code_simp
  have line: "starts_with ''SET '' ''SET k a b''" "find_char (CHR '' '') (drop 4 ''SET k a b'') = Some 1" by code_simp+
  obtain s where s: "StorageEngine_set (\<lambda>_. 0) StorageEngine_new ''k'' ''a b'' = Inr (s, True)"
    "engine_ok (\<lambda>_. 0) s" "engine_view (\<lambda>_. 0) s = [''k'' \<mapsto> fresh_entry ''a b'']"
    using set_correct[OF engine_ok_new, of "\<lambda>_. 0" "''k''" "''a b''"] by (auto simp: engine_view_new)
  then have "replay_line (\<lambda>_. 0) StorageEngine_new ''SET k a b'' = Inr s"
    using line by (simp add: replay_line_def)
  then have "fold_res (replay_line (\<lambda>_. 0)) (getlines (''SET k a b'' @ [newline])) (storage (dispatcher example_server)) = Inr s"
    unfolding lines new by simp
  from recover_log[OF fs this] s registry_ok_new show ?thesis
    by (auto simp: new dispatcher_ok_def)
qed

definition example_listener :: "DatabaseServer \<Rightarrow> TcpServer" where
  "example_listener srv = fst (open_listener example_run srv)"

lemma example_listener:
  assumes "config srv = ServerConfig_default"
  shows "open_listener example_run srv = (example_listener srv, True)"
    "tcp_running (example_listener srv)" "listen_fd (example_listener srv) = 3"
    "handled (example_listener srv) = {SIGINT, SIGTERM}" "active_server (example_listener srv)"
  using assms
  by (simp_all add: example_listener_def open_listener_def TcpServer_bind_and_listen_def TcpServer_setup_signals_def
      TcpServer_install_signal_handlers_def TcpServer_new_def ServerConfig_default_def example_run_def Let_def)

lemma example_busy:
  assumes "config srv = ServerConfig_default" "config (server b) = ServerConfig_default"
  shows "\<exists>rs1. fold_res (server_step (\<lambda>_. 0)) (run_busy example_run) (start_serving example_run b (example_listener srv)) = Inr rs1
      \<and> \<not> tcp_running (tcp rs1) \<and> length (clients rs1) = 1
      \<and> storage (dispatcher (server rs1)) = storage (dispatcher (server b))
      \<and> threads rs1 = \<lparr>tasks = [], workers = [Waiting, Waiting, Waiting, Waiting],
            stopping = False, accepted = [0], started = [0], finished = [0]\<rparr>"
proof -
  let ?c = "fst (ClientSession_new 1 5 (peer_text example_event) [] [])"
  let ?greeted = "fst (ClientSession_write_line ?c ''+OK voltdbx ready'')"
  have closes: "session_round env d ?greeted = Inr (d, ClientSession_mark_closed ?greeted, False)" for env d
    by (rule session_round_eof) (simp_all add: ClientSession_new_def next_id_def ClientSession_write_line_def)
  have pool: "(ThreadPool_new 4 :: nat ThreadPool) = \<lparr>tasks = [], workers = [Waiting, Waiting, Waiting, Waiting],
      stopping = False, accepted = [], started = [], finished = []\<rparr>"
    by (simp add: ThreadPool_new_def numeral_eq_Suc)
  note lst = example_listener[OF assms(1)]
  let ?rs0 = "start_serving example_run b (example_listener srv)"
  let ?ev = "\<lparr>round_signal = None, round_poll = Inr [3], round_event = example_event\<rparr>"
  let ?rs1 = "(accept_handler 1 2 ?rs0 ?c)\<lparr>session_counter := 2\<rparr>"
  have 1: "accept_step 1 2 ?ev ?rs0 = ?rs1"
    using lst by (simp add: accept_step_def round_signalled_def round_listen_fd start_serving_def
        AsyncAcceptLoop_handle_readable_def example_event_def ClientSession_new_def next_id_def Let_def)
  have r1: "threads ?rs1 = \<lparr>tasks = [0], workers = [Waiting, Waiting, Waiting, Waiting], stopping = False,
      accepted = [0], started = [], finished = []\<rparr>" "clients ?rs1 = [?c]" "tcp ?rs1 = example_listener srv"
    "storage (dispatcher (server ?rs1)) = storage (dispatcher (server b))"
    using assms(2) by (simp_all add: accept_handler_def start_serving_def ConnectionPool_new_def ConnectionPool_admit_def
        ServerConfig_default_def SessionWorker_dispatch_def ThreadPool_enqueue_def pool update_metrics_def Let_def)
  let ?p2 = "\<lparr>tasks = [], workers = [Waiting, Waiting, Running 0, Waiting], stopping = False,
      accepted = [0], started = [0], finished = []\<rparr>"
  let ?rs2 = "?rs1\<lparr>threads := ?p2, clients := [?greeted]\<rparr>"
  have 2: "take_step 2 ?rs1 = ?rs2"
    using r1 by (simp add: take_step_def worker_may_wake_def worker_take_def numeral_eq_Suc)
  let ?p3 = "\<lparr>tasks = [], workers = [Waiting, Waiting, Waiting, Waiting], stopping = False,
      accepted = [0], started = [0], finished = [0]\<rparr>"
  let ?rs3 = "?rs2\<lparr>server := (server ?rs2)\<lparr>dispatcher := dispatcher (server ?rs2)\<rparr>,
      clients := [ClientSession_mark_closed ?greeted], threads := ?p3\<rparr>"
  have 3: "round_step (\<lambda>_. 0) 2 quiet_env ?rs2 = Inr ?rs3"
    using r1 closes by (simp add: round_step_def worker_finish_def numeral_eq_Suc)
  let ?sg = "\<lparr>round_signal = Some SIGINT, round_poll = Inl (-1), round_event = example_event\<rparr>"
  let ?rs4 = "accept_step 3 4 ?sg ?rs3"
  have "tcp ?rs3 = example_listener srv" using r1(3) by simp
  then have 4: "\<not> tcp_running (tcp ?rs4)" "threads ?rs4 = ?p3" "length (clients ?rs4) = 1"
    "storage (dispatcher (server ?rs4)) = storage (dispatcher (server b))"
    using lst r1(4) by (simp_all add: accept_step_def round_signalled_def signal_action_def forward_signal_def round_timeout Let_def)
  have "run_busy example_run = [Accept_round 1 2 ?ev, Take 2, Round 2 quiet_env, Accept_round 3 4 ?sg]"
    by (simp add: example_run_def)
  then have "fold_res (server_step (\<lambda>_. 0)) (run_busy example_run) ?rs0 = Inr ?rs4"
    using 1 2 3 by simp
  with 4 show ?thesis by blast
qed

text \<open>The state in which the pool has been told to stop, and what any drain makes of it.\<close>

lemma example_signalled:
  obtains rs1 where "\<not> tcp_running (tcp rs1)" "length (clients rs1) = 1"
    "stored (\<lambda>_. 0) (dispatcher (server rs1)) = [''k'' \<mapsto> fresh_entry ''a b'']"
    "StorageEngine_entry_count (storage (dispatcher (server rs1))) = 1"
    "threads rs1 = \<lparr>tasks = [], workers = [Waiting, Waiting, Waiting, Waiting], stopping = True,
        accepted = [0], started = [0], finished = [0]\<rparr>"
    "\<And>evs. DatabaseServer_run (\<lambda>_. 0) (example_run\<lparr>run_drain := evs\<rparr>) example_server =
       bind_res (fold_res (server_step (\<lambda>_. 0)) evs rs1) (\<lambda>rs2.
         Inr (if \<not> all_exited (threads rs2) then Serving rs2 else Stopped (finish_run True rs2)))"
proof -
  obtain srv where srv: "DatabaseServer_recover (\<lambda>_. 0) True example_server = Inr srv"
    "dispatcher_ok (\<lambda>_. 0) (dispatcher srv)" "stored (\<lambda>_. 0) (dispatcher srv) = [''k'' \<mapsto> fresh_entry ''a b'']"
    "config srv = ServerConfig_default" using example_recovery by blast
  let ?b = "add_log (\<lambda>l. log_info l ''TCP server bound, starting accept loop'') (start_schedulers srv)"
  have b: "config (server ?b) = ServerConfig_default" "storage (dispatcher (server ?b)) = storage (dispatcher srv)"
    using srv(4) by (simp_all add: add_log_def start_schedulers_def)
  obtain rs1 where rs1: "fold_res (server_step (\<lambda>_. 0)) (run_busy example_run) (start_serving example_run ?b (example_listener srv)) = Inr rs1"
    "\<not> tcp_running (tcp rs1)" "length (clients rs1) = 1" "storage (dispatcher (server rs1)) = storage (dispatcher srv)"
    "threads rs1 = \<lparr>tasks = [], workers = [Waiting, Waiting, Waiting, Waiting], stopping = False,
        accepted = [0], started = [0], finished = [0]\<rparr>" using example_busy[OF srv(4) b(1)] b(2) by auto
  let ?rs1 = "rs1\<lparr>threads := ThreadPool_shutdown (threads rs1)\<rparr>"
  have ex: "run_early (example_run\<lparr>run_drain := evs\<rparr>) = []" "run_read_ok (example_run\<lparr>run_drain := evs\<rparr>)"
    "run_snap_ok (example_run\<lparr>run_drain := evs\<rparr>)"
    "open_listener (example_run\<lparr>run_drain := evs\<rparr>) srv = (example_listener srv, True)"
    "start_serving (example_run\<lparr>run_drain := evs\<rparr>) bg t = start_serving example_run bg t" for evs bg t
    using example_listener(1)[OF srv(4)] by (simp_all add: open_listener_def start_serving_def example_run_def)
  have "DatabaseServer_run (\<lambda>_. 0) (example_run\<lparr>run_drain := evs\<rparr>) example_server =
       bind_res (fold_res (server_step (\<lambda>_. 0)) evs ?rs1) (\<lambda>rs2.
         Inr (if \<not> all_exited (threads rs2) then Serving rs2 else Stopped (finish_run True rs2)))" for evs
    using srv(1) rs1(1,2) by (auto simp: DatabaseServer_run_def ex Let_def intro!: bind_res_cong)
  moreover have "StorageEngine_entry_count (storage (dispatcher srv)) = 1"
    using entry_count_correct[of "\<lambda>_. 0" "storage (dispatcher srv)"] srv(2,3) by (simp add: dispatcher_ok_def)
  ultimately show thesis
    using that[of ?rs1] rs1(2-5) srv(3) by (simp add: ThreadPool_shutdown_def)
qed

lemma example_run_stops:
  "\<exists>rs. DatabaseServer_run (\<lambda>_. 0) example_run example_server = Inr (Stopped rs)
     \<and> stored (\<lambda>_. 0) (dispatcher (server rs)) = [''k'' \<mapsto> fresh_entry ''a b'']
     \<and> length (clients rs) = 1
     \<and> StorageEngine_entry_count (storage (dispatcher (server rs))) = 1"
proof -
  obtain rs1 where rs1: "length (clients rs1) = 1" "stored (\<lambda>_. 0) (dispatcher (server rs1)) = [''k'' \<mapsto> fresh_entry ''a b'']"
    "StorageEngine_entry_count (storage (dispatcher (server rs1))) = 1"
    "threads rs1 = \<lparr>tasks = [], workers = [Waiting, Waiting, Waiting, Waiting], stopping = True,
        accepted = [0], started = [0], finished = [0]\<rparr>"
    and run: "\<And>evs. DatabaseServer_run (\<lambda>_. 0) (example_run\<lparr>run_drain := evs\<rparr>) example_server =
       bind_res (fold_res (server_step (\<lambda>_. 0)) evs rs1) (\<lambda>rs2.
         Inr (if \<not> all_exited (threads rs2) then Serving rs2 else Stopped (finish_run True rs2)))"
    using example_signalled by blast
  let ?rs2 = "rs1\<lparr>threads := \<lparr>tasks = [], workers = [Exited, Exited, Exited, Exited], stopping = True,
        accepted = [0], started = [0], finished = [0]\<rparr>\<rparr>"
  have "fold_res (server_step (\<lambda>_. 0)) (run_drain example_run) rs1 = Inr ?rs2"
    using rs1(4) by (simp add: example_run_def take_step_def worker_may_wake_def worker_take_def numeral_eq_Suc)
  moreover have "example_run\<lparr>run_drain := run_drain example_run\<rparr> = example_run" by simp
  ultimately have "DatabaseServer_run (\<lambda>_. 0) example_run example_server = Inr (Stopped (finish_run True ?rs2))"
    using run[of "run_drain example_run"] by (simp add: all_exited_def)
  then show ?thesis using rs1(1-3) by (auto simp: finish_run_facts)
qed

section \<open>Properties\<close>



text \<open>
  C8: exit code 0 leaves nothing behind, in any interleaving: the listening socket has been
  closed once, every client that was accepted has been served to its end exactly once and
  its socket closed exactly once, the socket of every refused client has been closed
  exactly once, the descriptor of the multiplexer is closed, and the workers and both
  scheduler threads have been joined.
\<close>

theorem clean_exit_closes_everything:
  assumes "DatabaseServer_run h e (DatabaseServer_new cfg ok fs l) = Inr (Stopped rs)"
  shows "tcp_closed (tcp rs) = [socket_result (run_os e)] \<and> \<not> tcp_running (tcp rs)
     \<and> mset (finished (threads rs)) = mset [0..<length (clients rs)]
     \<and> (\<forall>c \<in> set (clients rs @ refused rs). \<not> alive c \<and> length (closed_fds c) = 1)
     \<and> poll_fd (multiplexer rs) < 0 \<and> workers (threads rs) = []
     \<and> snap_threads (snapshots rs) = 0 \<and> ttl_threads (ttl_scheduler rs) = 0"
proof -
  obtain rs2 where d: "drained h e rs2" and rs: "rs = finish_run (run_snap_ok e) rs2"
    using run_stopped[OF assms] by blast
  from d have ok: "listener_ok (socket_result (run_os e)) (tcp rs2)" "clients_ok rs2" "\<not> tcp_running (tcp rs2)"
    by (simp_all add: drained_def run_ok_def)
  have served: "mset (finished (threads rs2)) = mset [0..<length (clients rs2)]"
    using all_exited_done[of "threads rs2"] workers_nonempty d ok(2) by (auto simp: drained_def clients_ok_def)
  then have "set (finished (threads rs2)) = {0..<length (clients rs2)}"
    by (metis atLeastLessThan_upt mset_eq_setD)
  then have "\<not> alive c" if "c \<in> set (clients rs2)" for c
    using that ok(2) by (auto simp: clients_ok_def in_set_conv_nth)
  with ok have "\<not> alive c \<and> length (closed_fds c) = 1" if "c \<in> set (clients rs2 @ refused rs2)" for c
    using that by (auto simp: clients_ok_def closed_socket_def open_socket_def fd_owned_def)
  with d ok served show ?thesis unfolding rs
    by (simp add: finish_run_facts drained_def both_running_def SnapshotScheduler_stop_def ExpirationScheduler_stop_def
        TcpServer_destroy_def TcpServer_stop_def listener_ok_def)
qed

theorem clean_exit_closes_everything_witness:
  "\<exists>rs. DatabaseServer_run (\<lambda>_. 0) example_run example_server = Inr (Stopped rs)
     \<and> length (clients rs) = 1 \<and> \<not> alive (clients rs ! 0) \<and> tcp_closed (tcp rs) = [3]"
proof -
  obtain rs where rs: "DatabaseServer_run (\<lambda>_. 0) example_run example_server = Inr (Stopped rs)" "length (clients rs) = 1"
    using example_run_stops by blast
  from clean_exit_closes_everything[OF rs(1)[unfolded example_server_def]] rs show ?thesis
    by (auto simp: example_run_def intro!: exI[of _ rs])
qed

text \<open>
  C40: the accept handler never refuses a client while the configured limit is positive, in
  any run: it gives the connection back as soon as it has queued the session, so the count
  is zero before every admission and \<open>max_clients\<close> bounds nothing.
\<close>

theorem accept_never_refuses:
  assumes "DatabaseServer_run h e (DatabaseServer_new cfg ok fs l) = Inr res" "max_clients cfg > 0"
  shows "case res of Bind_failed b t \<Rightarrow> True | Serving rs \<Rightarrow> refused rs = [] | Stopped rs \<Rightarrow> refused rs = []"
  using assms by (rule run_unrefused)

theorem accept_never_refuses_witness:
  "\<exists>rs. DatabaseServer_run (\<lambda>_. 0) example_run example_server = Inr (Stopped rs) \<and> refused rs = []"
proof -
  obtain rs where rs: "DatabaseServer_run (\<lambda>_. 0) example_run example_server = Inr (Stopped rs)"
    using example_run_stops by blast
  from accept_never_refuses[OF rs[unfolded example_server_def]] rs show ?thesis by (simp add: ServerConfig_default_def)
qed

end
