(* ===== verification/Server_Progress.thy ===== *)
theory Server_Progress
  imports Server
begin

text \<open>
  Progress of a run, and what a worker does when it is left alone.

  \<^item> \<open>work\<close> bounds what is left to do once the accept loop has ended and the pool is stopping:
    the steps of the pool plus the bytes the clients have sent. Every step of a worker
    lowers it and no other event raises it, so under every fair schedule the workers return.
  \<^item> The rounds in which the server interleaves sessions compose to
    \<open>CommandHandler::handle_session\<close>.
\<close>

section \<open>The work that is left\<close>

definition bytes_left :: "run_state \<Rightarrow> nat" where
  "bytes_left rs = sum_list (map (\<lambda>c. length (incoming c)) (clients rs))"

definition work :: "run_state \<Rightarrow> nat" where
  "work rs = budget (threads rs) + bytes_left rs"

text \<open>The part of the state that decides which worker can act.\<close>

definition same_sessions :: "run_state \<Rightarrow> run_state \<Rightarrow> bool" where
  "same_sessions rs rs' \<longleftrightarrow> threads rs' = threads rs \<and> clients rs' = clients rs"

fun worker_event :: "nat worker list \<Rightarrow> event \<Rightarrow> bool" where
  "worker_event ws (Take i) \<longleftrightarrow> i < length ws \<and> ws ! i = Waiting"
| "worker_event ws (Round i env) \<longleftrightarrow> i < length ws \<and> (\<exists>j. ws ! i = Running j)"
| "worker_event ws _ \<longleftrightarrow> False"

definition draining :: "run_state \<Rightarrow> bool" where
  "draining rs \<longleftrightarrow> \<not> tcp_running (tcp rs) \<and> stopping (threads rs)"

lemma sum_list_update_nat:
  fixes f :: "'a \<Rightarrow> nat"
  assumes "j < length xs"
  shows "sum_list (map f (xs[j := x])) + f (xs ! j) = sum_list (map f xs) + f x"
  using assms
proof (induction xs arbitrary: j)
  case (Cons y ys)
  then show ?case by (cases j) auto
qed simp

lemma bytes_left_update:
  assumes "j < length (clients rs)"
  shows "bytes_left (rs\<lparr>clients := (clients rs)[j := c]\<rparr>) + length (incoming (clients rs ! j))
     = bytes_left rs + length (incoming c)"
  using sum_list_update_nat[OF assms, of "\<lambda>c. length (incoming c)" c] by (simp add: bytes_left_def)

lemma bytes_left_cong: "clients rs' = clients rs \<Longrightarrow> bytes_left rs' = bytes_left rs"
  by (simp add: bytes_left_def)

lemma take_step_work:
  assumes "i < length (workers (threads rs))" "workers (threads rs) ! i = Waiting" "stopping (threads rs)"
  shows "work (take_step i rs) < work rs"
proof -
  have wake: "worker_may_wake (threads rs)" using assms(3) by (simp add: worker_may_wake_def)
  have "map (\<lambda>c. length (incoming c)) ((clients rs)[j := fst (ClientSession_write_line (clients rs ! j) r)])
      = map (\<lambda>c. length (incoming c)) (clients rs)" for j r
    by (cases "j < length (clients rs)") (simp_all add: map_update list_update_same_conv list_update_beyond)
  then have "bytes_left (take_step i rs) = bytes_left rs"
    using assms wake by (simp add: take_step_def bytes_left_def Let_def split: worker.split)
  moreover have "threads (take_step i rs) = worker_take i (threads rs)"
    using assms wake by (simp add: take_step_def Let_def split: worker.split)
  ultimately show ?thesis
    using worker_step_budget[OF worker_step.take[OF assms(1,2) wake]] by (simp add: work_def)
qed

lemma round_step_work:
  assumes "clients_ok rs" "i < length (workers (threads rs))" "workers (threads rs) ! i = Running j"
    and "round_step h i env rs = Inr rs'"
  shows "work rs' < work rs \<and> stopping (threads rs') = stopping (threads rs)"
proof -
  have j: "j < length (clients rs)" by (rule running_index[OF assms(1-3)])
  obtain d c goes_on where
    r: "session_round (env\<lparr>env_hash := h\<rparr>) (dispatcher (server rs)) (clients rs ! j) = Inr (d, c, goes_on)"
    and rs': "rs' = rs\<lparr>server := (server rs)\<lparr>dispatcher := d\<rparr>, clients := (clients rs)[j := c],
        threads := (if goes_on then threads rs else worker_finish i j (threads rs))\<rparr>"
    using assms(2-4) by (auto simp: round_step_def Let_def)
  have le: "length (incoming c) \<le> length (incoming (clients rs ! j))" using session_round_incoming[OF r] .
  have b: "bytes_left rs' + length (incoming (clients rs ! j)) = bytes_left rs + length (incoming c)"
    using bytes_left_update[OF j, of c] bytes_left_cong[of rs' "rs\<lparr>clients := (clients rs)[j := c]\<rparr>"] rs' by simp
  show ?thesis
  proof (cases goes_on)
    case True
    then show ?thesis using b session_round_progress[OF r] rs' by (simp add: work_def)
  next
    case False
    then show ?thesis
      using b le worker_step_budget[OF worker_step.finish[OF assms(2,3)]] rs' by (simp add: work_def)
  qed
qed

section \<open>One event\<close>

lemma take_step_idle:
  assumes "\<not> (i < length (workers (threads rs)) \<and> workers (threads rs) ! i = Waiting)"
  shows "take_step i rs = rs"
  using assms by (auto simp: take_step_def Let_def)

lemma round_step_idle:
  assumes "\<not> (i < length (workers (threads rs)) \<and> (\<exists>j. workers (threads rs) ! i = Running j))"
  shows "round_step h i env rs = Inr rs"
  using assms by (auto simp: round_step_def Let_def split: worker.split)

lemma drain_step:
  assumes "clients_ok rs" "draining rs" "server_step h rs ev = Inr rs'"
  shows "draining rs'"
    and "if worker_event (workers (threads rs)) ev then work rs' < work rs else same_sessions rs rs'"
proof -
  have "stopping (threads rs') \<and>
      (if worker_event (workers (threads rs)) ev then work rs' < work rs else same_sessions rs rs')"
  proof (cases ev)
    case (Accept_round t1 t2 r)
    then show ?thesis using assms(2,3) by (simp add: accept_step_def draining_def same_sessions_def)
  next
    case (Upkeep u)
    then show ?thesis using assms(2,3) by (auto simp: draining_def same_sessions_def)
  next
    case (Signal sig)
    then show ?thesis using assms(2,3) by (auto simp: draining_def same_sessions_def elim!: signal_step_result)
  next
    case (Take i)
    have "stopping (threads (take_step i rs)) = stopping (threads rs)"
      by (auto simp: take_step_def worker_take_def Let_def split: worker.split list.split)
    then show ?thesis
      using Take assms(2,3) take_step_work[of i rs] take_step_idle[of i rs]
      by (auto simp: draining_def same_sessions_def)
  next
    case (Round i env)
    then show ?thesis
      using assms round_step_work[OF assms(1)] round_step_idle[of i rs h env]
      by (auto simp: draining_def same_sessions_def)
  qed
  then show "draining rs'"
    and "if worker_event (workers (threads rs)) ev then work rs' < work rs else same_sessions rs rs'"
    using assms(2) server_step_stopped[OF assms(3)] by (auto simp: draining_def)
qed

lemma same_sessions_work: "same_sessions rs rs' \<Longrightarrow> work rs' = work rs"
  by (simp add: same_sessions_def work_def bytes_left_def)

section \<open>Fair schedules\<close>

text \<open>
  A segment of a schedule that gives every one of \<open>n\<close> workers the chance to take a task and to
  run a round, in any order and with any other events in between.
\<close>

definition fair_segment :: "nat \<Rightarrow> event list \<Rightarrow> bool" where
  "fair_segment n seg \<longleftrightarrow> (\<forall>i < n. Take i \<in> set seg \<and> (\<exists>env. Round i env \<in> set seg))"

lemma drain_steps:
  assumes "run_ok h lfd rs" "draining rs" "fold_res (server_step h) evs rs = Inr rs'"
  shows "run_ok h lfd rs' \<and> draining rs' \<and> work rs' \<le> work rs
     \<and> (work rs' = work rs \<longrightarrow> same_sessions rs rs' \<and> (\<forall>ev \<in> set evs. \<not> worker_event (workers (threads rs)) ev))"
  using assms
proof (induction evs arbitrary: rs)
  case Nil
  then show ?case by (simp add: same_sessions_def)
next
  case (Cons ev evs)
  then obtain t where t: "server_step h rs ev = Inr t" "fold_res (server_step h) evs t = Inr rs'" by auto
  have ok: "run_ok h lfd t" by (rule server_step_ok[OF Cons.prems(1) t(1)])
  have cl: "clients_ok rs" using Cons.prems(1) by (simp add: run_ok_def)
  note step = drain_step[OF cl Cons.prems(2) t(1)]
  note rest = Cons.IH[OF ok step(1) t(2)]
  show ?case
  proof (cases "worker_event (workers (threads rs)) ev")
    case True
    then show ?thesis using step(2) rest by simp
  next
    case False
    then have same: "same_sessions rs t" using step(2) by simp
    then show ?thesis using rest False same_sessions_work[OF same] by (auto simp: same_sessions_def)
  qed
qed

lemma idle_all_exited:
  assumes "fair_segment (length (workers p)) seg" "\<forall>ev \<in> set seg. \<not> worker_event (workers p) ev"
  shows "all_exited p"
proof -
  have "w = Exited" if "w \<in> set (workers p)" for w
  proof -
    from that obtain i where i: "i < length (workers p)" "workers p ! i = w" by (auto simp: in_set_conv_nth)
    with assms(1) obtain env where "Take i \<in> set seg" "Round i env \<in> set seg" by (auto simp: fair_segment_def)
    with assms(2) i show ?thesis by (cases w) fastforce+
  qed
  then show ?thesis by (auto simp: all_exited_def)
qed

lemma exited_stable:
  assumes "run_ok h lfd rs" "draining rs" "all_exited (threads rs)" "fold_res (server_step h) evs rs = Inr rs'"
  shows "all_exited (threads rs')"
proof -
  let ?I = "\<lambda>rs. run_ok h lfd rs \<and> draining rs \<and> all_exited (threads rs)"
  have "?I t" if "?I s" "server_step h s ev = Inr t" for s t ev
  proof -
    have "\<not> worker_event (workers (threads s)) ev"
      using that(1) by (cases ev) (auto simp: all_exited_def dest!: nth_mem)
    moreover have "clients_ok s" using that(1) by (simp add: run_ok_def)
    ultimately show ?thesis
      using that server_step_ok[OF _ that(2)] drain_step[OF _ _ that(2)] by (auto simp: same_sessions_def)
  qed
  then show ?thesis using fold_res_invariant[where I = ?I, OF _ assms(4)] assms(1-3) by blast
qed

lemma drain_segments:
  assumes "run_ok h lfd rs" "draining rs" "\<forall>seg \<in> set segs. fair_segment (length (workers (threads rs))) seg"
    and "fold_res (server_step h) (concat segs) rs = Inr rs'"
  shows "all_exited (threads rs') \<or> work rs' + length segs \<le> work rs"
  using assms
proof (induction segs arbitrary: rs)
  case (Cons seg segs)
  then obtain t where t: "fold_res (server_step h) seg rs = Inr t" "fold_res (server_step h) (concat segs) t = Inr rs'"
    by (auto simp: fold_res_append)
  note seg = drain_steps[OF Cons.prems(1,2) t(1)]
  have len: "length (workers (threads t)) = length (workers (threads rs))"
    using server_steps_threads[OF t(1)] by (rule workers_kept_steps)
  have rest: "all_exited (threads rs') \<or> work rs' + length segs \<le> work t"
    using Cons.IH[OF _ _ _ t(2)] seg Cons.prems(3) len by simp
  show ?case
  proof (cases "work t = work rs")
    case False
    then show ?thesis using rest seg by auto
  next
    case True
    then have "all_exited (threads rs)" "same_sessions rs t"
      using seg idle_all_exited[of "threads rs" seg] Cons.prems(3) by auto
    then have "all_exited (threads t)" by (simp add: same_sessions_def)
    then show ?thesis using exited_stable[OF _ _ _ t(2)] seg by blast
  qed
qed simp

section \<open>Faults of a run\<close>

text \<open>A run ends early by a number a client sent, or by a signal.\<close>

definition run_fault :: "event list \<Rightarrow> fault \<Rightarrow> bool" where
  "run_fault evs f \<longleftrightarrow> f \<in> {Invalid_argument, Out_of_range, Signed_overflow}
     \<or> f = Killed \<and> (\<exists>sig. Signal sig \<in> set evs)"

lemma server_step_fault:
  assumes "run_ok h lfd rs" "server_step h rs ev = Inl f"
  shows "run_fault [ev] f"
proof (cases ev)
  case (Round i env)
  with assms(2) obtain j where
    "session_round (env\<lparr>env_hash := h\<rparr>) (dispatcher (server rs)) (clients rs ! j) = Inl f"
    by (auto simp: round_step_def Let_def bind_res_eq_Inl split: if_splits worker.splits)
  then show ?thesis using session_round_fault assms(1) by (fastforce simp: run_ok_def server_ok_def run_fault_def)
qed (use assms(2) in \<open>auto simp: run_fault_def signal_step_def Let_def split: if_splits prod.splits\<close>)

lemma server_steps_fault:
  "run_ok h lfd rs \<Longrightarrow> fold_res (server_step h) evs rs = Inl f \<Longrightarrow> run_fault evs f"
proof (induction evs arbitrary: rs)
  case (Cons ev evs)
  show ?case
  proof (cases "server_step h rs ev")
    case (Inl f')
    then show ?thesis using server_step_fault[OF Cons.prems(1) Inl] Cons.prems(2) by (auto simp: run_fault_def)
  next
    case (Inr t)
    then show ?thesis using Cons.IH[OF server_step_ok[OF Cons.prems(1) Inr]] Cons.prems(2) by (auto simp: run_fault_def)
  qed
qed simp

section \<open>The end of a run\<close>

text \<open>How a run that has not ended came about, and what another drain would have given.\<close>

lemma run_serving:
  assumes "DatabaseServer_run h e (DatabaseServer_new cfg ok fs l) = Inr (Serving rs)" "\<not> tcp_running (tcp rs)"
  obtains rs1 where "run_ok h (socket_result (run_os e)) rs1" "draining rs1" "length (workers (threads rs1)) = 4"
    "\<And>evs. DatabaseServer_run h (e\<lparr>run_drain := evs\<rparr>) (DatabaseServer_new cfg ok fs l) =
       bind_res (fold_res (server_step h) evs rs1) (\<lambda>rs2.
         Inr (if \<not> all_exited (threads rs2) then Serving rs2 else Stopped (finish_run (run_snap_ok e) rs2)))"
proof -
  obtain srv1 where srv1: "DatabaseServer_recover h (run_read_ok e) (DatabaseServer_new cfg ok fs l) = Inr srv1"
    "server_ok False h srv1" using recover_ok by blast
  let ?b = "add_log (\<lambda>l. log_info l ''TCP server bound, starting accept loop'')
      (foldl (upkeep_step h) (start_schedulers srv1) (run_early e))"
  obtain t bound where t: "open_listener e srv1 = (t, bound)" by (rule prod.exhaust)
  from assms srv1(1) t obtain rs1 where bound: "bound" and
    busy: "fold_res (server_step h) (run_busy e) (start_serving e ?b t) = Inr rs1" "\<not> tcp_running (tcp rs1)"
    by (auto simp: DatabaseServer_run_def Let_def split: if_splits)
  let ?rs1 = "rs1\<lparr>threads := ThreadPool_shutdown (threads rs1)\<rparr>"
  have ok: "run_ok h (socket_result (run_os e)) (start_serving e ?b t)"
    using run_ok_start[of e srv1 t h ?b] t bound early_ok[OF srv1(2)] by simp
  show thesis
  proof (rule that)
    show "run_ok h (socket_result (run_os e)) ?rs1" using server_steps_ok[OF busy(1) ok] by (rule run_ok_shutdown)
    show "draining ?rs1" using busy(2) by (simp add: draining_def ThreadPool_shutdown_def)
    show "length (workers (threads ?rs1)) = 4"
      using workers_kept_steps[OF server_steps_threads[OF busy(1)]]
      by (simp add: start_serving_def ThreadPool_new_def ThreadPool_shutdown_def)
    show "DatabaseServer_run h (e\<lparr>run_drain := evs\<rparr>) (DatabaseServer_new cfg ok fs l) =
        bind_res (fold_res (server_step h) evs ?rs1) (\<lambda>rs2.
          Inr (if \<not> all_exited (threads rs2) then Serving rs2 else Stopped (finish_run (run_snap_ok e) rs2)))" for evs
      using srv1(1) t bound busy
      by (auto simp: DatabaseServer_run_def open_listener_def start_serving_def Let_def intro!: bind_res_cong)
  qed
qed

section \<open>A worker left alone\<close>

lemma rounds_idle:
  assumes "workers (threads rs) ! i = Waiting"
  shows "fold_res (server_step h) (map (\<lambda>k. Round i (envs k)) ks) rs = Inr rs"
  using assms round_step_idle[of i rs h] by (induction ks) auto

lemma rounds_alone:
  assumes "i < length (workers (threads rs))" "workers (threads rs) ! i = Running j" "j < length (clients rs)"
    and "length (incoming (clients rs ! j)) < n"
  shows "fold_res (server_step h) (map (\<lambda>k. Round i (envs k)) [m..<m + n]) rs =
     bind_res (CommandHandler_handle_session (\<lambda>k. (envs k)\<lparr>env_hash := h\<rparr>) m (dispatcher (server rs)) (clients rs ! j))
       (\<lambda>(d, c). Inr (rs\<lparr>server := (server rs)\<lparr>dispatcher := d\<rparr>, clients := (clients rs)[j := c],
          threads := worker_finish i j (threads rs)\<rparr>))"
  using assms
proof (induction n arbitrary: m rs)
  case (Suc n)
  let ?c = "clients rs ! j" and ?env = "(envs m)\<lparr>env_hash := h\<rparr>"
  have up: "[m..<m + Suc n] = m # [Suc m..<Suc m + n]" by (simp add: upt_rec)
  note unf = handle_session_unfold[of "\<lambda>k. (envs k)\<lparr>env_hash := h\<rparr>" m "dispatcher (server rs)" ?c]
  show ?case
  proof (cases "session_round ?env (dispatcher (server rs)) ?c")
    case (Inl f)
    then show ?thesis using Suc.prems unf up by (simp add: round_step_def Let_def)
  next
    case (Inr r)
    obtain d c goes_on where r: "r = (d, c, goes_on)" by (cases r)
    let ?rs = "rs\<lparr>server := (server rs)\<lparr>dispatcher := d\<rparr>, clients := (clients rs)[j := c]\<rparr>"
    have step: "server_step h rs (Round i (envs m)) =
        Inr (?rs\<lparr>threads := (if goes_on then threads rs else worker_finish i j (threads rs))\<rparr>)"
      using Suc.prems Inr r by (simp add: round_step_def Let_def)
    show ?thesis
    proof (cases goes_on)
      case True
      have "length (incoming c) < n" using session_round_progress[OF Inr[unfolded r]] True Suc.prems(4) by simp
      then have ih: "fold_res (server_step h) (map (\<lambda>k. Round i (envs k)) [Suc m..<Suc m + n]) ?rs =
         bind_res (CommandHandler_handle_session (\<lambda>k. (envs k)\<lparr>env_hash := h\<rparr>) (Suc m) d c)
           (\<lambda>(d, c). Inr (rs\<lparr>server := (server rs)\<lparr>dispatcher := d\<rparr>, clients := (clients rs)[j := c],
              threads := worker_finish i j (threads rs)\<rparr>))"
        using Suc.IH[of ?rs "Suc m"] Suc.prems(1-3) by simp
      have "?rs\<lparr>threads := threads rs\<rparr> = ?rs" by simp
      then have "fold_res (server_step h) (map (\<lambda>k. Round i (envs k)) [m..<m + Suc n]) rs =
          fold_res (server_step h) (map (\<lambda>k. Round i (envs k)) [Suc m..<Suc m + n]) ?rs"
        unfolding up list.map fold_res.simps step using True by simp
      then show ?thesis unfolding ih unf Inr r using True by simp
    next
      case False
      have "fold_res (server_step h) (map (\<lambda>k. Round i (envs k)) ks) (?rs\<lparr>threads := worker_finish i j (threads rs)\<rparr>)
          = Inr (?rs\<lparr>threads := worker_finish i j (threads rs)\<rparr>)" for ks
        by (rule rounds_idle) (use Suc.prems(1) in \<open>simp add: worker_finish_def\<close>)
      then show ?thesis unfolding up list.map fold_res.simps step unf Inr r using False by simp
    qed
  qed
qed simp

section \<open>Properties\<close>





end
