(* ===== verification/Main_Program.thy ===== *)
theory Main_Program
  imports Server_Progress
begin

text \<open>
  The program \<open>voltdbx\<close> of src/main.cpp: configuration from the environment, then from the
  arguments, then a server. The result is what is written to standard output, the exit
  code (none while the server is running) and what \<open>run\<close> left behind.
\<close>

section \<open>Model\<close>

definition print_health :: string where
  "print_health = ''VoltDBX v0.1.0'' @ [newline] @ ''status: ok'' @ [newline]"

definition usage :: string where
  "usage = ''Usage: voltdbx [--host H] [--port P] [--data-dir D] [--health]'' @ [newline]"

record outcome =
  stdout_text :: string
  main_exit :: "int option"
  main_result :: "run_result option"

definition main_act ::
    "hash \<Rightarrow> run_env \<Rightarrow> bool \<Rightarrow> disk \<Rightarrow> logger \<Rightarrow> main_action \<Rightarrow> outcome res" where
  "main_act h e open_ok d l act =
     (case act of
        Print_health \<Rightarrow> Inr \<lparr>stdout_text = print_health, main_exit = Some 0, main_result = None\<rparr>
      | Print_usage \<Rightarrow> Inr \<lparr>stdout_text = usage, main_exit = Some 0, main_result = None\<rparr>
      | Run_server cfg \<Rightarrow>
          bind_res (DatabaseServer_run h e (DatabaseServer_new cfg open_ok d l)) (\<lambda>r.
            Inr \<lparr>stdout_text = [], main_exit = exit_code r, main_result = Some r\<rparr>))"

definition voltdbx_main ::
    "environment \<Rightarrow> string list \<Rightarrow> hash \<Rightarrow> run_env \<Rightarrow> bool \<Rightarrow> disk \<Rightarrow> logger \<Rightarrow> outcome res" where
  "voltdbx_main env args h e open_ok d l =
     bind_res (load_config_from_env env) (\<lambda>cfg.
     bind_res (main_args args cfg) (main_act h e open_ok d l))"

section \<open>Arguments as options\<close>

datatype option_arg =
    Opt_host string
  | Opt_port string
  | Opt_data_dir string
  | Opt_max_clients string

fun opt_words :: "option_arg \<Rightarrow> string list" where
  "opt_words (Opt_host v) = [''--host'', v]"
| "opt_words (Opt_port v) = [''--port'', v]"
| "opt_words (Opt_data_dir v) = [''--data-dir'', v]"
| "opt_words (Opt_max_clients v) = [''--max-clients'', v]"

fun apply_option :: "ServerConfig \<Rightarrow> option_arg \<Rightarrow> ServerConfig res" where
  "apply_option cfg (Opt_host v) = Inr (cfg\<lparr>host := v\<rparr>)"
| "apply_option cfg (Opt_port v) = set_port v cfg"
| "apply_option cfg (Opt_data_dir v) = Inr (cfg\<lparr>data_dir := v\<rparr>)"
| "apply_option cfg (Opt_max_clients v) = set_max_clients v cfg"

lemma main_args_option: "main_args (opt_words opt @ rest) cfg = bind_res (apply_option cfg opt) (main_args rest)"
  by (cases opt) simp_all

lemma main_args_options:
  "main_args (concat (map opt_words opts) @ rest) cfg = bind_res (fold_res apply_option opts cfg) (main_args rest)"
proof (induction opts arbitrary: cfg)
  case (Cons opt opts)
  then show ?case by (simp add: main_args_option bind_res_assoc cong: bind_res_cong)
qed simp

section \<open>Properties\<close>


end
