(* ===== verification/Benchmark.thy ===== *)
theory Benchmark
  imports Storage_Engine Double_Text
begin

text \<open>
  \<open>LatencyRunner\<close> of src/bench/latency_runner.cpp and the benchmark program of
  src/bench/main.cpp.

  Every \<open>double\<close> of the program is non-negative: it is a natural number of units \<open>2^-91\<close>,
  rounded to a 53-bit significand by \<open>round_bits\<close>. A quotient is computed with two bits to
  spare, the lowest of them sticky, as in \<open>float_quotient\<close>. Clock readings are nanoseconds;
  a steady clock never goes back, so a difference of two readings is not negative. The
  readings are \<open>clock 0\<close>, \<open>clock 1\<close>, ..., with three places for each iteration: its start, the
  reading inside \<open>get\<close> (made only for an entry with a deadline) and its end.
\<close>

section \<open>Double precision\<close>

definition double_unit :: nat where
  "double_unit = 2 ^ 91"

definition double_quotient :: "nat \<Rightarrow> nat \<Rightarrow> nat" where
  "double_quotient a b = round_bits 53 (let x = a * 2 ^ 90 in 2 * (x div b) + (if x mod b = 0 then 0 else 1))"

datatype rate = Finite nat | Infinite | Not_a_number

definition double_rate :: "nat \<Rightarrow> nat \<Rightarrow> rate" where
  "double_rate a b =
     (if b = 0 then (if a = 0 then Not_a_number else Infinite) else Finite (double_quotient a b))"

definition double_of_count :: "nat \<Rightarrow> nat" where
  "double_of_count n = round_bits 53 n"

text \<open>\<open>std::chrono::duration<double, std::milli>\<close> and \<open>std::chrono::duration<double>\<close> of a difference.\<close>

definition milliseconds :: "int \<Rightarrow> int \<Rightarrow> nat" where
  "milliseconds op_start op_end = double_quotient (double_of_count (nat (op_end - op_start))) 1000000"

definition seconds :: "int \<Rightarrow> int \<Rightarrow> nat" where
  "seconds start end_time = double_quotient (double_of_count (nat (end_time - start))) 1000000000"

section \<open>The runner\<close>

record BenchResult =
  requests_per_sec :: rate
  p50_ms :: nat
  p95_ms :: nat
  p99_ms :: nat
  operations :: "64 word"

definition percentile_index :: "nat \<Rightarrow> nat \<Rightarrow> nat" where
  "percentile_index n p = round_bits 53 (p * double_of_count (n - 1)) div double_unit"

definition percentile :: "nat list \<Rightarrow> nat \<Rightarrow> (nat list \<times> nat) res" where
  "percentile samples p =
     (if samples = [] then Inr (samples, 0)
      else let sorted_samples = sort samples; index = percentile_index (length samples) p in
           if index < length sorted_samples then Inr (sorted_samples, sorted_samples ! index)
           else Inl Out_of_bounds)"

definition set_get_step ::
    "hash \<Rightarrow> (nat \<Rightarrow> int) \<Rightarrow> StorageEngine \<times> nat list \<Rightarrow> nat \<Rightarrow> (StorageEngine \<times> nat list) res" where
  "set_get_step h clock st i =
     (let (s, latencies) = st; key = ''bench:key:'' @ show_nat i in
      bind_res (StorageEngine_set h s key ''payload'') (\<lambda>(s', _).
      let _ = StorageEngine_get h (clock (3 * i + 2)) s' key;
          ms = milliseconds (clock (3 * i + 1)) (clock (3 * i + 3))
      in Inr (s', latencies @ [ms])))"

definition LatencyRunner_run_set_get ::
    "hash \<Rightarrow> (nat \<Rightarrow> int) \<Rightarrow> StorageEngine \<Rightarrow> nat \<Rightarrow> (StorageEngine \<times> BenchResult) res" where
  "LatencyRunner_run_set_get h clock s iterations =
     bind_res (fold_res (set_get_step h clock) [0..<iterations] (s, [])) (\<lambda>(s', latencies).
       let elapsed = seconds (clock 0) (clock (3 * iterations + 1));
           ops = (of_nat iterations * 2 :: 64 word) in
       bind_res (percentile latencies (double_quotient 50 100)) (\<lambda>(l1, p50).
       bind_res (percentile l1 (double_quotient 95 100)) (\<lambda>(l2, p95).
       bind_res (percentile l2 (double_quotient 99 100)) (\<lambda>(l3, p99).
         Inr (s', \<lparr>requests_per_sec = double_rate (double_of_count (unat ops) * double_unit) elapsed,
                   p50_ms = p50, p95_ms = p95, p99_ms = p99, operations = ops\<rparr>)))))"

definition exists_key :: "nat \<Rightarrow> string" where
  "exists_key i = ''exists:'' @ show_nat i"

definition LatencyRunner_run_exists ::
    "hash \<Rightarrow> (nat \<Rightarrow> int) \<Rightarrow> StorageEngine \<Rightarrow> nat \<Rightarrow> (StorageEngine \<times> BenchResult) res" where
  "LatencyRunner_run_exists h clock s iterations =
     bind_res (fold_res (\<lambda>s i. bind_res (StorageEngine_set h s (exists_key i) ''1'') (\<lambda>(s', _). Inr s'))
                 [0..<iterations] s) (\<lambda>s'.
       let found = map (\<lambda>i. StorageEngine_exists h s' (exists_key i)) [0..<iterations];
           elapsed = seconds (clock 0) (clock 1) in
       Inr (s', \<lparr>requests_per_sec = double_rate (double_of_count iterations * double_unit) elapsed,
                 p50_ms = 0, p95_ms = 0, p99_ms = 0, operations = of_nat iterations\<rparr>))"

text \<open>
  The program: a new engine, the two runs with 5000 iterations, and what it prints. A rate
  is infinite when the clock has not moved; it is not a number only for no operation in no
  time, which the program never has.
\<close>

definition show_stat :: "nat \<Rightarrow> string" where
  "show_stat x = show_ratio x double_unit"

fun show_rate :: "rate \<Rightarrow> string" where
  "show_rate (Finite x) = show_stat x"
| "show_rate Infinite = ''inf''"
| "show_rate Not_a_number = ''nan''"

definition bench_output :: "BenchResult \<Rightarrow> BenchResult \<Rightarrow> string" where
  "bench_output set_get exist =
     ''set/get rps='' @ show_rate (requests_per_sec set_get) @ '' p50='' @ show_stat (p50_ms set_get)
     @ '' p95='' @ show_stat (p95_ms set_get) @ '' p99='' @ show_stat (p99_ms set_get) @ [newline]
     @ ''exists rps='' @ show_rate (requests_per_sec exist) @ [newline]"

definition bench_main :: "hash \<Rightarrow> (nat \<Rightarrow> int) \<Rightarrow> (nat \<Rightarrow> int) \<Rightarrow> (string \<times> int) res" where
  "bench_main h clock1 clock2 =
     bind_res (LatencyRunner_run_set_get h clock1 StorageEngine_new 5000) (\<lambda>(s1, set_get).
     bind_res (LatencyRunner_run_exists h clock2 s1 5000) (\<lambda>(_, exist).
       Inr (bench_output set_get exist, 0)))"

section \<open>Percentiles\<close>

lemma percentile_index_mono: "p \<le> q \<Longrightarrow> percentile_index n p \<le> percentile_index n q"
  unfolding percentile_index_def by (intro div_le_mono round_bits_mono mult_le_mono1) simp_all

text \<open>The truncated product stays below the number of samples as long as that is exact in double precision.\<close>

lemma percentile_index_less:
  assumes "0 < n" "n \<le> 2 ^ 53" "p \<le> double_unit"
  shows "percentile_index n p < n"
proof -
  have n: "double_of_count (n - 1) = n - 1" using assms(1,2) by (simp add: double_of_count_def round_bits_small)
  have "round_bits 53 (p * (n - 1)) \<le> round_bits 53 ((n - 1) * 2 ^ 91)"
    using assms(3) by (intro round_bits_mono) (simp_all add: double_unit_def mult.commute)
  also have "\<dots> = (n - 1) * 2 ^ 91"
    using round_bits_scaled[of 53 "n - 1" 91] round_bits_small[of "n - 1" 53] assms(1,2) by simp
  finally have "round_bits 53 (p * (n - 1)) div 2 ^ 91 \<le> n - 1" by (metis div_le_mono nonzero_mult_div_cancel_right power_not_zero zero_neq_numeral)
  then show ?thesis using assms(1) n by (simp add: percentile_index_def double_unit_def)
qed

lemma percentile_ok:
  assumes "length samples \<le> 2 ^ 53" "p \<le> double_unit"
  shows "percentile samples p =
     Inr (if samples = [] then ([], 0) else (sort samples, sort samples ! percentile_index (length samples) p))"
  using percentile_index_less[of "length samples" p] assms by (simp add: percentile_def Let_def)

lemma percentile_factors:
  "double_quotient 50 100 \<le> double_quotient 95 100" "double_quotient 95 100 \<le> double_quotient 99 100"
  "double_quotient 99 100 \<le> double_unit"
proof -
  show "double_quotient 50 100 \<le> double_quotient 95 100" "double_quotient 95 100 \<le> double_quotient 99 100"
    unfolding double_quotient_def Let_def by (intro round_bits_mono; simp)+
  have "double_quotient 99 100 \<le> round_bits 53 (1 * 2 ^ 91)"
    unfolding double_quotient_def Let_def by (intro round_bits_mono; simp)
  also have "\<dots> = double_unit"
    using round_bits_scaled[of 53 1 91] round_bits_small[of 1 53] by (simp add: double_unit_def)
  finally show "double_quotient 99 100 \<le> double_unit" .
qed

section \<open>The effect of the runs\<close>

definition bench_entries :: "nat \<Rightarrow> (string \<times> StorageEntry) list" where
  "bench_entries n = map (\<lambda>i. (''bench:key:'' @ show_nat i, fresh_entry ''payload'')) [0..<n]"

definition latency :: "(nat \<Rightarrow> int) \<Rightarrow> nat \<Rightarrow> nat" where
  "latency clock i = milliseconds (clock (3 * i + 1)) (clock (3 * i + 3))"

lemma set_get_steps:
  assumes "engine_ok h s"
  shows "\<exists>s'. fold_res (set_get_step h clock) [0..<n] (s, []) = Inr (s', map (latency clock) [0..<n])
     \<and> engine_ok h s' \<and> engine_view h s' = engine_view h s ++ map_of (rev (bench_entries n))"
proof (induction n)
  case 0
  then show ?case using assms by (simp add: bench_entries_def)
next
  case (Suc n)
  then obtain s' where s': "fold_res (set_get_step h clock) [0..<n] (s, []) = Inr (s', map (latency clock) [0..<n])"
    "engine_ok h s'" "engine_view h s' = engine_view h s ++ map_of (rev (bench_entries n))" by blast
  obtain s'' where s'': "StorageEngine_set h s' (''bench:key:'' @ show_nat n) ''payload'' = Inr (s'', True)" "engine_ok h s''"
    "engine_view h s'' = (engine_view h s')(''bench:key:'' @ show_nat n \<mapsto> fresh_entry ''payload'')"
    using set_correct[OF s'(2)] by blast
  have "set_get_step h clock (s', map (latency clock) [0..<n]) n = Inr (s'', map (latency clock) [0..<Suc n])"
    using s''(1) by (simp add: set_get_step_def latency_def)
  moreover have "engine_view h s'' = engine_view h s ++ map_of (rev (bench_entries (Suc n)))"
    unfolding s''(3) s'(3) by (simp add: bench_entries_def)
  ultimately show ?case using s'(1) s''(2) by (simp add: fold_res_append)
qed

lemma sorted_nth_percentile:
  assumes "p \<le> q" "q \<le> double_unit" "xs \<noteq> []" "length xs \<le> 2 ^ 53"
  shows "sort xs ! percentile_index (length xs) p \<le> sort xs ! percentile_index (length xs) q"
  using assms percentile_index_mono[of p q "length xs"] percentile_index_less[of "length xs" q]
  by (intro sorted_nth_mono) simp_all

lemma run_set_get_result:
  fixes clock :: "nat \<Rightarrow> int"
  assumes "engine_ok h s" "n \<le> 2 ^ 53"
  defines "at \<equiv> \<lambda>p. if n = 0 then 0 else sort (map (latency clock) [0..<n]) ! percentile_index n p"
  shows "\<exists>s' r. LatencyRunner_run_set_get h clock s n = Inr (s', r)
     \<and> engine_ok h s' \<and> engine_view h s' = engine_view h s ++ map_of (rev (bench_entries n))
     \<and> operations r = of_nat (2 * n)
     \<and> p50_ms r = at (double_quotient 50 100) \<and> p95_ms r = at (double_quotient 95 100) \<and> p99_ms r = at (double_quotient 99 100)"
proof -
  let ?l = "map (latency clock) [0..<n]"
  obtain s' where s': "fold_res (set_get_step h clock) [0..<n] (s, []) = Inr (s', ?l)" "engine_ok h s'"
    "engine_view h s' = engine_view h s ++ map_of (rev (bench_entries n))" using set_get_steps[OF assms(1)] by blast
  have pc: "percentile xs p = Inr (if xs = [] then ([], 0) else (sort xs, sort xs ! percentile_index n p))"
    if "length xs = n" "p \<le> double_unit" for xs p
    using percentile_ok[of xs p] that assms(2) by simp
  note le = percentile_factors order_trans[OF percentile_factors(2,3)]
    order_trans[OF percentile_factors(1) order_trans[OF percentile_factors(2,3)]]
  have "sort ?l = [] \<longleftrightarrow> n = 0" by (metis length_0_conv length_sort length_map length_upt diff_zero)
  then show ?thesis
    using s' pc[of ?l, OF _ le(5)] pc[of "sort ?l", OF _ le(4)] pc[of "sort ?l", OF _ le(3)]
    by (auto simp: LatencyRunner_run_set_get_def at_def Let_def sorted_sort_id)
qed

lemma run_exists_result:
  assumes "engine_ok h s"
  shows "\<exists>s' r. LatencyRunner_run_exists h clock s n = Inr (s', r) \<and> engine_ok h s'
     \<and> engine_view h s' = engine_view h s ++ map_of (rev (map (\<lambda>i. (exists_key i, fresh_entry ''1'')) [0..<n]))
     \<and> operations r = of_nat n"
proof -
  have "fold_res (\<lambda>s i. bind_res (StorageEngine_set h s (exists_key i) ''1'') (\<lambda>(s', _). Inr s')) xs s
      = fold_res (\<lambda>s (k, v). bind_res (StorageEngine_set h s k v) (\<lambda>(s', _). Inr s')) (map (\<lambda>i. (exists_key i, ''1'')) xs) s" for xs
    by (induction xs arbitrary: s) (simp_all add: fun_eq_iff cong: bind_res_cong)
  with eng.put_all[OF assms, of "map (\<lambda>i. (exists_key i, ''1'')) [0..<n]"] show ?thesis
    by (auto simp: LatencyRunner_run_exists_def Let_def comp_def)
qed

text \<open>The benchmark program always ends with exit code 0.\<close>

lemma bench_main_returns: "\<exists>out. bench_main h clock1 clock2 = Inr (out, 0)"
proof -
  obtain s1 r1 where r1: "LatencyRunner_run_set_get h clock1 StorageEngine_new 5000 = Inr (s1, r1)" "engine_ok h s1"
    using run_set_get_result[OF engine_ok_new, of 5000 h clock1] by auto
  obtain s2 r2 where "LatencyRunner_run_exists h clock2 s1 5000 = Inr (s2, r2)"
    using run_exists_result[OF r1(2)] by blast
  then show ?thesis using r1(1) by (simp add: bench_main_def)
qed

section \<open>Properties\<close>

text \<open>
  C37: the set/get benchmark of any number of iterations up to \<open>2^53\<close> never faults: the index of
  a percentile, computed in double precision and truncated, stays inside the sample; it
  leaves the engine well-formed with exactly its keys added, reports twice the number of
  iterations, and its percentiles are measured latencies in increasing order.
\<close>

theorem run_set_get_spec:
  assumes "engine_ok h s" "0 < n" "n \<le> 2 ^ 53"
  shows "\<exists>s' r. LatencyRunner_run_set_get h clock s n = Inr (s', r)
     \<and> engine_ok h s' \<and> engine_view h s' = engine_view h s ++ map_of (rev (bench_entries n))
     \<and> unat (operations r) = 2 * n
     \<and> p50_ms r \<le> p95_ms r \<and> p95_ms r \<le> p99_ms r
     \<and> {p50_ms r, p95_ms r, p99_ms r} \<subseteq> latency clock ` {0..<n}"
proof -
  let ?l = "map (latency clock) [0..<n]"
  obtain s' r where r: "LatencyRunner_run_set_get h clock s n = Inr (s', r)" "engine_ok h s'"
    "engine_view h s' = engine_view h s ++ map_of (rev (bench_entries n))" "operations r = of_nat (2 * n)"
    "p50_ms r = sort ?l ! percentile_index n (double_quotient 50 100)"
    "p95_ms r = sort ?l ! percentile_index n (double_quotient 95 100)"
    "p99_ms r = sort ?l ! percentile_index n (double_quotient 99 100)"
    using run_set_get_result[OF assms(1,3), of clock] assms(2) by auto
  have "(2 * n :: nat) < 2 ^ 64" using assms(3) by simp
  then have ops: "unat (operations r) = 2 * n" unfolding r(4) by (simp only: unat_of_nat) simp
  have len: "length ?l = n" "?l \<noteq> []" using assms(2) by simp_all
  note mono = sorted_nth_percentile[of _ _ ?l, unfolded len(1), OF _ _ len(2) assms(3)]
  have "sort ?l ! percentile_index n p \<in> latency clock ` {0..<n}" if "p \<le> double_unit" for p
    using percentile_index_less[OF assms(2,3) that] nth_mem[of "percentile_index n p" "sort ?l"] by simp
  then have "{p50_ms r, p95_ms r, p99_ms r} \<subseteq> latency clock ` {0..<n}"
    unfolding r(5-7) using percentile_factors by simp
  moreover have "p50_ms r \<le> p95_ms r" "p95_ms r \<le> p99_ms r"
    unfolding r(5-7) using mono percentile_factors by (meson order_trans)+
  ultimately show ?thesis using r(1-3) ops by blast
qed

theorem run_set_get_spec_witness:
  "\<exists>s' r. LatencyRunner_run_set_get (\<lambda>_. 0) (\<lambda>i. 1000 * int i) StorageEngine_new 5000 = Inr (s', r)
     \<and> unat (operations r) = 10000 \<and> p50_ms r \<le> p99_ms r"
  using run_set_get_spec[OF engine_ok_new, of 5000 "\<lambda>_. 0" "\<lambda>i. 1000 * int i"] by (auto intro: order_trans)

end
