(* ===== verification/Reply_Types.thy ===== *)
theory Reply_Types
  imports Dispatcher
begin

text \<open>
  The replies of the protocol as typed values. Every reply the dispatcher gives is the
  rendering of a value of the type its command promises, and no two values have the same
  rendering (\<open>render_inject\<close>), so a client can decode what it gets.
\<close>

section \<open>Values and their rendering\<close>

datatype reply =
    Status string
  | Failure string
  | Number int
  | Bulk string
  | Null_bulk
  | Bulks "string option list"
  | Scan_page string "string list"

fun render :: "reply \<Rightarrow> string" where
  "render (Status s) = CHR ''+'' # s"
| "render (Failure s) = ''-ERR '' @ s"
| "render (Number n) = integer_response n"
| "render (Bulk s) = bulk_string_response s"
| "render Null_bulk = null_bulk_response"
| "render (Bulks vs) = mget_reply vs"
| "render (Scan_page cursor keys) =
     ''*2'' @ crlf @ bulk_string_response cursor @ crlf
     @ ''*'' @ show_nat (length keys) @ crlf @ concat (map (\<lambda>k. bulk_string_response k @ crlf) keys)"

fun marker :: "reply \<Rightarrow> char" where
  "marker (Status s) = CHR ''+''"
| "marker (Failure s) = CHR ''-''"
| "marker (Number n) = CHR '':''"
| "marker (Bulk s) = CHR ''$''"
| "marker Null_bulk = CHR ''$''"
| "marker (Bulks vs) = CHR ''*''"
| "marker (Scan_page c ks) = CHR ''*''"

abbreviation status_commands :: "CommandType set" where
  "status_commands \<equiv> {Ping, CommandType.Info, Set, Mset, Auth, Config, Flushdb, Subscribe, Bgrewriteaof}"

abbreviation number_commands :: "CommandType set" where
  "number_commands \<equiv> {Delete, Exists, Publish, Expire, Incr, Decr, Incrby, Dbsize}"

text \<open>The type of a command's reply; any command but \<open>PING\<close>, \<open>INFO\<close>, \<open>FLUSHDB\<close> and \<open>DBSIZE\<close> may also fail.\<close>

fun reply_type :: "CommandType \<Rightarrow> reply \<Rightarrow> bool" where
  "reply_type ty (Status s) \<longleftrightarrow> ty \<in> status_commands"
| "reply_type ty (Failure s) \<longleftrightarrow> ty \<notin> {Ping, CommandType.Info, Flushdb, Dbsize}"
| "reply_type ty (Number n) \<longleftrightarrow> ty \<in> number_commands"
| "reply_type ty (Bulk s) \<longleftrightarrow> ty \<in> {Get, Config}"
| "reply_type ty Null_bulk \<longleftrightarrow> ty = Get"
| "reply_type ty (Bulks vs) \<longleftrightarrow> ty = Mget"
| "reply_type ty (Scan_page c ks) \<longleftrightarrow> ty = Scan"

definition typed_reply :: "CommandType \<Rightarrow> string \<Rightarrow> bool" where
  "typed_reply ty r \<longleftrightarrow> (\<exists>v. r = render v \<and> reply_type ty v)"

lemma render_marker: "\<exists>rest. render v = marker v # rest"
  by (cases v) (simp_all add: integer_response_def bulk_string_response_def null_bulk_response_def mget_reply_def)

section \<open>Rendering is injective\<close>

lemma show_nat_inject [simp]: "show_nat m = show_nat n \<longleftrightarrow> m = n"
  by (metis digits_val_show_nat)

lemma show_int_inject [simp]: "show_int i = show_int j \<longleftrightarrow> i = j"
proof -
  have "show_nat n \<noteq> CHR ''-'' # s" for n s using show_nat_hd[of n] by (auto simp: isdigit_def)
  then show ?thesis by (auto simp: show_int_def dest: sym)
qed

lemma show_nat_crlf_inject:
  assumes "show_nat m @ crlf @ x = show_nat n @ crlf @ y"
  shows "m = n \<and> x = y"
proof -
  have "show_nat m = show_nat n"
    using takeWhile_show_nat[of "crlf @ x" m] takeWhile_show_nat[of "crlf @ y" n] assms
    by (simp add: crlf_def carriage_return_def isdigit_def)
  with assms show ?thesis by simp
qed

lemma bulk_inject:
  assumes "bulk_string_response v @ x = bulk_string_response w @ y"
  shows "v = w \<and> x = y"
proof -
  have "show_nat (length v) @ crlf @ v @ x = show_nat (length w) @ crlf @ w @ y"
    using assms by (simp add: bulk_string_response_def)
  from show_nat_crlf_inject[OF this] show ?thesis by (metis append_eq_append_conv)
qed

lemma bulk_not_null: "bulk_string_response v @ x \<noteq> null_bulk_response @ y"
  using show_nat_hd[of "length v"] by (auto simp: bulk_string_response_def null_bulk_response_def isdigit_def)

abbreviation bulk_item :: "string option \<Rightarrow> string" where
  "bulk_item v \<equiv> (case v of None \<Rightarrow> null_bulk_response | Some x \<Rightarrow> bulk_string_response x)"

lemma bulk_item_inject:
  assumes "bulk_item v @ x = bulk_item w @ y"
  shows "v = w \<and> x = y"
proof (cases v)
  case None
  with assms show ?thesis using bulk_not_null[of _ y x] by (cases w) (auto dest: sym)
next
  case (Some s)
  show ?thesis
  proof (cases w)
    case None
    with assms Some show ?thesis using bulk_not_null[of s x y] by simp
  next
    case (Some t)
    with assms \<open>v = Some s\<close> bulk_inject[of s x t y] show ?thesis by simp
  qed
qed

lemma concat_inject:
  assumes "\<And>v w x y. f v @ x = f w @ y \<Longrightarrow> v = w \<and> x = y"
    and "length vs = length ws" "concat (map f vs) = concat (map f ws)"
  shows "vs = ws"
  using assms(2,3)
proof (induction vs ws rule: list_induct2)
  case (Cons v vs w ws)
  then show ?case using assms(1)[of v "concat (map f vs)" w "concat (map f ws)"] by simp
qed simp

lemma mget_reply_inject:
  assumes "mget_reply vs = mget_reply ws"
  shows "vs = ws"
proof (rule concat_inject[where f = "\<lambda>v. bulk_item v @ crlf"])
  show "v = w \<and> x = y" if "(bulk_item v @ crlf) @ x = (bulk_item w @ crlf) @ y" for v w x y
    using bulk_item_inject[of v "crlf @ x" w "crlf @ y"] that by simp
  have "show_nat (length vs) @ crlf @ concat (map (\<lambda>v. bulk_item v @ crlf) vs)
      = show_nat (length ws) @ crlf @ concat (map (\<lambda>v. bulk_item v @ crlf) ws)"
    using assms unfolding mget_reply_def by simp
  from show_nat_crlf_inject[OF this]
  show "length vs = length ws" "concat (map (\<lambda>v. bulk_item v @ crlf) vs) = concat (map (\<lambda>v. bulk_item v @ crlf) ws)"
    by blast+
qed

lemma scan_page_inject:
  assumes "render (Scan_page c ks) = render (Scan_page c' ks')"
  shows "c = c' \<and> ks = ks'"
proof -
  let ?keys = "\<lambda>ks. concat (map (\<lambda>k. bulk_string_response k @ crlf) ks)"
  have "bulk_string_response c @ crlf @ ''*'' @ show_nat (length ks) @ crlf @ ?keys ks
      = bulk_string_response c' @ crlf @ ''*'' @ show_nat (length ks') @ crlf @ ?keys ks'"
    using assms by simp
  from bulk_inject[OF this] have c: "c = c'" and n: "show_nat (length ks) @ crlf @ ?keys ks = show_nat (length ks') @ crlf @ ?keys ks'"
    by simp_all
  have "ks = ks'"
  proof (rule concat_inject[where f = "\<lambda>k. bulk_string_response k @ crlf"])
    show "v = w \<and> x = y" if "(bulk_string_response v @ crlf) @ x = (bulk_string_response w @ crlf) @ y" for v w x y
      using bulk_inject[of v "crlf @ x" w "crlf @ y"] that by simp
  qed (use show_nat_crlf_inject[OF n] in blast)+
  with c show ?thesis by blast
qed

lemma mget_not_scan: "mget_reply vs \<noteq> render (Scan_page c ks)"
proof
  assume "mget_reply vs = render (Scan_page c ks)"
  moreover have two: "show_nat 2 = ''2''" by code_simp
  ultimately have "show_nat (length vs) @ crlf @ concat (map (\<lambda>v. bulk_item v @ crlf) vs)
      = show_nat 2 @ crlf @ bulk_item (Some c) @ crlf @ CHR ''*'' # show_nat (length ks) @ crlf
        @ concat (map (\<lambda>k. bulk_string_response k @ crlf) ks)"
    by (simp add: mget_reply_def)
  from show_nat_crlf_inject[OF this] obtain a b where vs: "vs = [a, b]"
    and eq: "concat (map (\<lambda>v. bulk_item v @ crlf) vs) = bulk_item (Some c) @ crlf @ CHR ''*'' # show_nat (length ks) @ crlf
        @ concat (map (\<lambda>k. bulk_string_response k @ crlf) ks)"
    by (auto simp: numeral_2_eq_2 length_Suc_conv)
  have "bulk_item a @ crlf @ bulk_item b @ crlf = bulk_item (Some c) @ crlf @ CHR ''*'' # show_nat (length ks) @ crlf
        @ concat (map (\<lambda>k. bulk_string_response k @ crlf) ks)"
    using eq unfolding vs by simp
  from bulk_item_inject[OF this] show False
    by (auto simp: bulk_string_response_def null_bulk_response_def split: option.splits)
qed

lemma render_inject:
  assumes "render v = render w"
  shows "v = w"
proof -
  have m: "marker v = marker w" using render_marker[of v] render_marker[of w] assms by auto
  show ?thesis
  proof (cases v)
    case (Bulk s)
    with m assms show ?thesis
      using bulk_inject[of s "[]" _ "[]"] bulk_not_null[of s "[]" "[]"] by (cases w) simp_all
  next
    case Null_bulk
    with m assms show ?thesis using bulk_not_null[of _ "[]" "[]"] by (cases w) (simp_all, metis)
  next
    case (Bulks vs)
    with m assms show ?thesis
      using mget_reply_inject[of vs] mget_not_scan[of vs] by (cases w) (simp_all del: render.simps(7) add: render.simps(6))
  next
    case (Scan_page c ks)
    with m assms show ?thesis
      using mget_not_scan[of _ c ks] scan_page_inject[of c ks] by (cases w) (simp_all del: render.simps(7), metis)
  qed (use m assms in \<open>cases w; simp add: integer_response_def\<close>)+
qed

section \<open>Introduction rules\<close>

lemma typed_Status: "ty \<in> status_commands \<Longrightarrow> typed_reply ty (CHR ''+'' # s)"
  unfolding typed_reply_def by (rule exI[of _ "Status s"]) simp

lemma typed_Failure: "ty \<notin> {Ping, CommandType.Info, Flushdb, Dbsize} \<Longrightarrow> typed_reply ty (err_response s)"
  unfolding typed_reply_def by (rule exI[of _ "Failure s"]) (simp add: err_response_def)

lemma typed_Number: "ty \<in> number_commands \<Longrightarrow> typed_reply ty (integer_response n)"
  unfolding typed_reply_def by (rule exI[of _ "Number n"]) simp

lemma typed_Bulk: "ty \<in> {Get, Config} \<Longrightarrow> typed_reply ty (bulk_string_response s)"
  unfolding typed_reply_def by (rule exI[of _ "Bulk s"]) simp

lemma typed_Null: "typed_reply Get null_bulk_response"
  unfolding typed_reply_def by (rule exI[of _ Null_bulk]) simp

lemma typed_Bulks: "typed_reply Mget (mget_reply vs)"
  unfolding typed_reply_def by (rule exI[of _ "Bulks vs"]) simp

lemma typed_Scan: "typed_reply Scan (scan_reply page)"
  unfolding typed_reply_def
  by (rule exI[of _ "Scan_page (if page_finished page then ''0'' else encode_scan_cursor (page_next page)) (page_keys page)"])
    (simp add: scan_reply_def Let_def)

lemma typed_ok: "ty \<in> status_commands \<Longrightarrow> typed_reply ty (ok_response @ s)"
  unfolding ok_response_def using typed_Status[of ty "''OK'' @ s"] by simp

lemmas typed_ok0 = typed_ok[where s = "[]", simplified]

lemmas typed_intros = typed_Failure typed_Number typed_Bulk typed_Null typed_Bulks typed_Scan typed_ok typed_ok0

section \<open>Every handler is well typed\<close>

lemma dispatch_typed:
  assumes "CommandDispatcher_dispatch env d cmd = Inr (d', r)"
  shows "typed_reply (cmd_type cmd) r"
proof (cases "cmd_type cmd")
  case Unknown
  then have "r = err_response ''unknown command''" using assms by (simp add: CommandDispatcher_dispatch_def err_response_def)
  then show ?thesis using Unknown typed_Failure by simp
next
  case Info
  then have "\<exists>s. r = CHR ''+'' # s"
    using assms by (auto simp: CommandDispatcher_dispatch_def info_handler_def MetricsCollector_render_info_def Let_def)
  then show ?thesis using Info typed_Status by auto
next
  case Ping
  then have "r = CHR ''+'' # ''PONG''" using assms by (simp add: CommandDispatcher_dispatch_def)
  then show ?thesis using Ping typed_Status by simp
next
  case Bgrewriteaof
  then have "r = err_response ''aof rewrite failed'' \<or> (\<exists>s. r = CHR ''+'' # s)"
    using assms by (auto simp: CommandDispatcher_dispatch_def handle_bgrewriteaof_def Let_def split: prod.splits if_splits)
  then show ?thesis using Bgrewriteaof typed_Status typed_Failure by auto
qed (use assms typed_intros in \<open>auto simp: CommandDispatcher_dispatch_def get_handler_def delete_handler_def exists_handler_def
      subscribe_handler_def publish_handler_def expire_handler_def set_handler_def on_storage_def handle_mget_def handle_mset_def
      handle_incr_def handle_decr_def handle_incrby_def handle_scan_def handle_auth_def handle_config_def handle_flushdb_def
      handle_dbsize_def Let_def split: list.splits option.splits prod.splits if_splits\<close>)

section \<open>Properties\<close>

text \<open>
  C16: replies are typed and unambiguous: whatever the command and its arguments, the reply is
  the rendering of exactly one typed value, of a type the command promises (a number for
  \<open>INCR\<close>, a bulk string or null for \<open>GET\<close>, an array for \<open>MGET\<close>, and so on).
\<close>

theorem replies_are_typed:
  assumes "CommandDispatcher_dispatch env d cmd = Inr (d', r)"
  shows "\<exists>v. r = render v \<and> reply_type (cmd_type cmd) v \<and> hd r = marker v \<and> (\<forall>w. r = render w \<longrightarrow> w = v)"
proof -
  from dispatch_typed[OF assms] obtain v where v: "r = render v" "reply_type (cmd_type cmd) v"
    by (auto simp: typed_reply_def)
  moreover have "hd (render v) = marker v" using render_marker[of v] by auto
  ultimately show ?thesis using render_inject by blast
qed

theorem replies_are_typed_witness:
  "\<exists>d'. CommandDispatcher_dispatch quiet_env new_dispatcher \<lparr>cmd_type = Get, cmd_name = ''GET'', cmd_args = []\<rparr> = Inr (d', wrong_args ''GET'')
     \<and> (\<exists>v. wrong_args ''GET'' = render v \<and> reply_type Get v)"
proof -
  obtain d' where r: "CommandDispatcher_dispatch quiet_env new_dispatcher \<lparr>cmd_type = Get, cmd_name = ''GET'', cmd_args = []\<rparr>
      = Inr (d', wrong_args ''GET'')"
    by (simp add: CommandDispatcher_dispatch_def get_handler_def wrong_args_eqs)
  from replies_are_typed[OF r] r show ?thesis by auto
qed

end
