(* ===== verification/Scan_Client.thy ===== *)
theory Scan_Client
  imports Reply_Types
begin

text \<open>
  \<open>SCAN\<close> as a client uses it: start at cursor 0, send the cursor of each reply back until the
  reply carries cursor 0 again. The cursor travels as text, through \<open>encode_scan_cursor\<close> and
  \<open>decode_scan_cursor\<close>, and every request goes through the dispatcher.
\<close>

section \<open>The dialogue\<close>

definition scan_request :: "string \<Rightarrow> string list \<Rightarrow> ParsedCommand" where
  "scan_request token opts = \<lparr>cmd_type = Scan, cmd_name = ''SCAN'', cmd_args = token # opts\<rparr>"

inductive scan_session :: "string list \<Rightarrow> CommandDispatcher \<Rightarrow> string \<Rightarrow> string list \<Rightarrow> bool" for opts where
  last_page: "CommandDispatcher_dispatch env d (scan_request token opts) = Inr (d', render (Scan_page ''0'' keys)) \<Longrightarrow>
     scan_session opts d token keys"
| next_page: "CommandDispatcher_dispatch env d (scan_request token opts) = Inr (d', render (Scan_page token' keys)) \<Longrightarrow>
     token' \<noteq> ''0'' \<Longrightarrow> scan_session opts d' token' rest \<Longrightarrow> scan_session opts d token (keys @ rest)"

declare render.simps(7) [simp del]

inductive_simps scan_session_iff: "scan_session opts d token keys"

section \<open>One exchange\<close>

definition page_token :: "ScanPage \<Rightarrow> string" where
  "page_token page = (if page_finished page then ''0'' else encode_scan_cursor (page_next page))"

lemma scan_reply_render: "scan_reply page = render (Scan_page (page_token page) (page_keys page))"
  by (simp add: scan_reply_def page_token_def render.simps(7) Let_def)

lemma dispatch_scan:
  assumes "decode_scan_cursor token = Inr c" "scan_options opts 10 ''*'' = Inr (count, pattern)"
  shows "CommandDispatcher_dispatch env d (scan_request token opts) =
     Inr (d\<lparr>metrics := MetricsCollector_record_command (metrics d)\<rparr>,
          render (Scan_page (page_token (KeyScanner_scan (table (storage d)) c count pattern))
                            (page_keys (KeyScanner_scan (table (storage d)) c count pattern))))"
  using assms unfolding scan_reply_render[symmetric]
  by (simp add: CommandDispatcher_dispatch_def scan_request_def handle_scan_def StorageEngine_scan_keys_def)

lemma scan_session_step:
  assumes "decode_scan_cursor token = Inr c" "scan_options opts 10 ''*'' = Inr (count, pattern)"
  shows "scan_session opts d token keys \<longleftrightarrow>
     (let page = KeyScanner_scan (table (storage d)) c count pattern in
      if page_token page = ''0'' then keys = page_keys page
      else \<exists>rest. keys = page_keys page @ rest
             \<and> scan_session opts (d\<lparr>metrics := MetricsCollector_record_command (metrics d)\<rparr>) (page_token page) rest)"
proof -
  let ?page = "KeyScanner_scan (table (storage d)) c count pattern"
  note ds = dispatch_scan[OF assms, of _ d]
  have inj: "render (Scan_page a b) = render (Scan_page a' b') \<longleftrightarrow> a = a' \<and> b = b'" for a b a' b'
    using scan_page_inject by blast
  show ?thesis
    unfolding scan_session_iff[of opts d token] ds by (auto simp: inj Let_def intro: exI)
qed

section \<open>The whole dialogue\<close>

lemma chain_le_size:
  assumes "table_ok h t" "b < length (buckets t)"
  shows "length (buckets t ! b) \<le> table_size t"
proof -
  have "table_size t = length (concat (buckets t))"
    using assms(1) table_shapeD(2)[of h t] by (simp add: table_ok_def table_nodes_def)
  then show ?thesis using assms(2) member_le_sum_list[of "length (buckets t ! b)" "map length (buckets t)"]
    by (simp add: length_concat)
qed

lemma scan_dialogue:
  assumes "table_ok h t" "table_size t < 2 ^ 64" "length (buckets t) \<le> 2 ^ 64" "0 < count"
    and "scan_options opts 10 ''*'' = Inr (count, pattern)"
    and "decode_scan_cursor token = Inr c" "cursor_ok t c" "table (storage d) = t"
  shows "scan_session opts d token keys \<longleftrightarrow> keys = filter (\<lambda>k. KeyScanner_matches k pattern) (scan_rest t c)"
  using assms(6-8)
proof (induction "length (scan_rest t c)" arbitrary: c token d keys rule: less_induct)
  case less
  let ?page = "KeyScanner_scan t c count pattern"
  note step = scan_session_step[OF less.prems(1) assms(5), of d keys, unfolded less.prems(3)]
  from scan_correct(1)[OF assms(4), where t = t and c = c and pattern = pattern] obtain seen where
    seen: "scan_rest t c = seen @ scan_rest t (page_next ?page)"
      "page_keys ?page = filter (\<lambda>k. KeyScanner_matches k pattern) seen" by (auto simp: scanned_def)
  show ?case
  proof (cases "page_finished ?page")
    case True
    then have "scan_rest t (page_next ?page) = []"
      using scan_correct(3)[OF assms(4), where t = t and c = c and pattern = pattern] by (simp add: scan_rest_def)
    then show ?thesis using True seen step by (simp add: page_token_def Let_def)
  next
    case False
    note next_cursor = unfinished_cursor[OF assms(4) less.prems(2) False]
    let ?c = "page_next ?page"
    have tok: "page_token ?page = encode_scan_cursor ?c" using False by (simp add: page_token_def)
    have "cur_chain ?c < 2 ^ 64"
      using next_cursor(2) chain_le_size[OF assms(1) next_cursor(1)] assms(2) by linarith
    then have dec: "decode_scan_cursor (encode_scan_cursor ?c) = Inr ?c" "encode_scan_cursor ?c \<noteq> ''0''"
      using encode_decode_cursor[of ?c] next_cursor(1,3) assms(3) by (auto simp: decode_scan_cursor_def)
    from less.hyps[OF next_cursor(4) dec(1) next_cursor(5)] seen step dec(2) less.prems(3) show ?thesis
      by (simp add: tok Let_def)
  qed
qed

section \<open>Properties\<close>

text \<open>
  C14: a client that follows the cursors of \<open>SCAN\<close> replies, from 0 until 0 comes back, always
  gets to the end, and the keys it has been sent are exactly the stored keys that match its
  pattern, each once, whatever page size above zero it asks for.
\<close>

theorem scan_over_the_wire:
  assumes "dispatcher_ok h d" "scan_options opts 10 ''*'' = Inr (count, pattern)" "0 < count"
    and "StorageEngine_entry_count (storage d) < 2 ^ 64" "length (buckets (table (storage d))) \<le> 2 ^ 64"
  shows "\<exists>keys. (\<forall>sent. scan_session opts d ''0'' sent \<longleftrightarrow> sent = keys) \<and> distinct keys
     \<and> set keys = {k. stored h d k \<noteq> None \<and> KeyScanner_matches k pattern}"
proof -
  let ?t = "table (storage d)"
  let ?keys = "filter (\<lambda>k. KeyScanner_matches k pattern) (map fst (table_nodes ?t))"
  have ok: "table_ok h ?t" using assms(1) by (simp add: dispatcher_ok_def engine_ok_def)
  then have shape: "table_shape h ?t" by (simp add: table_ok_def)
  have size: "table_size ?t < 2 ^ 64" using assms(4) by (simp add: StorageEngine_entry_count_def)
  have "decode_scan_cursor ''0'' = Inr (ScanCursor 0 0)" "cursor_ok ?t (ScanCursor 0 0)"
    by (simp_all add: decode_scan_cursor_def cursor_ok_def)
  from scan_dialogue[OF ok size assms(5,3,2) this]
  have "scan_session opts d ''0'' sent \<longleftrightarrow> sent = ?keys" for sent by (simp add: scan_rest_start)
  moreover have "distinct ?keys" using distinct_keys[OF shape] by (rule distinct_filter)
  moreover have "set ?keys = {k. stored h d k \<noteq> None \<and> KeyScanner_matches k pattern}"
    unfolding engine_view_def find_eq_map_of[OF shape] by (auto simp: map_of_eq_None_iff)
  ultimately show ?thesis by blast
qed

theorem scan_over_the_wire_witness:
  "\<exists>d. stored (\<lambda>_. 0) d ''k'' = Some (fresh_entry ''v'') \<and> scan_session [''COUNT'', ''1''] d ''0'' [''k'']"
proof -
  let ?t = "\<lparr>buckets = [(''k'', fresh_entry ''v'')] # replicate 15 [], table_size = 1\<rparr>"
  let ?s = "StorageEngine_new\<lparr>table := ?t\<rparr>" and ?d = "new_dispatcher\<lparr>storage := StorageEngine_new\<lparr>table := ?t\<rparr>\<rparr>"
  have shape: "table_shape (\<lambda>_. 0) ?t" by (auto simp: table_shape_def HashTable_bucket_index_def nth_Cons split: nat.splits)
  then have "table_ok (\<lambda>_. 0) ?t" by (simp add: table_ok_def load_within_half)
  then have "engine_ok (\<lambda>_. 0) ?s" using engine_ok_new[of "\<lambda>_. 0"] by (simp add: engine_ok_def)
  then have ok: "dispatcher_ok (\<lambda>_. 0) ?d" using dispatcher_ok_new[of "\<lambda>_. 0"] by (simp add: dispatcher_ok_def)
  have view: "stored (\<lambda>_. 0) ?d = [''k'' \<mapsto> fresh_entry ''v'']"
    unfolding engine_view_def using find_eq_map_of[OF shape] by (simp add: table_nodes_def)
  have one: "stoull ''1'' = Inr 1" using stoull_show_nat[of 1] by (simp add: show_nat.simps[of "Suc 0"] digit_char_def char_of_def bit_Suc_0_iff)
  have opts: "scan_options [''COUNT'', ''1''] 10 ''*'' = Inr (1, ''*'')" by (simp add: one)
  have small: "length (buckets (table (storage ?d))) \<le> 2 ^ 64" by simp
  have count: "StorageEngine_entry_count (storage ?d) < 2 ^ 64" by (simp add: StorageEngine_entry_count_def)
  obtain keys where keys: "scan_session [''COUNT'', ''1''] ?d ''0'' keys" "distinct keys"
    "set keys = {k. stored (\<lambda>_. 0) ?d k \<noteq> None \<and> KeyScanner_matches k ''*''}"
    using scan_over_the_wire[OF ok opts zero_less_one count small] by blast
  have "KeyScanner_matches ''k'' ''*''" by code_simp
  then have "set keys = {''k''}" unfolding keys(3) view by (auto split: if_splits)
  with keys(2) have "keys = [''k'']" by (cases keys rule: remdups_adj.cases) auto
  then show ?thesis using keys(1) fun_cong[OF view, of "''k''"] by (metis fun_upd_same)
qed

end
