(* ===== verification/Node_Heap.thy ===== *)
theory Node_Heap
  imports Hash_Table
begin

text \<open>
  The hash table of src/storage/hash_table.cpp with its pointers: every \<open>Node\<close> is a cell of a
  memory, allocated by \<open>new\<close> and released by \<open>delete\<close>, and a chain is a linked list.

  A read, a write or a \<open>delete\<close> of an address that is not allocated is the fault \<open>Dangling\<close>, so
  a theorem that an operation returns also says that it uses no released node and releases
  none twice. \<open>new\<close> is the parameter \<open>alloc\<close>, which picks an address; all that is assumed of it
  is that the address is free. A \<open>while\<close> loop over a chain takes fuel and is \<open>Diverges\<close> when
  the fuel runs out; any fuel above the number of nodes plus one is enough.

  Theory Hash_Table has a list for each chain. \<open>table_at\<close> relates the two models, with the rest
  of the memory as a frame, and the operations here simulate those on lists
  (\<open>node_insert_sim\<close>, \<open>node_erase_sim\<close>, ...). The locale \<open>simulated_insert\<close> is what
  \<open>rehash_if_needed\<close> needs of the \<open>insert\<close> it calls.
\<close>

section \<open>Memory\<close>

type_synonym addr = nat

record cell =
  cell_key :: string
  cell_entry :: StorageEntry
  cell_next :: "addr option"

type_synonym memory = "addr \<rightharpoonup> cell"

record NodeTable =
  heads :: "addr option list"
  node_count :: nat

definition read_cell :: "memory \<Rightarrow> addr \<Rightarrow> cell res" where
  "read_cell mem a = (case mem a of None \<Rightarrow> Inl Dangling | Some c \<Rightarrow> Inr c)"

definition release_cell :: "memory \<Rightarrow> addr \<Rightarrow> memory res" where
  "release_cell mem a = (case mem a of None \<Rightarrow> Inl Dangling | Some _ \<Rightarrow> Inr (mem(a := None)))"

text \<open>What \<open>operator new\<close> promises: the address it returns is not in use.\<close>

definition fresh_alloc :: "(memory \<Rightarrow> addr) \<Rightarrow> bool" where
  "fresh_alloc alloc \<longleftrightarrow> (\<forall>mem. finite (dom mem) \<longrightarrow> mem (alloc mem) = None)"

section \<open>Operations\<close>

definition NodeTable_new :: "nat \<Rightarrow> NodeTable" where
  "NodeTable_new bucket_count = \<lparr>heads = replicate (if bucket_count < 16 then 16 else bucket_count) None, node_count = 0\<rparr>"

definition NodeTable_bucket_index :: "hash \<Rightarrow> NodeTable \<Rightarrow> string \<Rightarrow> nat" where
  "NodeTable_bucket_index h t key = unat (h key) mod length (heads t)"

primrec seek :: "nat \<Rightarrow> memory \<Rightarrow> addr option \<Rightarrow> string \<Rightarrow> addr option res" where
  "seek 0 mem current key = Inl Diverges"
| "seek (Suc n) mem current key =
     (case current of
        None \<Rightarrow> Inr None
      | Some a \<Rightarrow> bind_res (read_cell mem a) (\<lambda>c.
          if cell_key c = key then Inr (Some a) else seek n mem (cell_next c) key))"

primrec rehash_chain :: "(memory \<times> NodeTable \<Rightarrow> string \<Rightarrow> StorageEntry \<Rightarrow> ((memory \<times> NodeTable) \<times> bool) res)
    \<Rightarrow> nat \<Rightarrow> memory \<times> NodeTable \<Rightarrow> addr option \<Rightarrow> (memory \<times> NodeTable) res" where
  "rehash_chain ins 0 st head = Inl Diverges"
| "rehash_chain ins (Suc n) st head =
     (case head of
        None \<Rightarrow> Inr st
      | Some a \<Rightarrow>
          bind_res (read_cell (fst st) a) (\<lambda>c.
          bind_res (ins st (cell_key c) (cell_entry c)) (\<lambda>((mem1, t1), _).
          bind_res (release_cell mem1 a) (\<lambda>mem2. rehash_chain ins n (mem2, t1) (cell_next c)))))"

definition node_rehash_with :: "(memory \<times> NodeTable \<Rightarrow> string \<Rightarrow> StorageEntry \<Rightarrow> ((memory \<times> NodeTable) \<times> bool) res)
    \<Rightarrow> nat \<Rightarrow> memory \<times> NodeTable \<Rightarrow> (memory \<times> NodeTable) res" where
  "node_rehash_with ins fuel st =
     (let (mem, t) = st in
      if load_within (node_count t) (length (heads t)) then Inr st
      else fold_res (rehash_chain ins fuel) (heads t)
             (mem, \<lparr>heads = replicate (length (heads t) * 2) None, node_count = 0\<rparr>))"

primrec node_insert_depth :: "hash \<Rightarrow> (memory \<Rightarrow> addr) \<Rightarrow> nat \<Rightarrow> nat \<Rightarrow> memory \<times> NodeTable \<Rightarrow> string \<Rightarrow> StorageEntry
    \<Rightarrow> ((memory \<times> NodeTable) \<times> bool) res" where
  "node_insert_depth h alloc fuel 0 st key e = Inl Diverges"
| "node_insert_depth h alloc fuel (Suc d) st key e =
     (let (mem, t) = st; idx = NodeTable_bucket_index h t key in
      bind_res (seek fuel mem (heads t ! idx) key) (\<lambda>found.
      case found of
        Some a \<Rightarrow> bind_res (read_cell mem a) (\<lambda>c. Inr ((mem(a \<mapsto> c\<lparr>cell_entry := e\<rparr>), t), False))
      | None \<Rightarrow>
          let node = alloc mem;
              mem1 = mem(node \<mapsto> \<lparr>cell_key = key, cell_entry = e, cell_next = heads t ! idx\<rparr>);
              t1 = t\<lparr>heads := (heads t)[idx := Some node], node_count := node_count t + 1\<rparr>
          in bind_res (node_rehash_with (node_insert_depth h alloc fuel d) fuel (mem1, t1)) (\<lambda>st'. Inr (st', True))))"

definition NodeTable_insert :: "hash \<Rightarrow> (memory \<Rightarrow> addr) \<Rightarrow> nat \<Rightarrow> memory \<times> NodeTable \<Rightarrow> string \<Rightarrow> StorageEntry
    \<Rightarrow> ((memory \<times> NodeTable) \<times> bool) res" where
  "NodeTable_insert h alloc fuel = node_insert_depth h alloc fuel 2"

definition NodeTable_find :: "hash \<Rightarrow> nat \<Rightarrow> memory \<times> NodeTable \<Rightarrow> string \<Rightarrow> StorageEntry option res" where
  "NodeTable_find h fuel st key =
     (let (mem, t) = st in
      bind_res (seek fuel mem (heads t ! NodeTable_bucket_index h t key) key) (\<lambda>found.
      case found of
        None \<Rightarrow> Inr None
      | Some a \<Rightarrow> bind_res (read_cell mem a) (\<lambda>c. Inr (Some (cell_entry c)))))"

primrec seek_prev :: "nat \<Rightarrow> memory \<Rightarrow> addr option \<Rightarrow> addr option \<Rightarrow> string \<Rightarrow> (addr option \<times> addr) option res" where
  "seek_prev 0 mem prev current key = Inl Diverges"
| "seek_prev (Suc n) mem prev current key =
     (case current of
        None \<Rightarrow> Inr None
      | Some a \<Rightarrow> bind_res (read_cell mem a) (\<lambda>c.
          if cell_key c = key then Inr (Some (prev, a)) else seek_prev n mem (Some a) (cell_next c) key))"

definition unlink :: "nat \<Rightarrow> addr option \<Rightarrow> addr option \<Rightarrow> memory \<times> NodeTable \<Rightarrow> (memory \<times> NodeTable) res" where
  "unlink idx prev after st =
     (let (mem, t) = st in
      case prev of
        Some p \<Rightarrow> bind_res (read_cell mem p) (\<lambda>c. Inr (mem(p \<mapsto> c\<lparr>cell_next := after\<rparr>), t))
      | None \<Rightarrow> Inr (mem, t\<lparr>heads := (heads t)[idx := after]\<rparr>))"

definition NodeTable_erase :: "hash \<Rightarrow> nat \<Rightarrow> memory \<times> NodeTable \<Rightarrow> string \<Rightarrow> ((memory \<times> NodeTable) \<times> bool) res" where
  "NodeTable_erase h fuel st key =
     (let (mem, t) = st; idx = NodeTable_bucket_index h t key in
      bind_res (seek_prev fuel mem None (heads t ! idx) key) (\<lambda>found.
      case found of
        None \<Rightarrow> Inr (st, False)
      | Some (prev, current) \<Rightarrow>
          bind_res (read_cell mem current) (\<lambda>c.
          bind_res (unlink idx prev (cell_next c) st) (\<lambda>(mem1, t1).
          bind_res (release_cell mem1 current) (\<lambda>mem2.
            Inr ((mem2, t1\<lparr>node_count := node_count t1 - 1\<rparr>), True))))))"

primrec clear_chain :: "nat \<Rightarrow> memory \<Rightarrow> addr option \<Rightarrow> memory res" where
  "clear_chain 0 mem head = Inl Diverges"
| "clear_chain (Suc n) mem head =
     (case head of
        None \<Rightarrow> Inr mem
      | Some a \<Rightarrow> bind_res (read_cell mem a) (\<lambda>c. bind_res (release_cell mem a) (\<lambda>mem1. clear_chain n mem1 (cell_next c))))"

definition NodeTable_clear :: "nat \<Rightarrow> memory \<times> NodeTable \<Rightarrow> (memory \<times> NodeTable) res" where
  "NodeTable_clear fuel st =
     (let (mem, t) = st in
      bind_res (fold_res (clear_chain fuel) (heads t) mem) (\<lambda>mem'.
        Inr (mem', \<lparr>heads = map (\<lambda>_. None) (heads t), node_count = 0\<rparr>)))"

primrec walk_chain :: "('s \<Rightarrow> string \<Rightarrow> StorageEntry \<Rightarrow> 's) \<Rightarrow> memory \<Rightarrow> nat \<Rightarrow> 's \<Rightarrow> addr option \<Rightarrow> 's res" where
  "walk_chain fn mem 0 s current = Inl Diverges"
| "walk_chain fn mem (Suc n) s current =
     (case current of
        None \<Rightarrow> Inr s
      | Some a \<Rightarrow> bind_res (read_cell mem a) (\<lambda>c. walk_chain fn mem n (fn s (cell_key c) (cell_entry c)) (cell_next c)))"

definition NodeTable_for_each :: "('s \<Rightarrow> string \<Rightarrow> StorageEntry \<Rightarrow> 's) \<Rightarrow> nat \<Rightarrow> memory \<times> NodeTable \<Rightarrow> 's \<Rightarrow> 's res" where
  "NodeTable_for_each fn fuel st s = fold_res (walk_chain fn (fst st) fuel) (heads (snd st)) s"

primrec walk_indexed :: "('s \<Rightarrow> string \<Rightarrow> nat \<Rightarrow> 's) \<Rightarrow> memory \<Rightarrow> nat \<Rightarrow> nat \<Rightarrow> 's \<Rightarrow> addr option \<Rightarrow> 's res" where
  "walk_indexed fn mem 0 index s current = Inl Diverges"
| "walk_indexed fn mem (Suc n) index s current =
     (case current of
        None \<Rightarrow> Inr s
      | Some a \<Rightarrow> bind_res (read_cell mem a) (\<lambda>c. walk_indexed fn mem n (index + 1) (fn s (cell_key c) index) (cell_next c)))"

definition NodeTable_for_each_bucket ::
    "('s \<Rightarrow> string \<Rightarrow> nat \<Rightarrow> 's) \<Rightarrow> nat \<Rightarrow> memory \<times> NodeTable \<Rightarrow> nat \<Rightarrow> 's \<Rightarrow> 's res" where
  "NodeTable_for_each_bucket fn fuel st bucket_index s =
     (if bucket_index \<ge> length (heads (snd st)) then Inr s
      else walk_indexed fn (fst st) fuel 0 s (heads (snd st) ! bucket_index))"

section \<open>Lists in memory\<close>

fun list_at :: "memory \<Rightarrow> addr option \<Rightarrow> addr list \<Rightarrow> Node list \<Rightarrow> bool" where
  "list_at mem p [] [] \<longleftrightarrow> p = None"
| "list_at mem p (a # as) ((k, e) # ns) \<longleftrightarrow>
     p = Some a \<and> (\<exists>q. mem a = Some \<lparr>cell_key = k, cell_entry = e, cell_next = q\<rparr> \<and> list_at mem q as ns)"
| "list_at mem p _ _ \<longleftrightarrow> False"

lemma list_at_None [simp]: "list_at mem None as ns \<longleftrightarrow> as = [] \<and> ns = []"
  by (cases "(mem, None :: addr option, as, ns)" rule: list_at.cases) auto

lemma list_at_Nil [simp]: "list_at mem p as [] \<longleftrightarrow> p = None \<and> as = []"
  by (cases as) auto

lemma list_at_ConsE:
  assumes "list_at mem p as ((k, e) # ns)"
  obtains a as' q where "p = Some a" "as = a # as'"
    "mem a = Some \<lparr>cell_key = k, cell_entry = e, cell_next = q\<rparr>" "list_at mem q as' ns"
  using assms by (cases as) auto

lemma list_at_length: "list_at mem p as ns \<Longrightarrow> length as = length ns"
  by (induction mem p as ns rule: list_at.induct) auto

lemma list_at_cong: "(\<And>a. a \<in> set as \<Longrightarrow> mem' a = mem a) \<Longrightarrow> list_at mem' p as ns = list_at mem p as ns"
  by (induction mem p as ns rule: list_at.induct) auto

lemma list_at_upd [simp]: "u \<notin> set as \<Longrightarrow> list_at (mem(u := v)) p as ns = list_at mem p as ns"
  by (rule list_at_cong) auto

lemmas list_at_if [simp] = list_at_upd[unfolded fun_upd_def]

definition table_at :: "addr set \<Rightarrow> memory \<Rightarrow> addr list list \<Rightarrow> NodeTable \<Rightarrow> HashTable \<Rightarrow> bool" where
  "table_at F mem ass t tbl \<longleftrightarrow>
     length (heads t) = length (buckets tbl) \<and> length ass = length (buckets tbl) \<and> node_count t = table_size tbl
     \<and> (\<forall>i < length ass. list_at mem (heads t ! i) (ass ! i) (buckets tbl ! i))
     \<and> distinct (concat ass) \<and> finite F \<and> set (concat ass) \<inter> F = {} \<and> dom mem = set (concat ass) \<union> F"

lemma table_atD:
  assumes "table_at F mem ass t tbl"
  shows "length (heads t) = length (buckets tbl)" "length ass = length (buckets tbl)" "node_count t = table_size tbl"
    "\<And>i. i < length (buckets tbl) \<Longrightarrow> list_at mem (heads t ! i) (ass ! i) (buckets tbl ! i)"
    "distinct (concat ass)" "finite F" "set (concat ass) \<inter> F = {}" "dom mem = set (concat ass) \<union> F" "finite (dom mem)"
  using assms by (auto simp: table_at_def)

lemma nth_other_subset:
  assumes "j < length (xs @ old # ys)" "j \<noteq> length xs"
  shows "set ((xs @ old # ys) ! j) \<subseteq> set (concat xs) \<union> set (concat ys)"
proof -
  have "(xs @ old # ys) ! j \<in> set xs \<union> set ys"
    using assms by (cases "j < length xs") (auto simp: nth_append nth_Cons')
  then show ?thesis by auto
qed

text \<open>One bucket changes: the new chain may use the old cells of the bucket and fresh ones.\<close>

lemma table_at_bucket:
  assumes t: "table_at F mem ass t tbl" and i: "i < length (buckets tbl)"
    and new: "list_at mem' p as ns" "distinct as" "\<And>a. a \<in> set as \<Longrightarrow> a \<in> set (ass ! i) \<or> a \<notin> dom mem"
    and rest: "dom mem' = dom mem - set (ass ! i) \<union> set as" "\<And>a. a \<notin> set (ass ! i) \<union> set as \<Longrightarrow> mem' a = mem a"
  shows "table_at F mem' (ass[i := as]) (t\<lparr>heads := (heads t)[i := p], node_count := n\<rparr>)
     ((set_bucket i ns tbl)\<lparr>table_size := n\<rparr>)"
proof -
  note D = table_atD[OF t]
  define xs where "xs = take i ass"
  define ys where "ys = drop (Suc i) ass"
  define old where "old = ass ! i"
  have ass: "ass = xs @ old # ys" "length xs = i"
    using i D(2) id_take_nth_drop[of i ass] by (simp_all add: xs_def ys_def old_def)
  have dist: "distinct (concat xs @ old @ concat ys)" using D(5) ass(1) by simp
  have dom: "dom mem = set (concat xs) \<union> set old \<union> set (concat ys) \<union> F" using D(8) ass(1) by auto
  have outer: "set old \<inter> (set (concat xs) \<union> set (concat ys) \<union> F) = {}" using dist D(7) ass(1) by auto
  have "set as \<subseteq> set old \<union> - dom mem" using new(3) by (auto simp: old_def)
  then have sep: "set as \<inter> (set (concat xs) \<union> set (concat ys) \<union> F) = {}" using outer dom by blast
  have upd: "ass[i := as] = xs @ as # ys" using ass by (simp add: list_update_append)
  then have all: "set (concat (ass[i := as])) = set (concat xs) \<union> set as \<union> set (concat ys)" by auto
  have d: "distinct (concat (ass[i := as]))" using dist sep new(2) by (auto simp: upd)
  have "(set (concat xs) \<union> set (concat ys)) \<inter> F = {}" using D(7) ass(1) by auto
  with sep have sF: "set (concat (ass[i := as])) \<inter> F = {}" unfolding all by blast
  have "dom mem - set old = set (concat xs) \<union> set (concat ys) \<union> F" unfolding dom using outer by blast
  then have dm: "dom mem' = set (concat (ass[i := as])) \<union> F"
    unfolding all rest(1) old_def[symmetric] by (simp only: Un_ac)
  have "list_at mem' ((heads t)[i := p] ! j) (ass[i := as] ! j) ((buckets tbl)[i := ns] ! j)"
    if j: "j < length ass" for j
  proof (cases "j = i")
    case True
    then show ?thesis using new(1) i D(1,2) by simp
  next
    case False
    have sub: "set (ass ! j) \<subseteq> set (concat xs) \<union> set (concat ys)"
      using nth_other_subset[of j xs old ys] j False ass by simp
    have "mem' a = mem a" if "a \<in> set (ass ! j)" for a
      using that sub sep outer by (intro rest(2)) (auto simp del: set_concat simp: old_def[symmetric])
    from list_at_cong[OF this, of "ass ! j"] show ?thesis using D(2,4) j False by simp
  qed
  then show ?thesis using D d dm sF i by (simp add: table_at_def)
qed

section \<open>Walks along a chain\<close>

lemma read_cell_Some [simp]: "mem a = Some c \<Longrightarrow> read_cell mem a = Inr c"
  by (simp add: read_cell_def)

lemma release_Some [simp]: "mem a = Some c \<Longrightarrow> release_cell mem a = Inr (mem(a := None))"
  by (simp add: release_cell_def)

lemma seek_absent: "list_at mem p as ns \<Longrightarrow> length ns < fuel \<Longrightarrow> key \<notin> fst ` set ns \<Longrightarrow> seek fuel mem p key = Inr None"
proof (induction ns arbitrary: p as fuel)
  case (Cons n ns)
  then show ?case by (cases n; cases fuel) (auto elim!: list_at_ConsE)
qed (auto simp: gr0_conv_Suc)

lemma seek_assign:
  assumes "list_at mem p as ns" "distinct as" "length ns < fuel" "chain_assign key e ns = Some ns'"
  shows "\<exists>a c. seek fuel mem p key = Inr (Some a) \<and> a \<in> set as \<and> mem a = Some c
     \<and> list_at (mem(a \<mapsto> c\<lparr>cell_entry := e\<rparr>)) p as ns'"
  using assms
proof (induction ns arbitrary: p as fuel ns')
  case (Cons n ns)
  obtain k e0 where n: "n = (k, e0)" by (cases n)
  from Cons.prems(1) obtain b as' q where b: "p = Some b" "as = b # as'"
    "mem b = Some \<lparr>cell_key = k, cell_entry = e0, cell_next = q\<rparr>" "list_at mem q as' ns"
    unfolding n by (rule list_at_ConsE)
  obtain f where f: "fuel = Suc f" "length ns < f" using Cons.prems(3) by (cases fuel) auto
  show ?case
  proof (cases "k = key")
    case True
    then show ?thesis using b f Cons.prems(2,4) n by auto
  next
    case False
    then obtain ns1 where ns1: "chain_assign key e ns = Some ns1" "ns' = (k, e0) # ns1" using Cons.prems(4) n by auto
    have d: "distinct as'" "b \<notin> set as'" using Cons.prems(2) b(2) by auto
    from Cons.IH[OF b(4) d(1) f(2) ns1(1)] obtain a c where
      "seek f mem q key = Inr (Some a)" "a \<in> set as'" "mem a = Some c"
      "list_at (mem(a \<mapsto> c\<lparr>cell_entry := e\<rparr>)) q as' ns1" by blast
    then show ?thesis using b f False ns1 d by (intro exI[of _ a] exI[of _ c]) (auto simp: fun_upd_def)
  qed
qed simp

lemma seek_find:
  "list_at mem p as ns \<Longrightarrow> length ns < fuel \<Longrightarrow>
   bind_res (seek fuel mem p key) (\<lambda>found. case found of None \<Rightarrow> Inr None
      | Some a \<Rightarrow> bind_res (read_cell mem a) (\<lambda>c. Inr (Some (cell_entry c)))) = Inr (chain_find key ns)"
proof (induction ns arbitrary: p as fuel)
  case (Cons n ns)
  then show ?case by (cases n; cases fuel) (auto elim!: list_at_ConsE)
qed (auto simp: gr0_conv_Suc)

lemma seek_prev_absent:
  "list_at mem p as ns \<Longrightarrow> length ns < fuel \<Longrightarrow> chain_erase key ns = None \<Longrightarrow> seek_prev fuel mem prev p key = Inr None"
proof (induction ns arbitrary: p as fuel prev)
  case (Cons n ns)
  then show ?case by (cases n; cases fuel) (auto elim!: list_at_ConsE split: if_splits)
qed (auto simp: gr0_conv_Suc)

text \<open>The node with the key is either the first, or is reached from another node of the chain.\<close>

lemma seek_prev_erase:
  assumes "list_at mem p as ns" "distinct as" "length ns < fuel" "chain_erase key ns = Some ns'"
  shows "\<exists>as1 a as2 prv c. as = as1 @ a # as2 \<and> seek_prev fuel mem prev p key = Inr (Some (prv, a)) \<and> mem a = Some c
     \<and> (if as1 = [] then prv = prev \<and> p = Some a \<and> list_at mem (cell_next c) as2 ns'
        else \<exists>b cb. prv = Some b \<and> b \<in> set as1 \<and> mem b = Some cb
               \<and> list_at (mem(b \<mapsto> cb\<lparr>cell_next := cell_next c\<rparr>)) p (as1 @ as2) ns')"
  using assms
proof (induction ns arbitrary: p as fuel ns' prev)
  case (Cons n ns)
  obtain k e0 where n: "n = (k, e0)" by (cases n)
  from Cons.prems(1) obtain a0 as' q where b: "p = Some a0" "as = a0 # as'"
    "mem a0 = Some \<lparr>cell_key = k, cell_entry = e0, cell_next = q\<rparr>" "list_at mem q as' ns"
    unfolding n by (rule list_at_ConsE)
  obtain f where f: "fuel = Suc f" "length ns < f" using Cons.prems(3) by (cases fuel) auto
  show ?case
  proof (cases "k = key")
    case True
    then show ?thesis using b f Cons.prems(4) n by (intro exI[of _ "[]"]) auto
  next
    case False
    then obtain ns1 where ns1: "chain_erase key ns = Some ns1" "ns' = (k, e0) # ns1" using Cons.prems(4) n by auto
    have d: "distinct as'" "a0 \<notin> set as'" using Cons.prems(2) b(2) by auto
    from Cons.IH[OF b(4) d(1) f(2) ns1(1), of "Some a0"] obtain as1 a as2 prv c where IH:
      "as' = as1 @ a # as2" "seek_prev f mem (Some a0) q key = Inr (Some (prv, a))" "mem a = Some c"
      "if as1 = [] then prv = Some a0 \<and> q = Some a \<and> list_at mem (cell_next c) as2 ns1
        else \<exists>b cb. prv = Some b \<and> b \<in> set as1 \<and> mem b = Some cb
               \<and> list_at (mem(b \<mapsto> cb\<lparr>cell_next := cell_next c\<rparr>)) q (as1 @ as2) ns1" by blast
    have "\<exists>b cb. prv = Some b \<and> b \<in> set (a0 # as1) \<and> mem b = Some cb
             \<and> list_at (mem(b \<mapsto> cb\<lparr>cell_next := cell_next c\<rparr>)) p ((a0 # as1) @ as2) ns'"
    proof (cases "as1 = []")
      case True
      then show ?thesis using IH b d ns1(2) by auto
    next
      case False
      then obtain b1 cb where "prv = Some b1" "b1 \<in> set as1" "mem b1 = Some cb"
        "list_at (mem(b1 \<mapsto> cb\<lparr>cell_next := cell_next c\<rparr>)) q (as1 @ as2) ns1" using IH(4) by auto
      then show ?thesis using IH(1) b d ns1(2) by (intro exI[of _ b1] exI[of _ cb]) auto
    qed
    then show ?thesis using IH(1-3) b f False by (intro exI[of _ "a0 # as1"] exI[of _ a] exI[of _ as2] exI[of _ prv] exI[of _ c]) auto
  qed
qed simp

lemma walk_chain_list:
  "list_at mem p as ns \<Longrightarrow> length ns < fuel \<Longrightarrow> walk_chain fn mem fuel s p = Inr (foldl (\<lambda>s (k, e). fn s k e) s ns)"
proof (induction ns arbitrary: p as fuel s)
  case (Cons n ns)
  then show ?case by (cases n; cases fuel) (auto elim!: list_at_ConsE)
qed (auto simp: gr0_conv_Suc)

lemma walk_indexed_list:
  "list_at mem p as ns \<Longrightarrow> length ns < fuel \<Longrightarrow> walk_indexed fn mem fuel index s p = Inr (chain_walk fn index ns s)"
proof (induction ns arbitrary: p as fuel s index)
  case (Cons n ns)
  then show ?case by (cases n; cases fuel) (auto elim!: list_at_ConsE)
qed (auto simp: gr0_conv_Suc)

lemma clear_chain_list:
  "list_at mem p as ns \<Longrightarrow> distinct as \<Longrightarrow> length ns < fuel \<Longrightarrow> clear_chain fuel mem p = Inr (mem |` (- set as))"
proof (induction ns arbitrary: p as fuel mem)
  case (Cons n ns)
  obtain k e where n: "n = (k, e)" by (cases n)
  from Cons.prems(1) obtain a as' q where a: "p = Some a" "as = a # as'"
    "mem a = Some \<lparr>cell_key = k, cell_entry = e, cell_next = q\<rparr>" "list_at mem q as' ns"
    unfolding n by (rule list_at_ConsE)
  obtain f where f: "fuel = Suc f" "length ns < f" using Cons.prems(3) by (cases fuel) auto
  from a Cons.prems(2) have "list_at (mem(a := None)) q as' ns" "distinct as'" by auto
  from Cons.IH[OF this f(2)] a f show ?case by (simp add: restrict_upd_None[unfolded fun_upd_def] fun_upd_def)
qed (auto simp: gr0_conv_Suc restrict_map_def)

section \<open>Rehashing\<close>

lemma table_at_release:
  assumes "table_at F mem ass t tbl" "a \<in> F"
  shows "table_at (F - {a}) (mem(a := None)) ass t tbl"
proof -
  note D = table_atD[OF assms(1)]
  have out: "a \<notin> set (concat ass)" using D(7) assms(2) by blast
  have "list_at (mem(a := None)) (heads t ! i) (ass ! i) (buckets tbl ! i)" if "i < length ass" for i
    using out D(2,4) that by (subst list_at_upd) auto
  moreover have "dom (mem(a := None)) = set (concat ass) \<union> (F - {a})" using D(8) out by auto
  ultimately show ?thesis using D unfolding table_at_def by blast
qed

lemma chain_le_nodes: "b \<in> set (buckets tbl) \<Longrightarrow> length b \<le> length (table_nodes tbl)"
  by (simp add: table_nodes_def length_concat member_le_sum_list)

abbreviation insert_all :: "(HashTable \<Rightarrow> string \<Rightarrow> StorageEntry \<Rightarrow> (HashTable \<times> bool) res) \<Rightarrow> Node list \<Rightarrow> HashTable \<Rightarrow> HashTable res" where
  "insert_all ins \<equiv> fold_res (\<lambda>t (k, e). bind_res (ins t k e) (\<lambda>(t', _). Inr t'))"

locale simulated_insert =
  fixes fuel :: nat
    and ins :: "HashTable \<Rightarrow> string \<Rightarrow> StorageEntry \<Rightarrow> (HashTable \<times> bool) res"
    and node_ins :: "memory \<times> NodeTable \<Rightarrow> string \<Rightarrow> StorageEntry \<Rightarrow> ((memory \<times> NodeTable) \<times> bool) res"
  assumes ins_grows: "ins tbl k e = Inr (tbl', b) \<Longrightarrow> buckets tbl \<noteq> [] \<Longrightarrow>
      buckets tbl' \<noteq> [] \<and> length (table_nodes tbl') \<le> Suc (length (table_nodes tbl))"
    and ins_sim: "ins tbl k e = Inr (tbl', b) \<Longrightarrow> buckets tbl \<noteq> [] \<Longrightarrow> Suc (length (table_nodes tbl)) < fuel \<Longrightarrow>
      table_at F mem ass t tbl \<Longrightarrow>
      \<exists>mem' ass' t'. node_ins (mem, t) k e = Inr ((mem', t'), b) \<and> table_at F mem' ass' t' tbl' \<and> (\<forall>a \<in> F. mem' a = mem a)"
begin

lemma insert_all_grows:
  "insert_all ins ns tbl = Inr tbl' \<Longrightarrow> buckets tbl \<noteq> [] \<Longrightarrow>
   buckets tbl' \<noteq> [] \<and> length (table_nodes tbl') \<le> length (table_nodes tbl) + length ns"
proof (induction ns arbitrary: tbl)
  case (Cons n ns)
  obtain k e where n: "n = (k, e)" by (cases n)
  from Cons.prems(1) obtain tbl1 b where t1: "ins tbl k e = Inr (tbl1, b)" "insert_all ins ns tbl1 = Inr tbl'"
    by (auto simp: n)
  from ins_grows[OF t1(1) Cons.prems(2)] Cons.IH[OF t1(2)] show ?case by auto
qed simp

lemma chain_sim:
  assumes "list_at mem p as ns" "distinct as" "set as \<subseteq> F" "table_at F mem ass t tbl" "buckets tbl \<noteq> []"
    and "insert_all ins ns tbl = Inr tbl'" "length ns < n" "length (table_nodes tbl) + length ns < fuel"
  shows "\<exists>mem' ass' t'. rehash_chain node_ins n (mem, t) p = Inr (mem', t') \<and> table_at (F - set as) mem' ass' t' tbl'
     \<and> (\<forall>a \<in> F - set as. mem' a = mem a)"
  using assms
proof (induction ns arbitrary: mem p as F ass t tbl n)
  case Nil
  then show ?case by (cases n) auto
next
  case (Cons node ns)
  obtain k e where node: "node = (k, e)" by (cases node)
  from Cons.prems(1) obtain a as' q where a: "p = Some a" "as = a # as'"
    "mem a = Some \<lparr>cell_key = k, cell_entry = e, cell_next = q\<rparr>" "list_at mem q as' ns"
    unfolding node by (rule list_at_ConsE)
  obtain m where m: "n = Suc m" "length ns < m" using Cons.prems(7) by (cases n) auto
  from Cons.prems(6) obtain tbl1 b where t1: "ins tbl k e = Inr (tbl1, b)" "insert_all ins ns tbl1 = Inr tbl'"
    by (auto simp: node)
  note grows = ins_grows[OF t1(1) Cons.prems(5)]
  have fuel: "Suc (length (table_nodes tbl)) < fuel" using Cons.prems(8) by simp
  from ins_sim[OF t1(1) Cons.prems(5) fuel Cons.prems(4)] obtain mem1 ass1 t'
    where s1: "node_ins (mem, t) k e = Inr ((mem1, t'), b)" "table_at F mem1 ass1 t' tbl1" "\<forall>a \<in> F. mem1 a = mem a"
    by blast
  have F: "a \<in> F" "set as' \<subseteq> F - {a}" "distinct as'" "a \<notin> set as'" using Cons.prems(2,3) a(2) by auto
  have "list_at (mem1(a := None)) q as' ns" using a(4) F s1(3) by (subst list_at_cong[where mem = mem]) auto
  moreover have "buckets tbl1 \<noteq> []" "length (table_nodes tbl1) + length ns < fuel" using grows Cons.prems(8) by auto
  ultimately
  obtain mem2 ass2 t2 where s2: "rehash_chain node_ins m (mem1(a := None), t') q = Inr (mem2, t2)"
    "table_at (F - {a} - set as') mem2 ass2 t2 tbl'" "\<forall>x \<in> F - {a} - set as'. mem2 x = (mem1(a := None)) x"
    using Cons.IH[OF _ F(3,2) table_at_release[OF s1(2) F(1)] _ t1(2) m(2)] by blast
  have "F - {a} - set as' = F - set as" using a(2) by auto
  then show ?case using s1 s2 a m F(1) by (auto simp del: fun_upd_apply) (auto split: if_splits)
qed

lemma chains_sim:
  assumes "length hs = length bs" "length ls = length bs" "\<forall>i < length bs. list_at mem (hs ! i) (ls ! i) (bs ! i)"
    and "distinct (concat ls)" "set (concat ls) \<subseteq> F" "table_at F mem ass t tbl" "buckets tbl \<noteq> []"
    and "insert_all ins (concat bs) tbl = Inr tbl'" "\<forall>b \<in> set bs. length b < n"
    and "length (table_nodes tbl) + length (concat bs) < fuel"
  shows "\<exists>mem' ass' t'. fold_res (rehash_chain node_ins n) hs (mem, t) = Inr (mem', t')
     \<and> table_at (F - set (concat ls)) mem' ass' t' tbl' \<and> (\<forall>a \<in> F - set (concat ls). mem' a = mem a)"
  using assms
proof (induction bs arbitrary: hs ls mem F ass t tbl)
  case Nil
  then show ?case by auto
next
  case (Cons b bs)
  from Cons.prems(1,2) obtain p hs' as ls' where l: "hs = p # hs'" "ls = as # ls'" by (metis length_Suc_conv)
  from Cons.prems(3) have at: "list_at mem p as b" "\<forall>i < length bs. list_at mem (hs' ! i) (ls' ! i) (bs ! i)"
    by (auto simp: l All_less_Suc2)
  have d: "distinct as" "set as \<subseteq> F" "distinct (concat ls')" "set (concat ls') \<subseteq> F - set as" using Cons.prems(4,5) l by auto
  from Cons.prems(8) obtain tbl1 where t1: "insert_all ins b tbl = Inr tbl1" "insert_all ins (concat bs) tbl1 = Inr tbl'"
    by (auto simp: fold_res_append)
  note grows = insert_all_grows[OF t1(1) Cons.prems(7)]
  have len: "length b < n" "length (table_nodes tbl) + length b < fuel" using Cons.prems(9,10) by auto
  from chain_sim[OF at(1) d(1,2) Cons.prems(6,7) t1(1) len] obtain mem1 ass1 t'
    where s1: "rehash_chain node_ins n (mem, t) p = Inr (mem1, t')" "table_at (F - set as) mem1 ass1 t' tbl1"
      "\<forall>a \<in> F - set as. mem1 a = mem a" by blast
  have "list_at mem1 (hs' ! i) (ls' ! i) (bs ! i)" if i: "i < length bs" for i
  proof -
    have "ls' ! i \<in> set ls'" using i Cons.prems(2) l by simp
    then have "set (ls' ! i) \<subseteq> F - set as" using d(4) by auto
    then show ?thesis using at(2) i s1(3) by (subst list_at_cong[where mem = mem]) auto
  qed
  then have at1: "\<forall>i < length bs. list_at mem1 (hs' ! i) (ls' ! i) (bs ! i)" by blast
  have len': "length hs' = length bs" "length ls' = length bs" "\<forall>b \<in> set bs. length b < n"
    "length (table_nodes tbl1) + length (concat bs) < fuel" using Cons.prems(1,2,9,10) l grows by auto
  from Cons.IH[OF len'(1,2) at1 d(3,4) s1(2) _ t1(2) len'(3,4)] grows obtain mem2 ass2 t2
    where s2: "fold_res (rehash_chain node_ins n) hs' (mem1, t') = Inr (mem2, t2)"
      "table_at (F - set as - set (concat ls')) mem2 ass2 t2 tbl'"
      "\<forall>a \<in> F - set as - set (concat ls'). mem2 a = mem1 a" by blast
  have "F - set as - set (concat ls') = F - set (concat ls)" using l by auto
  then show ?case using s1 s2 l by (auto simp del: set_concat)
qed

lemma rehash_grows:
  "rehash_with ins tbl = Inr tbl' \<Longrightarrow> buckets tbl \<noteq> [] \<Longrightarrow> buckets tbl' \<noteq> [] \<and> length (table_nodes tbl') \<le> length (table_nodes tbl)"
  using insert_all_grows[of "concat (buckets tbl)" "\<lparr>buckets = replicate (length (buckets tbl) * 2) [], table_size = 0\<rparr>" tbl']
  by (auto simp: rehash_with_def table_nodes_def split: if_splits)

lemma rehash_sim:
  assumes "rehash_with ins tbl = Inr tbl'" "buckets tbl \<noteq> []" "length (table_nodes tbl) < fuel" "table_at F mem ass t tbl"
  shows "\<exists>mem' ass' t'. node_rehash_with node_ins fuel (mem, t) = Inr (mem', t') \<and> table_at F mem' ass' t' tbl'
     \<and> (\<forall>a \<in> F. mem' a = mem a)"
proof (cases "load_within (table_size tbl) (length (buckets tbl))")
  case True
  then show ?thesis using assms by (auto simp: rehash_with_def node_rehash_with_def table_atD)
next
  case False
  note D = table_atD[OF assms(4)]
  let ?n = "length (buckets tbl) * 2"
  let ?t = "\<lparr>heads = replicate ?n None, node_count = 0\<rparr>" and ?tbl = "\<lparr>buckets = replicate ?n [], table_size = 0\<rparr>"
  have start: "table_at (dom mem) mem (replicate ?n []) ?t ?tbl" using D(9) by (simp add: table_at_def)
  have "insert_all ins (concat (buckets tbl)) ?tbl = Inr tbl'" using assms(1) False by (simp add: rehash_with_def)
  moreover have "\<forall>b \<in> set (buckets tbl). length b < fuel" using chain_le_nodes assms(3) by (meson le_less_trans)
  moreover have "length (table_nodes ?tbl) + length (concat (buckets tbl)) < fuel"
    using assms(3) by (simp add: table_nodes_def)
  moreover have "dom mem - set (concat ass) = F" using D(7,8) by blast
  moreover have "\<forall>i < length (buckets tbl). list_at mem (heads t ! i) (ass ! i) (buckets tbl ! i)" using D(4) by blast
  ultimately show ?thesis
    using chains_sim[OF D(1,2) _ D(5) _ start, of tbl' fuel] D(1,3,8) assms(2) False by (simp add: node_rehash_with_def)
qed

end

section \<open>Insertion\<close>

lemma bucket_index_eq: "table_at F mem ass t tbl \<Longrightarrow> NodeTable_bucket_index h t key = HashTable_bucket_index h tbl key"
  by (simp add: NodeTable_bucket_index_def HashTable_bucket_index_def table_atD)

lemma nodes_set_bucket:
  "i < length (buckets tbl) \<Longrightarrow>
   length (table_nodes (set_bucket i ns tbl)) + length (buckets tbl ! i) = length (table_nodes tbl) + length ns"
  by (simp add: table_nodes_def set_bucket_def length_concat_update)

lemma table_nodes_size [simp]: "table_nodes (t\<lparr>table_size := n\<rparr>) = table_nodes t"
  by (simp add: table_nodes_def)

lemma insert_grows_Suc:
  assumes "simulated_insert fuel (insert_depth h d) node_ins" "insert_depth h (Suc d) tbl k e = Inr (tbl', b)" "buckets tbl \<noteq> []"
  shows "buckets tbl' \<noteq> [] \<and> length (table_nodes tbl') \<le> Suc (length (table_nodes tbl))"
proof -
  let ?i = "HashTable_bucket_index h tbl k"
  have i: "?i < length (buckets tbl)" using assms(3) by (simp add: HashTable_bucket_index_def)
  show ?thesis
  proof (cases "chain_assign k e (buckets tbl ! ?i)")
    case (Some ns')
    moreover have "length ns' = length (buckets tbl ! ?i)" using chain_assign_Some[OF Some] by (metis length_map)
    ultimately show ?thesis using assms(2,3) nodes_set_bucket[OF i, of ns'] by (auto simp: Let_def set_bucket_def)
  next
    case None
    then have "rehash_with (insert_depth h d) ((set_bucket ?i ((k, e) # buckets tbl ! ?i) tbl)\<lparr>table_size := Suc (table_size tbl)\<rparr>) = Inr tbl'"
      using assms(2) by (auto simp: Let_def)
    from simulated_insert.rehash_grows[OF assms(1) this] nodes_set_bucket[OF i, of "(k, e) # buckets tbl ! ?i"] assms(3)
    show ?thesis by (simp add: set_bucket_def)
  qed
qed

text \<open>The chain of a key: where it is and that walking it needs less fuel than there is.\<close>

lemma bucket_facts:
  assumes "table_at F mem ass t tbl" "buckets tbl \<noteq> []" and i_def: "i = HashTable_bucket_index h tbl k"
  shows "i < length (buckets tbl)" "list_at mem (heads t ! i) (ass ! i) (buckets tbl ! i)" "distinct (ass ! i)"
    "set (ass ! i) \<subseteq> dom mem" "set (ass ! i) \<inter> F = {}" "length (buckets tbl ! i) \<le> length (table_nodes tbl)"
    "NodeTable_bucket_index h t k = i"
proof -
  note D = table_atD[OF assms(1)]
  show i: "i < length (buckets tbl)" using assms(2) by (simp add: i_def HashTable_bucket_index_def)
  then show "list_at mem (heads t ! i) (ass ! i) (buckets tbl ! i)" using D(4) by simp
  have mem: "ass ! i \<in> set ass" using i D(2) by simp
  then show "distinct (ass ! i)" using D(5) distinct_concat_iff[of ass] by auto
  have "set (ass ! i) \<subseteq> set (concat ass)" using mem by auto
  then show "set (ass ! i) \<subseteq> dom mem" "set (ass ! i) \<inter> F = {}" using D(7,8) by blast+
  show "length (buckets tbl ! i) \<le> length (table_nodes tbl)" using chain_le_nodes i by simp
  show "NodeTable_bucket_index h t k = i" unfolding i_def by (rule bucket_index_eq[OF assms(1)])
qed

lemma insert_sim_Suc:
  assumes rehash: "simulated_insert fuel (insert_depth h d) (node_insert_depth h alloc fuel d)"
    and fresh: "fresh_alloc alloc"
    and ins: "insert_depth h (Suc d) tbl k e = Inr (tbl', b)" "buckets tbl \<noteq> []" "Suc (length (table_nodes tbl)) < fuel"
    and at: "table_at F mem ass t tbl"
  shows "\<exists>mem' ass' t'. node_insert_depth h alloc fuel (Suc d) (mem, t) k e = Inr ((mem', t'), b)
     \<and> table_at F mem' ass' t' tbl' \<and> (\<forall>a \<in> F. mem' a = mem a)"
proof -
  let ?i = "HashTable_bucket_index h tbl k"
  note D = table_atD[OF at] and B = bucket_facts[OF at ins(2) refl, of h k]
  have len: "length (buckets tbl ! ?i) < fuel" using B(6) ins(3) by simp
  show ?thesis
  proof (cases "chain_assign k e (buckets tbl ! ?i)")
    case (Some ns')
    from seek_assign[OF B(2,3) len Some] obtain a c where a: "seek fuel mem (heads t ! ?i) k = Inr (Some a)"
      "a \<in> set (ass ! ?i)" "mem a = Some c" "list_at (mem(a \<mapsto> c\<lparr>cell_entry := e\<rparr>)) (heads t ! ?i) (ass ! ?i) ns'" by blast
    have "table_at F (mem(a \<mapsto> c\<lparr>cell_entry := e\<rparr>)) (ass[?i := ass ! ?i])
        (t\<lparr>heads := (heads t)[?i := heads t ! ?i], node_count := node_count t\<rparr>)
        ((set_bucket ?i ns' tbl)\<lparr>table_size := node_count t\<rparr>)"
      using a B(3,4) by (intro table_at_bucket[OF at B(1) a(4)]) auto
    moreover have "a \<notin> F" using a(2) B(5) by blast
    moreover have "t\<lparr>node_count := table_size tbl\<rparr> = t" using D(3) by (cases t) simp
    moreover have "(set_bucket ?i ns' tbl)\<lparr>table_size := table_size tbl\<rparr> = set_bucket ?i ns' tbl"
      by (cases tbl) (simp add: set_bucket_def)
    ultimately show ?thesis using ins(1) Some a B(7) D(3) by (auto simp: Let_def)
  next
    case None
    let ?a = "alloc mem" and ?ns = "(k, e) # buckets tbl ! ?i"
    let ?mem = "mem(?a \<mapsto> \<lparr>cell_key = k, cell_entry = e, cell_next = heads t ! ?i\<rparr>)"
    let ?t = "t\<lparr>heads := (heads t)[?i := Some ?a], node_count := Suc (table_size tbl)\<rparr>"
    let ?tbl = "(set_bucket ?i ?ns tbl)\<lparr>table_size := Suc (table_size tbl)\<rparr>"
    have out: "?a \<notin> dom mem" using fresh D(9) by (auto simp: fresh_alloc_def)
    have seek: "seek fuel mem (heads t ! ?i) k = Inr None"
      using seek_absent[OF B(2) len] None by (simp add: chain_assign_None)
    have "?a \<notin> set (ass ! ?i)" using B(4) out by blast
    then have "list_at ?mem (Some ?a) (?a # ass ! ?i) ?ns" using B(2) by simp
    then have t1: "table_at F ?mem (ass[?i := ?a # ass ! ?i]) ?t ?tbl"
      using B(3,4) out by (intro table_at_bucket[OF at B(1)]) auto
    have "rehash_with (insert_depth h d) ?tbl = Inr tbl'" "b" using ins(1) None by (auto simp: Let_def)
    moreover have "buckets ?tbl \<noteq> []" "length (table_nodes ?tbl) < fuel"
      using ins(2,3) nodes_set_bucket[OF B(1), of ?ns] by (auto simp: set_bucket_def)
    ultimately obtain mem' ass' t' where s: "node_rehash_with (node_insert_depth h alloc fuel d) fuel (?mem, ?t) = Inr (mem', t')"
      "table_at F mem' ass' t' tbl'" "\<forall>a \<in> F. mem' a = ?mem a" using simulated_insert.rehash_sim[OF rehash _ _ _ t1] by blast
    have "?a \<notin> F" using out D(8) by blast
    then show ?thesis using s seek B(7) D(3) \<open>b\<close> by (auto simp: Let_def)
  qed
qed

lemma insert_depth_simulated:
  assumes "fresh_alloc alloc"
  shows "simulated_insert fuel (insert_depth h d) (node_insert_depth h alloc fuel d)"
proof (induction d)
  case 0
  then show ?case by unfold_locales simp_all
next
  case (Suc d)
  show ?case
    by unfold_locales (rule insert_grows_Suc[OF Suc] insert_sim_Suc[OF Suc assms]; assumption)+
qed

section \<open>The other operations\<close>

lemma node_find_sim:
  assumes "table_at F mem ass t tbl" "buckets tbl \<noteq> []" "length (table_nodes tbl) < fuel"
  shows "NodeTable_find h fuel (mem, t) key = Inr (HashTable_find h tbl key)"
  using bucket_facts[OF assms(1,2) refl, of h key] assms(3) seek_find[of mem]
  by (simp add: NodeTable_find_def HashTable_find_def)

lemma node_erase_sim:
  assumes at: "table_at F mem ass t tbl" and ne: "buckets tbl \<noteq> []" and fuel: "length (table_nodes tbl) < fuel"
    and er: "HashTable_erase h tbl key = (tbl', removed)"
  shows "\<exists>mem' ass' t'. NodeTable_erase h fuel (mem, t) key = Inr ((mem', t'), removed) \<and> table_at F mem' ass' t' tbl'"
proof -
  let ?i = "HashTable_bucket_index h tbl key"
  note D = table_atD[OF at] and B = bucket_facts[OF at ne refl, of h key]
  have len: "length (buckets tbl ! ?i) < fuel" using B(6) fuel by simp
  show ?thesis
  proof (cases "chain_erase key (buckets tbl ! ?i)")
    case None
    then show ?thesis using er at seek_prev_absent[OF B(2) len None] B(7) by (auto simp: NodeTable_erase_def HashTable_erase_def)
  next
    case (Some ns')
    then have res: "removed" "tbl' = (set_bucket ?i ns' tbl)\<lparr>table_size := node_count t - 1\<rparr>"
      using er D(3) by (auto simp: HashTable_erase_def)
    from seek_prev_erase[OF B(2,3) len Some, of None] obtain as1 a as2 prv c where
      split: "ass ! ?i = as1 @ a # as2" and seek: "seek_prev fuel mem None (heads t ! ?i) key = Inr (Some (prv, a))"
      and a: "mem a = Some c" and link: "if as1 = [] then prv = None \<and> heads t ! ?i = Some a \<and> list_at mem (cell_next c) as2 ns'
        else \<exists>b cb. prv = Some b \<and> b \<in> set as1 \<and> mem b = Some cb
               \<and> list_at (mem(b \<mapsto> cb\<lparr>cell_next := cell_next c\<rparr>)) (heads t ! ?i) (as1 @ as2) ns'" by blast
    have d: "distinct (as1 @ as2)" "a \<notin> set (as1 @ as2)" "set (as1 @ as2) \<subseteq> dom mem" using B(3,4) split by auto
    show ?thesis
    proof (cases "as1 = []")
      case True
      with link have l: "prv = None" "list_at (mem(a := None)) (cell_next c) as2 ns'" using d by auto
      have "table_at F (mem(a := None)) (ass[?i := as2])
          (t\<lparr>heads := (heads t)[?i := cell_next c], node_count := node_count t - 1\<rparr>) tbl'"
        unfolding res using True split d by (intro table_at_bucket[OF at B(1) l(2)]) auto
      then show ?thesis using seek a l(1) B(7) res(1) by (auto simp: NodeTable_erase_def unlink_def)
    next
      case False
      with link obtain b cb where l: "prv = Some b" "b \<in> set as1" "mem b = Some cb"
        "list_at (mem(b \<mapsto> cb\<lparr>cell_next := cell_next c\<rparr>)) (heads t ! ?i) (as1 @ as2) ns'" by auto
      let ?mem = "mem(b \<mapsto> cb\<lparr>cell_next := cell_next c\<rparr>, a := None)"
      have l2: "list_at ?mem (heads t ! ?i) (as1 @ as2) ns'" using l(4) d(2) by (subst list_at_upd) auto
      have "table_at F ?mem (ass[?i := as1 @ as2])
          (t\<lparr>heads := (heads t)[?i := heads t ! ?i], node_count := node_count t - 1\<rparr>) tbl'"
        unfolding res using split d l(2,3) by (intro table_at_bucket[OF at B(1) l2]) auto
      moreover have "b \<noteq> a" using d(2) l(2) by auto
      ultimately show ?thesis using seek a l(1,3) B(7) res(1) by (auto simp: NodeTable_erase_def unlink_def)
    qed
  qed
qed

lemma clear_chains:
  assumes "length hs = length bs" "length ls = length bs" "\<forall>i < length bs. list_at mem (hs ! i) (ls ! i) (bs ! i)"
    and "distinct (concat ls)" "\<forall>b \<in> set bs. length b < fuel"
  shows "fold_res (clear_chain fuel) hs mem = Inr (mem |` (- set (concat ls)))"
  using assms
proof (induction bs arbitrary: hs ls mem)
  case (Cons b bs)
  from Cons.prems(1,2) obtain p hs' as ls' where l: "hs = p # hs'" "ls = as # ls'" by (metis length_Suc_conv)
  from Cons.prems(3) have at: "list_at mem p as b" "\<forall>i < length bs. list_at mem (hs' ! i) (ls' ! i) (bs ! i)"
    by (auto simp: l All_less_Suc2)
  let ?mem = "mem |` (- set as)"
  have "list_at ?mem (hs' ! i) (ls' ! i) (bs ! i)" if i: "i < length bs" for i
  proof -
    have "ls' ! i \<in> set ls'" using i Cons.prems(2) l by simp
    then have "set (ls' ! i) \<inter> set as = {}" using Cons.prems(4) l by auto
    then show ?thesis using at(2) i by (subst list_at_cong[where mem = mem]) (auto simp: restrict_map_def)
  qed
  then have "fold_res (clear_chain fuel) hs' ?mem = Inr (?mem |` (- set (concat ls')))"
    using Cons.prems l by (intro Cons.IH) auto
  moreover have "clear_chain fuel mem p = Inr ?mem" using clear_chain_list[OF at(1)] Cons.prems(4,5) l by simp
  ultimately show ?case by (simp add: l Int_commute)
qed (simp add: restrict_map_def)

lemma node_clear_sim:
  assumes at: "table_at F mem ass t tbl" and fuel: "length (table_nodes tbl) < fuel"
  shows "\<exists>mem' ass' t'. NodeTable_clear fuel (mem, t) = Inr (mem', t') \<and> table_at F mem' ass' t' (HashTable_clear tbl)"
proof -
  note D = table_atD[OF at]
  let ?mem = "mem |` (- set (concat ass))" and ?t = "\<lparr>heads = map (\<lambda>_. None) (heads t), node_count = 0\<rparr>"
  have "\<forall>b \<in> set (buckets tbl). length b < fuel" using chain_le_nodes fuel by (meson le_less_trans)
  then have "fold_res (clear_chain fuel) (heads t) mem = Inr ?mem" using D(4) by (intro clear_chains[OF D(1,2) _ D(5)]) auto
  moreover have "dom ?mem = F" using D(7,8) by auto
  then have "table_at F ?mem (map (\<lambda>_. []) ass) ?t (HashTable_clear tbl)"
    using D by (simp add: table_at_def HashTable_clear_def concat_map_Nil)
  ultimately show ?thesis by (auto simp: NodeTable_clear_def)
qed

lemma walk_chains:
  assumes "length hs = length bs" "length ls = length bs" "\<forall>i < length bs. list_at mem (hs ! i) (ls ! i) (bs ! i)"
    and "\<forall>b \<in> set bs. length b < fuel"
  shows "fold_res (walk_chain fn mem fuel) hs s = Inr (foldl (foldl (\<lambda>s (k, e). fn s k e)) s bs)"
  using assms
proof (induction bs arbitrary: hs ls s)
  case (Cons b bs)
  from Cons.prems(1,2) obtain p hs' as ls' where l: "hs = p # hs'" "ls = as # ls'" by (metis length_Suc_conv)
  from Cons.prems(3) have "list_at mem p as b" "\<forall>i < length bs. list_at mem (hs' ! i) (ls' ! i) (bs ! i)"
    by (auto simp: l All_less_Suc2)
  then show ?case using Cons.prems l walk_chain_list[of mem p as b fuel fn s] Cons.IH[of hs' ls'] by simp
qed simp

lemma node_for_each_sim:
  assumes at: "table_at F mem ass t tbl" and fuel: "length (table_nodes tbl) < fuel"
  shows "NodeTable_for_each fn fuel (mem, t) s = Inr (HashTable_for_each fn tbl s)"
proof -
  note D = table_atD[OF at]
  have "\<forall>b \<in> set (buckets tbl). length b < fuel" using chain_le_nodes fuel by (meson le_less_trans)
  then show ?thesis using walk_chains[OF D(1,2), of mem fuel fn s] D(4) by (simp add: NodeTable_for_each_def HashTable_for_each_def)
qed

lemma node_for_each_bucket_sim:
  assumes at: "table_at F mem ass t tbl" and fuel: "length (table_nodes tbl) < fuel"
  shows "NodeTable_for_each_bucket fn fuel (mem, t) i s = Inr (HashTable_for_each_bucket fn tbl i s)"
proof (cases "i < length (buckets tbl)")
  case True
  then have "length (buckets tbl ! i) < fuel" using chain_le_nodes[of "buckets tbl ! i" tbl] fuel by simp
  with True walk_indexed_list[OF table_atD(4)[OF at True]] show ?thesis
    by (simp add: NodeTable_for_each_bucket_def HashTable_for_each_bucket_def table_atD(1)[OF at])
qed (simp add: NodeTable_for_each_bucket_def HashTable_for_each_bucket_def table_atD(1)[OF at])

lemma table_at_new: "table_at {} Map.empty (replicate (length (buckets (HashTable_new n))) []) (NodeTable_new n) (HashTable_new n)"
  by (simp add: table_at_def NodeTable_new_def HashTable_new_def Let_def)

text \<open>Nothing is leaked: with no other owner, the allocated cells are the nodes of the table.\<close>

lemma table_at_card:
  assumes "table_at {} mem ass t tbl"
  shows "card (dom mem) = length (table_nodes tbl)"
proof -
  note D = table_atD[OF assms]
  have "map length ass = map length (buckets tbl)"
    using D(2) list_at_length[OF D(4)] by (intro nth_equalityI) auto
  then have "length (concat ass) = length (table_nodes tbl)" by (simp add: length_concat table_nodes_def)
  then show ?thesis using D(5,8) by (simp add: distinct_card del: set_concat)
qed

section \<open>Sequences of operations\<close>

datatype table_op =
    Op_insert string StorageEntry
  | Op_erase string
  | Op_find string
  | Op_clear
  | Op_entries
  | Op_bucket nat

datatype table_answer =
    Flag bool
  | Found "StorageEntry option"
  | Cleared
  | Entries "Node list"
  | Places "(string \<times> nat) list"

fun list_step :: "hash \<Rightarrow> HashTable \<Rightarrow> table_op \<Rightarrow> (HashTable \<times> table_answer) res" where
  "list_step h t (Op_insert k e) = bind_res (HashTable_insert h t k e) (\<lambda>(t', b). Inr (t', Flag b))"
| "list_step h t (Op_erase k) = (let (t', b) = HashTable_erase h t k in Inr (t', Flag b))"
| "list_step h t (Op_find k) = Inr (t, Found (HashTable_find h t k))"
| "list_step h t Op_clear = Inr (HashTable_clear t, Cleared)"
| "list_step h t Op_entries = Inr (t, Entries (HashTable_for_each (\<lambda>l k e. l @ [(k, e)]) t []))"
| "list_step h t (Op_bucket i) = Inr (t, Places (HashTable_for_each_bucket (\<lambda>l k n. l @ [(k, n)]) t i []))"

fun node_step :: "hash \<Rightarrow> (memory \<Rightarrow> addr) \<Rightarrow> nat \<Rightarrow> memory \<times> NodeTable \<Rightarrow> table_op \<Rightarrow> ((memory \<times> NodeTable) \<times> table_answer) res" where
  "node_step h alloc fuel st (Op_insert k e) = bind_res (NodeTable_insert h alloc fuel st k e) (\<lambda>(st', b). Inr (st', Flag b))"
| "node_step h alloc fuel st (Op_erase k) = bind_res (NodeTable_erase h fuel st k) (\<lambda>(st', b). Inr (st', Flag b))"
| "node_step h alloc fuel st (Op_find k) = bind_res (NodeTable_find h fuel st k) (\<lambda>r. Inr (st, Found r))"
| "node_step h alloc fuel st Op_clear = bind_res (NodeTable_clear fuel st) (\<lambda>st'. Inr (st', Cleared))"
| "node_step h alloc fuel st Op_entries =
     bind_res (NodeTable_for_each (\<lambda>l k e. l @ [(k, e)]) fuel st []) (\<lambda>l. Inr (st, Entries l))"
| "node_step h alloc fuel st (Op_bucket i) =
     bind_res (NodeTable_for_each_bucket (\<lambda>l k n. l @ [(k, n)]) fuel st i []) (\<lambda>l. Inr (st, Places l))"

primrec run_ops :: "('s \<Rightarrow> 'o \<Rightarrow> ('s \<times> 'a) res) \<Rightarrow> 'o list \<Rightarrow> 's \<Rightarrow> ('s \<times> 'a list) res" where
  "run_ops f [] s = Inr (s, [])"
| "run_ops f (x # xs) s =
     bind_res (f s x) (\<lambda>(s1, r). bind_res (run_ops f xs s1) (\<lambda>(s2, rs). Inr (s2, r # rs)))"

lemma table_ok_size: "table_ok h tbl \<Longrightarrow> length (table_nodes tbl) = table_size tbl \<and> buckets tbl \<noteq> []"
  using table_shapeD(1,2)[of h tbl] by (auto simp: table_ok_def table_nodes_def)

lemma step_sim:
  assumes fresh: "fresh_alloc alloc" and ok: "table_ok h tbl" and fuel: "Suc (table_size tbl) < fuel"
    and at: "table_at {} mem ass t tbl"
  shows "\<exists>mem' ass' t' tbl' r. node_step h alloc fuel (mem, t) op = Inr ((mem', t'), r) \<and> list_step h tbl op = Inr (tbl', r)
     \<and> table_ok h tbl' \<and> table_at {} mem' ass' t' tbl' \<and> table_size tbl' \<le> Suc (table_size tbl)"
proof -
  note size = table_ok_size[OF ok]
  then have ne: "buckets tbl \<noteq> []" and f: "length (table_nodes tbl) < fuel" "Suc (length (table_nodes tbl)) < fuel"
    using fuel by auto
  show ?thesis
  proof (cases op)
    case (Op_insert k e)
    from insert_correct[OF ok, of k e] obtain tbl' b where ins: "HashTable_insert h tbl k e = Inr (tbl', b)" "table_ok h tbl'"
      by blast
    note sim = insert_depth_simulated[OF fresh, of fuel h 2]
    from simulated_insert.ins_sim[OF sim ins(1)[unfolded HashTable_insert_def] ne f(2) at]
    have "\<exists>mem' ass' t'. NodeTable_insert h alloc fuel (mem, t) k e = Inr ((mem', t'), b) \<and> table_at {} mem' ass' t' tbl'"
      by (auto simp: NodeTable_insert_def)
    moreover have "table_size tbl' \<le> Suc (table_size tbl)"
      using simulated_insert.ins_grows[OF sim ins(1)[unfolded HashTable_insert_def] ne] size table_ok_size[OF ins(2)] by simp
    ultimately show ?thesis using ins Op_insert by auto
  next
    case (Op_erase k)
    obtain tbl' b where er: "HashTable_erase h tbl k = (tbl', b)" by fastforce
    from node_erase_sim[OF at ne f(1) er] erase_correct(1,4)[OF ok er] show ?thesis using er Op_erase by auto
  next
    case (Op_find k)
    then show ?thesis using node_find_sim[OF at ne f(1)] ok at by auto
  next
    case Op_clear
    have "table_size (HashTable_clear tbl) = 0" by (simp add: HashTable_clear_def)
    then show ?thesis using node_clear_sim[OF at f(1)] table_ok_clear[OF ok] Op_clear by auto
  next
    case Op_entries
    then show ?thesis using node_for_each_sim[OF at f(1)] ok at by auto
  next
    case (Op_bucket i)
    then show ?thesis using node_for_each_bucket_sim[OF at f(1)] ok at by auto
  qed
qed

lemma run_sim:
  assumes fresh: "fresh_alloc alloc"
  shows "table_ok h tbl \<Longrightarrow> Suc (table_size tbl + length ops) < fuel \<Longrightarrow> table_at {} mem ass t tbl \<Longrightarrow>
    \<exists>mem' ass' t' tbl' rs. run_ops (node_step h alloc fuel) ops (mem, t) = Inr ((mem', t'), rs)
      \<and> run_ops (list_step h) ops tbl = Inr (tbl', rs) \<and> table_ok h tbl' \<and> table_at {} mem' ass' t' tbl'"
proof (induction ops arbitrary: tbl mem ass t)
  case (Cons op ops)
  have "Suc (table_size tbl) < fuel" using Cons.prems(2) by simp
  from step_sim[OF fresh Cons.prems(1) this Cons.prems(3), of op] obtain mem1 ass1 t1 tbl1 r
    where s: "node_step h alloc fuel (mem, t) op = Inr ((mem1, t1), r)" "list_step h tbl op = Inr (tbl1, r)"
      "table_ok h tbl1" "table_at {} mem1 ass1 t1 tbl1" "table_size tbl1 \<le> Suc (table_size tbl)" by blast
  have "Suc (table_size tbl1 + length ops) < fuel" using s(5) Cons.prems(2) by simp
  from Cons.IH[OF s(3) this s(4)] s(1,2) show ?case by auto
qed auto

section \<open>An allocator\<close>

text \<open>One way to choose addresses, and the contract of \<open>rehash_if_needed\<close> for it.\<close>

definition next_free :: "memory \<Rightarrow> addr" where
  "next_free mem = (if dom mem = {} then 0 else Suc (Max (dom mem)))"

lemma fresh_next_free: "fresh_alloc next_free"
proof (unfold fresh_alloc_def, intro allI impI)
  fix mem :: memory
  assume fin: "finite (dom mem)"
  have "next_free mem \<notin> dom mem"
  proof
    assume a: "next_free mem \<in> dom mem"
    then have "Suc (Max (dom mem)) \<le> Max (dom mem)" using Max_ge[OF fin a] by (simp add: next_free_def split: if_splits)
    then show False by simp
  qed
  then show "mem (next_free mem) = None" by blast
qed

interpretation nodes: simulated_insert fuel "HashTable_insert h" "NodeTable_insert h next_free fuel" for fuel h
  unfolding HashTable_insert_def NodeTable_insert_def by (rule insert_depth_simulated[OF fresh_next_free])

section \<open>Properties\<close>

text \<open>
  C2: the table with pointers behaves as the table with lists: whatever free addresses \<open>new\<close>
  returns, any sequence of insertions (with the rehashes they cause), erasures, lookups,
  clears and walks gives the same answers; no operation reads, writes or deletes a node
  that is not allocated or runs forever; and afterwards exactly the nodes of the table are
  allocated, none leaked.
\<close>

theorem pointers_refine_lists:
  assumes "fresh_alloc alloc" "Suc (length ops) < fuel"
  shows "\<exists>mem t tbl answers.
     run_ops (node_step h alloc fuel) ops (Map.empty, NodeTable_new n) = Inr ((mem, t), answers)
     \<and> run_ops (list_step h) ops (HashTable_new n) = Inr (tbl, answers)
     \<and> table_ok h tbl \<and> node_count t = table_size tbl \<and> finite (dom mem) \<and> card (dom mem) = table_size tbl"
proof -
  have "Suc (table_size (HashTable_new n) + length ops) < fuel" using assms(2) by (simp add: HashTable_new_def Let_def)
  from run_sim[OF assms(1) table_ok_new this table_at_new]
  obtain mem ass t tbl rs where "run_ops (node_step h alloc fuel) ops (Map.empty, NodeTable_new n) = Inr ((mem, t), rs)"
    "run_ops (list_step h) ops (HashTable_new n) = Inr (tbl, rs)" and ok: "table_ok h tbl" and at: "table_at {} mem ass t tbl"
    by blast
  then show ?thesis using table_atD(3,9)[OF at] table_at_card[OF at] table_ok_size[OF ok] by auto
qed

theorem pointers_refine_lists_witness:
  "\<exists>mem t e. run_ops (node_step (\<lambda>_. 0) next_free 5)
       [Op_insert ''a'' e, Op_insert ''b'' e, Op_erase ''a''] (Map.empty, NodeTable_new 16) = Inr ((mem, t), [Flag True, Flag True, Flag True])
     \<and> card (dom mem) = node_count t"
proof -
  let ?e = "\<lparr>entry_value = ''v'', expires_at = None\<rparr>" and ?h = "\<lambda>_. 0"
  let ?ops = "[Op_insert ''a'' ?e, Op_insert ''b'' ?e, Op_erase ''a'']"
  have "Suc (length ?ops) < 5" by simp
  from pointers_refine_lists[OF fresh_next_free this, of ?h 16] obtain mem t tbl rs where r:
    "run_ops (node_step ?h next_free 5) ?ops (Map.empty, NodeTable_new 16) = Inr ((mem, t), rs)"
    "run_ops (list_step ?h) ?ops (HashTable_new 16) = Inr (tbl, rs)" "card (dom mem) = node_count t" by auto
  obtain t1 where t1: "HashTable_insert ?h (HashTable_new 16) ''a'' ?e = Inr (t1, True)" "table_ok ?h t1"
    "HashTable_find ?h t1 = [''a'' \<mapsto> ?e]" using insert_correct[OF table_ok_new, of ?h 16 "''a''" ?e] by (auto simp: find_new)
  obtain t2 where t2: "HashTable_insert ?h t1 ''b'' ?e = Inr (t2, True)" "table_ok ?h t2"
    "HashTable_find ?h t2 ''a'' = Some ?e" using insert_correct[OF t1(2), of "''b''" ?e] by (auto simp: t1(3))
  obtain t3 where "HashTable_erase ?h t2 ''a'' = (t3, True)"
    using erase_correct(3)[OF t2(2)] t2(3) by (metis option.distinct(1) prod.collapse)
  then have "rs = [Flag True, Flag True, Flag True]" using r(2) t1(1) t2(1) by auto
  with r(1,3) show ?thesis by blast
qed

end
