(* ===== verification/Counter_Races.thy ===== *)
theory Counter_Races
  imports Storage_Ops
begin

text \<open>
  Workers that increment one counter at the same time. \<open>CounterStore::increment\<close>
  (src/storage/counter_store.cpp) calls the engine twice, \<open>get\<close> and then \<open>set\<close>, and neither
  it nor the engine takes a lock, so the calls of different workers may alternate. Each call
  of the engine is one step here; the clock reading of a \<open>get\<close> is arbitrary. A worker of the
  race makes one call of \<open>increment\<close>: \<open>Ready\<close> before \<open>get\<close>, \<open>Loaded\<close> between the two calls,
  \<open>Stored\<close> with the value it returns.
\<close>

section \<open>Model\<close>

text \<open>The two halves of \<open>CounterStore::increment\<close>: up to the first call of the engine, and the rest.\<close>

definition increment_read :: "hash \<Rightarrow> int \<Rightarrow> StorageEngine \<Rightarrow> string \<Rightarrow> int res" where
  "increment_read h now s key = CounterStore_parse_value (StorageEngine_get h now s key)"

definition increment_write ::
    "hash \<Rightarrow> StorageEngine \<Rightarrow> string \<Rightarrow> int \<Rightarrow> int \<Rightarrow> (StorageEngine \<times> int) res" where
  "increment_write h s key current delta =
     bind_res (checked_int64 (current + delta)) (\<lambda>next.
     bind_res (StorageEngine_set h s key (CounterStore_format_value next)) (\<lambda>(s', _).
     Inr (s', next)))"

datatype phase = Ready | Loaded int | Stored int

record race =
  shared :: StorageEngine
  phases :: "phase list"

definition race_start :: "StorageEngine \<Rightarrow> nat \<Rightarrow> race" where
  "race_start s n = \<lparr>shared = s, phases = replicate n Ready\<rparr>"

inductive race_step :: "hash \<Rightarrow> string \<Rightarrow> int \<Rightarrow> race \<Rightarrow> race \<Rightarrow> bool" for h key delta where
  load: "i < length (phases r) \<Longrightarrow> phases r ! i = Ready \<Longrightarrow> increment_read h now (shared r) key = Inr c \<Longrightarrow>
     race_step h key delta r (r\<lparr>phases := (phases r)[i := Loaded c]\<rparr>)"
| store: "i < length (phases r) \<Longrightarrow> phases r ! i = Loaded c \<Longrightarrow>
     increment_write h (shared r) key c delta = Inr (s', v) \<Longrightarrow>
     race_step h key delta r (r\<lparr>shared := s', phases := (phases r)[i := Stored v]\<rparr>)"

inductive_cases race_stepE: "race_step h key delta r r'"

lemma increment_split:
  "CounterStore_increment h now s key delta
     = bind_res (increment_read h now s key) (\<lambda>current. increment_write h s key current delta)"
  by (simp add: CounterStore_increment_def increment_read_def increment_write_def)

section \<open>The value of the counter\<close>

text \<open>At every time the key reads as \<open>v\<close>: it holds a number without a deadline, or \<open>v = 0\<close> and there is none.\<close>

definition counter_is :: "hash \<Rightarrow> string \<Rightarrow> StorageEngine \<Rightarrow> int \<Rightarrow> bool" where
  "counter_is h key s v \<longleftrightarrow> engine_ok h s \<and> (\<forall>now. increment_read h now s key = Inr v)"

lemma counter_is_unique: "counter_is h key s v \<Longrightarrow> counter_is h key s w \<Longrightarrow> v = w"
  by (simp add: counter_is_def)

lemma counter_is_range: "counter_is h key s v \<Longrightarrow> int64_range v"
  by (auto simp: counter_is_def increment_read_def intro: parse_value_range)

lemma counter_is_new: "counter_is h key StorageEngine_new 0"
  by (simp add: counter_is_def engine_ok_new increment_read_def get_correct engine_view_new spec_get_def
      CounterStore_parse_value_def)

lemma write_spec:
  assumes "engine_ok h s" "int64_range (c + delta)"
  shows "\<exists>s'. increment_write h s key c delta = Inr (s', c + delta) \<and> counter_is h key s' (c + delta)"
proof -
  obtain s' where s': "StorageEngine_set h s key (CounterStore_format_value (c + delta)) = Inr (s', True)"
    "engine_ok h s'" "engine_view h s' = (engine_view h s)(key \<mapsto> fresh_entry (CounterStore_format_value (c + delta)))"
    using set_correct[OF assms(1)] by blast
  then have "StorageEngine_get h now s' key = Some (CounterStore_format_value (c + delta))" for now
    by (simp add: get_fresh)
  then show ?thesis using s' assms(2)
    by (auto simp: increment_write_def counter_is_def increment_read_def parse_format checked_int64_def)
qed

lemma write_result:
  assumes "engine_ok h s" "increment_write h s key c delta = Inr (s', v)"
  shows "v = c + delta" "counter_is h key s' v"
proof -
  have "int64_range (c + delta)" using assms(2)
    by (auto simp: increment_write_def checked_int64_def split: if_splits)
  from write_spec[OF assms(1) this, of key] assms(2) show "v = c + delta" "counter_is h key s' v" by auto
qed

section \<open>Every race stays within its bounds\<close>

fun is_stored :: "phase \<Rightarrow> bool" where
  "is_stored (Stored _) = True"
| "is_stored _ = False"

definition stores :: "race \<Rightarrow> nat" where
  "stores r = length (filter is_stored (phases r))"

definition all_stored :: "race \<Rightarrow> bool" where
  "all_stored r \<longleftrightarrow> (\<forall>x \<in> set (phases r). is_stored x)"

text \<open>
  After \<open>k\<close> stores the counter is \<open>start + j * delta\<close> for some \<open>j\<close> between 1 (0 before the
  first store) and \<open>k\<close>, and what a worker has loaded is such a value of an earlier moment.
\<close>

definition race_inv :: "hash \<Rightarrow> string \<Rightarrow> int \<Rightarrow> int \<Rightarrow> nat \<Rightarrow> race \<Rightarrow> bool" where
  "race_inv h key delta start n r \<longleftrightarrow>
     length (phases r) = n
     \<and> (\<exists>j \<le> stores r. (stores r = 0 \<or> 1 \<le> j) \<and> counter_is h key (shared r) (start + int j * delta))
     \<and> (\<forall>c. Loaded c \<in> set (phases r) \<longrightarrow> (\<exists>j \<le> stores r. c = start + int j * delta))"

lemma stores_update:
  assumes "i < length xs" "\<not> is_stored (xs ! i)"
  shows "length (filter is_stored (xs[i := x])) = length (filter is_stored xs) + (if is_stored x then 1 else 0)"
  using assms by (induction xs arbitrary: i) (auto split: nat.splits)

lemma stores_load:
  "i < length (phases r) \<Longrightarrow> phases r ! i = Ready \<Longrightarrow> stores (r\<lparr>phases := (phases r)[i := Loaded c]\<rparr>) = stores r"
  by (simp add: stores_def stores_update)

lemma stores_store:
  "i < length (phases r) \<Longrightarrow> phases r ! i = Loaded c \<Longrightarrow>
     stores (r\<lparr>shared := s, phases := (phases r)[i := Stored v]\<rparr>) = Suc (stores r)"
  by (simp add: stores_def stores_update)

lemma stores_all: "all_stored r \<Longrightarrow> stores r = length (phases r)"
  by (simp add: stores_def all_stored_def)

lemma inv_load:
  assumes "race_inv h key delta start n r" "i < length (phases r)" "phases r ! i = Ready"
    and "increment_read h now (shared r) key = Inr c"
  shows "race_inv h key delta start n (r\<lparr>phases := (phases r)[i := Loaded c]\<rparr>)"
proof -
  obtain j where j: "j \<le> stores r" "stores r = 0 \<or> 1 \<le> j" "counter_is h key (shared r) (start + int j * delta)"
    using assms(1) unfolding race_inv_def by blast
  then have "c = start + int j * delta" using assms(4) by (simp add: counter_is_def)
  then have "\<exists>j \<le> stores r. c' = start + int j * delta" if "Loaded c' \<in> set ((phases r)[i := Loaded c])" for c'
    using that j(1) assms(1) set_update_subset_insert[of "phases r" i "Loaded c"]
    unfolding race_inv_def by blast
  then show ?thesis using j assms(1) unfolding race_inv_def stores_load[OF assms(2,3)] by auto
qed

lemma inv_store:
  assumes "race_inv h key delta start n r" "i < length (phases r)" "phases r ! i = Loaded c"
    and "increment_write h (shared r) key c delta = Inr (s', v)"
  shows "race_inv h key delta start n (r\<lparr>shared := s', phases := (phases r)[i := Stored v]\<rparr>)"
proof -
  have "engine_ok h (shared r)" using assms(1) by (auto simp: race_inv_def counter_is_def)
  note v = write_result[OF this assms(4)]
  obtain j where j: "j \<le> stores r" "c = start + int j * delta"
    using assms(1,2,3) unfolding race_inv_def by (metis nth_mem)
  have "counter_is h key s' (start + int (Suc j) * delta)" using v j(2) by (simp add: algebra_simps)
  moreover have "\<exists>j \<le> Suc (stores r). c' = start + int j * delta"
    if "Loaded c' \<in> set ((phases r)[i := Stored v])" for c'
    using that assms(1) set_update_subset_insert[of "phases r" i "Stored v"]
    unfolding race_inv_def by (metis insert_iff le_SucI phase.distinct(5) subsetD)
  ultimately show ?thesis using j(1) assms(1) unfolding race_inv_def stores_store[OF assms(2,3)] by auto
qed

interpretation races: transition_system
  "\<lambda>r. \<exists>s. counter_is h key s start \<and> r = race_start s n" "race_step h key delta" "race_inv h key delta start n"
  for h key delta start n
proof (unfold_locales, goal_cases)
  case (1 r)
  then show ?case by (auto simp: race_inv_def race_start_def stores_def)
next
  case (2 r r')
  then show ?case by (auto elim!: race_stepE intro: inv_load inv_store)
qed

section \<open>Every race ends\<close>

lemma phase_bound:
  assumes "int64_range start" "int64_range (start + int n * delta)" "0 < delta" "j \<le> n"
  shows "int64_range (start + int j * delta)"
proof -
  have "int j * delta \<le> int n * delta" using assms(3,4) by (simp add: mult_right_mono)
  moreover have "0 \<le> int j * delta" using assms(3) by simp
  ultimately show ?thesis using assms(1,2) unfolding int64_range_def by linarith
qed

text \<open>A worker that has not returned can always make its next call.\<close>

lemma race_progress:
  assumes "race_inv h key delta start n r" "int64_range start" "int64_range (start + int n * delta)" "0 < delta"
    and "\<not> all_stored r"
  shows "\<exists>r'. race_step h key delta r r'"
proof -
  obtain i where i: "i < length (phases r)" "\<not> is_stored (phases r ! i)"
    using assms(5) by (auto simp: all_stored_def in_set_conv_nth)
  show ?thesis
  proof (cases "phases r ! i")
    case Ready
    moreover obtain c where "increment_read h 0 (shared r) key = Inr c"
      using assms(1) by (auto simp: race_inv_def counter_is_def)
    ultimately show ?thesis using i(1) by (blast intro: load)
  next
    case (Loaded c)
    then obtain j where j: "j \<le> stores r" "c = start + int j * delta"
      using assms(1) i(1) unfolding race_inv_def by (metis nth_mem)
    have "stores r < n"
      using i assms(1) length_filter_less[of "phases r ! i" "phases r" is_stored] by (simp add: stores_def race_inv_def)
    then have "int64_range (c + delta)"
      using phase_bound[OF assms(2-4), of "Suc j"] j by (simp add: algebra_simps)
    moreover have "engine_ok h (shared r)" using assms(1) by (auto simp: race_inv_def counter_is_def)
    ultimately show ?thesis using write_spec Loaded i(1) by (metis store)
  qed (use i in simp)
qed

fun calls_left :: "phase \<Rightarrow> nat" where
  "calls_left Ready = 2"
| "calls_left (Loaded _) = 1"
| "calls_left (Stored _) = 0"

definition race_work :: "race \<Rightarrow> nat" where
  "race_work r = sum_list (map calls_left (phases r))"

lemma work_update:
  assumes "i < length xs"
  shows "sum_list (map calls_left (xs[i := x])) + calls_left (xs ! i) = sum_list (map calls_left xs) + calls_left x"
  using assms by (induction xs arbitrary: i) (auto split: nat.splits)

lemma race_step_work: "race_step h key delta r r' \<Longrightarrow> race_work r = Suc (race_work r')"
proof (erule race_stepE, goal_cases)
  case (1 i now c)
  then show ?case using work_update[OF 1(2), of "Loaded c"] by (simp add: race_work_def)
next
  case (2 i c s' v)
  then show ?case using work_update[OF 2(2), of "Stored v"] by (simp add: race_work_def)
qed

lemma race_steps_work: "(race_step h key delta ^^ m) r r' \<Longrightarrow> race_work r = race_work r' + m"
  by (induction m arbitrary: r') (auto dest: race_step_work)

lemma work_start: "race_work (race_start s n) = 2 * n"
  by (induction n) (simp_all add: race_work_def race_start_def)

lemma work_done: "race_work r = 0 \<longleftrightarrow> all_stored r"
proof -
  have "calls_left x = 0 \<longleftrightarrow> is_stored x" for x by (cases x) auto
  then show ?thesis by (simp add: race_work_def all_stored_def)
qed

section \<open>Every value within the bounds is reached\<close>

lemma step_first:
  "race_step h key delta r1 r2 \<Longrightarrow> (race_step h key delta)\<^sup>*\<^sup>* r2 r3 \<Longrightarrow> (race_step h key delta)\<^sup>*\<^sup>* r1 r3"
  by (rule converse_rtranclp_into_rtranclp)

lemma load_one:
  assumes "counter_is h key s v"
  shows "race_step h key delta \<lparr>shared = s, phases = xs @ Ready # ys\<rparr> \<lparr>shared = s, phases = xs @ Loaded v # ys\<rparr>"
  using load[of "length xs" "\<lparr>shared = s, phases = xs @ Ready # ys\<rparr>" h 0 key v delta] assms
  by (simp add: counter_is_def)

lemma store_one:
  assumes "engine_ok h s" "int64_range (c + delta)"
  shows "\<exists>s'. counter_is h key s' (c + delta) \<and> race_step h key delta
     \<lparr>shared = s, phases = xs @ Loaded c # ys\<rparr> \<lparr>shared = s', phases = xs @ Stored (c + delta) # ys\<rparr>"
proof -
  obtain s' where "increment_write h s key c delta = Inr (s', c + delta)" "counter_is h key s' (c + delta)"
    using write_spec[OF assms] by blast
  then show ?thesis
    using store[of "length xs" "\<lparr>shared = s, phases = xs @ Loaded c # ys\<rparr>" c h key delta s' "c + delta"] by auto
qed

text \<open>Workers that load one after the other see the same value; the stores that follow leave one increment.\<close>

lemma all_load:
  assumes "counter_is h key s v"
  shows "(race_step h key delta)\<^sup>*\<^sup>* \<lparr>shared = s, phases = xs @ replicate m Ready @ ys\<rparr>
     \<lparr>shared = s, phases = xs @ replicate m (Loaded v) @ ys\<rparr>"
proof (induction m arbitrary: xs)
  case (Suc m)
  show ?case
    using step_first[OF load_one[OF assms, of delta xs "replicate m Ready @ ys"]]
      Suc.IH[of "xs @ [Loaded v]"] by simp
qed simp

lemma all_store:
  assumes "int64_range (c + delta)" "engine_ok h s"
  shows "\<exists>s'. counter_is h key s' (c + delta) \<and> (race_step h key delta)\<^sup>*\<^sup>*
     \<lparr>shared = s, phases = xs @ replicate (Suc m) (Loaded c) @ ys\<rparr>
     \<lparr>shared = s', phases = xs @ replicate (Suc m) (Stored (c + delta)) @ ys\<rparr>"
  using assms(2)
proof (induction m arbitrary: s xs)
  case 0
  then show ?case using store_one[OF 0 assms(1), of key xs ys] by auto
next
  case (Suc m)
  let ?ys = "replicate (Suc m) (Loaded c) @ ys"
  obtain s1 where s1: "counter_is h key s1 (c + delta)"
    "race_step h key delta \<lparr>shared = s, phases = xs @ Loaded c # ?ys\<rparr> \<lparr>shared = s1, phases = xs @ Stored (c + delta) # ?ys\<rparr>"
    using store_one[OF Suc.prems assms(1)] by blast
  have "engine_ok h s1" using s1(1) by (simp add: counter_is_def)
  from Suc.IH[OF this, of "xs @ [Stored (c + delta)]"] show ?case
    using step_first[OF s1(2)] by auto
qed

text \<open>Workers that take turns add up.\<close>

lemma turns:
  assumes "counter_is h key s v" "\<And>j. j \<le> m \<Longrightarrow> int64_range (v + int j * delta)" "\<forall>x \<in> set xs. is_stored x"
  shows "\<exists>r. all_stored r \<and> counter_is h key (shared r) (v + int m * delta)
     \<and> (race_step h key delta)\<^sup>*\<^sup>* \<lparr>shared = s, phases = xs @ replicate m Ready\<rparr> r"
  using assms
proof (induction m arbitrary: s v xs)
  case 0
  then show ?case by (intro exI[of _ "\<lparr>shared = s, phases = xs\<rparr>"]) (simp add: all_stored_def)
next
  case (Suc m)
  let ?ys = "replicate m Ready"
  have "engine_ok h s" using Suc.prems(1) by (simp add: counter_is_def)
  moreover have "int64_range (v + delta)" using Suc.prems(2)[of 1] by simp
  ultimately obtain s1 where s1: "counter_is h key s1 (v + delta)"
    "race_step h key delta \<lparr>shared = s, phases = xs @ Loaded v # ?ys\<rparr> \<lparr>shared = s1, phases = xs @ Stored (v + delta) # ?ys\<rparr>"
    using store_one by blast
  have "int64_range (v + delta + int j * delta)" if "j \<le> m" for j
    using Suc.prems(2)[of "Suc j"] that by (simp add: algebra_simps)
  from Suc.IH[OF s1(1) this, of "xs @ [Stored (v + delta)]"] Suc.prems(3) obtain r where
    "all_stored r" "counter_is h key (shared r) (v + int (Suc m) * delta)"
    "(race_step h key delta)\<^sup>*\<^sup>* \<lparr>shared = s1, phases = xs @ Stored (v + delta) # ?ys\<rparr> r"
    by (auto simp: algebra_simps)
  then show ?case
    using step_first[OF load_one[OF Suc.prems(1)] step_first[OF s1(2)]] by auto
qed

lemma reaches_every_value:
  assumes "counter_is h key s start" "int64_range start" "int64_range (start + int n * delta)" "0 < delta"
    and "1 \<le> k" "k \<le> n"
  shows "\<exists>r. (race_step h key delta)\<^sup>*\<^sup>* (race_start s n) r \<and> all_stored r
     \<and> counter_is h key (shared r) (start + int k * delta)"
proof -
  let ?first = "Suc (n - k)" and ?rest = "k - 1"
  have n: "race_start s n = \<lparr>shared = s, phases = [] @ replicate ?first Ready @ replicate ?rest Ready\<rparr>"
    using assms(5,6) by (simp add: race_start_def replicate_add[symmetric] del: replicate_Suc)
  have ok: "engine_ok h s" and one: "int64_range (start + delta)"
    using assms(1,5,6) phase_bound[OF assms(2-4), of 1] by (auto simp: counter_is_def)
  obtain s1 where s1: "counter_is h key s1 (start + delta)" "(race_step h key delta)\<^sup>*\<^sup>*
     \<lparr>shared = s, phases = [] @ replicate ?first (Loaded start) @ replicate ?rest Ready\<rparr>
     \<lparr>shared = s1, phases = [] @ replicate ?first (Stored (start + delta)) @ replicate ?rest Ready\<rparr>"
    using all_store[OF one ok] by blast
  have "int64_range (start + delta + int j * delta)" if "j \<le> ?rest" for j
    using phase_bound[OF assms(2-4), of "Suc j"] that assms(5,6) by (simp add: algebra_simps)
  from turns[OF s1(1) this, of ?rest "replicate ?first (Stored (start + delta))"] obtain r where
    r: "all_stored r" "counter_is h key (shared r) (start + delta + int ?rest * delta)" "(race_step h key delta)\<^sup>*\<^sup>*
     \<lparr>shared = s1, phases = replicate ?first (Stored (start + delta)) @ replicate ?rest Ready\<rparr> r" by auto
  have "(race_step h key delta)\<^sup>*\<^sup>* (race_start s n) r"
    using all_load[OF assms(1), of delta "[]" ?first "replicate ?rest Ready"] s1(2) r(3)
    unfolding n by simp
  moreover have "start + delta + int ?rest * delta = start + int k * delta"
    using assms(5) by (simp add: of_nat_diff algebra_simps)
  ultimately show ?thesis using r by metis
qed

section \<open>Properties\<close>

text \<open>
  C13: concurrent increments lose updates, and how many is known exactly: when \<open>n\<close> workers each
  call \<open>increment\<close> once, every schedule of their engine calls ends after \<open>2 * n\<close> steps, and the
  values it can leave are exactly those of \<open>1, ..., n\<close> increments. The calls of one worker
  back to back are \<open>increment\<close>.
\<close>

theorem concurrent_increments:
  assumes "counter_is h key s start" "int64_range (start + int n * delta)" "0 < delta" "0 < n"
  shows "{v. \<exists>r. (race_step h key delta)\<^sup>*\<^sup>* (race_start s n) r \<and> all_stored r \<and> counter_is h key (shared r) v}
       = (\<lambda>k. start + int k * delta) ` {1..n}
     \<and> (\<forall>m r. (race_step h key delta ^^ m) (race_start s n) r \<longrightarrow>
          m \<le> 2 * n \<and> (all_stored r \<longleftrightarrow> m = 2 * n) \<and> (m < 2 * n \<longrightarrow> (\<exists>r'. race_step h key delta r r')))
     \<and> CounterStore_increment h now s key delta
         = bind_res (increment_read h now s key) (\<lambda>current. increment_write h s key current delta)"
proof (intro conjI allI impI set_eqI iffI)
  note params = counter_is_range[OF assms(1)] assms(2,3)
  have inv: "race_inv h key delta start n r" if "(race_step h key delta)\<^sup>*\<^sup>* (race_start s n) r" for r
    using races.inv_reachable[OF _ that] assms(1) by blast
  show "v \<in> (\<lambda>k. start + int k * delta) ` {1..n}"
    if "v \<in> {v. \<exists>r. (race_step h key delta)\<^sup>*\<^sup>* (race_start s n) r \<and> all_stored r \<and> counter_is h key (shared r) v}" for v
  proof -
    from that obtain r where r: "race_inv h key delta start n r" "all_stored r" "counter_is h key (shared r) v"
      using inv by blast
    then have "stores r = n" by (simp add: stores_all race_inv_def)
    with r(1) assms(4) obtain k where "k \<le> n" "1 \<le> k" "counter_is h key (shared r) (start + int k * delta)"
      unfolding race_inv_def by auto
    with counter_is_unique[OF r(3)] show ?thesis by auto
  qed
  show "v \<in> {v. \<exists>r. (race_step h key delta)\<^sup>*\<^sup>* (race_start s n) r \<and> all_stored r \<and> counter_is h key (shared r) v}"
    if "v \<in> (\<lambda>k. start + int k * delta) ` {1..n}" for v
    using that reaches_every_value[OF assms(1) params] by fastforce
  fix m r assume run: "(race_step h key delta ^^ m) (race_start s n) r"
  have work: "race_work r + m = 2 * n" using race_steps_work[OF run] by (simp add: work_start)
  then show "m \<le> 2 * n" by simp
  show "all_stored r \<Longrightarrow> m = 2 * n" "m = 2 * n \<Longrightarrow> all_stored r" using work by (simp_all add: work_done[symmetric])
  show "\<exists>r'. race_step h key delta r r'" if "m < 2 * n"
    using race_progress[OF inv[OF relpowp_imp_rtranclp[OF run]] params] work that by (simp add: work_done[symmetric])
qed (rule increment_split)

theorem concurrent_increments_witness:
  "{v. \<exists>r. (race_step (\<lambda>_. 0) ''n'' 1)\<^sup>*\<^sup>* (race_start StorageEngine_new 4) r \<and> all_stored r
       \<and> counter_is (\<lambda>_. 0) ''n'' (shared r) v} = {1, 2, 3, 4}"
proof -
  have "(\<lambda>k. int k) ` {1..4} = {1, 2, 3, 4::int}" by (auto simp: numeral_eq_Suc atLeastAtMostSuc_conv)
  then show ?thesis
    using concurrent_increments[OF counter_is_new, of 4 1 "\<lambda>_. 0" "''n''"] by (simp add: int64_range_def)
qed

end
