(* ===== verification/Command_Steps.thy ===== *)
theory Command_Steps
  imports Dispatcher "HOL-Library.Disjoint_Sets"
begin

text \<open>
  The commands on keys and values, one call of the engine at a time. No lock spans the
  calls that a handler makes, so between two of them other workers may call the engine.
  A \<open>program\<close> is what is left of a handler: a reply, a fault, or a call of the engine with
  what follows its answer. \<open>command_program\<close> is the program of a command; run without
  interruption it is \<open>CommandDispatcher::dispatch\<close> (\<open>dispatch_is_program\<close>). Workers that
  serve commands at the same time take the steps of \<open>call_step\<close>, in any order. A call of
  the engine itself is atomic here.
\<close>

section \<open>Programs\<close>

datatype program = Reply string | Throw fault | Call engine_op "engine_out \<Rightarrow> program"

fun out_flag :: "engine_out \<Rightarrow> bool" where
  "out_flag (Out_bool b) = b"
| "out_flag _ = False"

fun out_value :: "engine_out \<Rightarrow> string option" where
  "out_value (Out_value v) = v"
| "out_value _ = None"

fun out_count :: "engine_out \<Rightarrow> nat" where
  "out_count (Out_count n) = n"
| "out_count _ = 0"

fun exists_program :: "string list \<Rightarrow> int \<Rightarrow> program" where
  "exists_program [] count = Reply (integer_response count)"
| "exists_program (key # keys) count =
     Call (Op_exists key) (\<lambda>out. exists_program keys (if out_flag out then count + 1 else count))"

fun mget_program :: "(nat \<Rightarrow> int) \<Rightarrow> nat \<Rightarrow> string list \<Rightarrow> string option list \<Rightarrow> program" where
  "mget_program clock i [] values = Reply (mget_reply values)"
| "mget_program clock i (key # keys) values =
     Call (Op_get (clock i) key) (\<lambda>out. mget_program clock (Suc i) keys (values @ [out_value out]))"

fun mset_program :: "BatchSetPair list \<Rightarrow> program" where
  "mset_program [] = Reply ok_response"
| "mset_program (pair # pairs) = Call (Op_set (pair_key pair) (pair_value pair)) (\<lambda>_. mset_program pairs)"

definition add_program :: "int \<Rightarrow> string \<Rightarrow> int \<Rightarrow> program" where
  "add_program now key delta =
     Call (Op_get now key) (\<lambda>out.
       case bind_res (CounterStore_parse_value (out_value out)) (\<lambda>current. checked_int64 (current + delta)) of
         Inl f \<Rightarrow> Throw f
       | Inr next \<Rightarrow> Call (Op_set key (CounterStore_format_value next)) (\<lambda>_. Reply (integer_response next)))"

fun command_program :: "(nat \<Rightarrow> int) \<Rightarrow> CommandType \<Rightarrow> string list \<Rightarrow> program option" where
  "command_program clock Get [k] = Some (Call (Op_get (clock 0) k) (\<lambda>out. Reply (bulk_reply (out_value out))))"
| "command_program clock Get _ = Some (Reply (wrong_args ''GET''))"
| "command_program clock Set (k # w # ws) = Some (Call (Op_set k (join_words (w # ws))) (\<lambda>_. Reply ok_response))"
| "command_program clock Set _ = Some (Reply (wrong_args ''SET''))"
| "command_program clock Delete [k] =
     Some (Call (Op_remove k) (\<lambda>out. Reply (integer_response (if out_flag out then 1 else 0))))"
| "command_program clock Delete _ = Some (Reply (wrong_args ''DELETE''))"
| "command_program clock Exists ks =
     Some (if ks = [] then Reply (wrong_args ''EXISTS'') else exists_program ks 0)"
| "command_program clock Expire [k, ttl] =
     Some (case stoll ttl of
        Inl f \<Rightarrow> Throw f
      | Inr seconds \<Rightarrow>
          Call (Op_set_ttl (clock 0) k seconds) (\<lambda>out. Reply (integer_response (if \<not> out_flag out then 0 else 1))))"
| "command_program clock Expire _ = Some (Reply (wrong_args ''EXPIRE''))"
| "command_program clock Mget ks =
     Some (if ks = [] then Reply (wrong_args ''MGET'') else mget_program clock 0 ks [])"
| "command_program clock Mset args =
     Some (if length args < 2 \<or> length args mod 2 \<noteq> 0 then Reply (wrong_args ''MSET'')
           else mset_program (arg_pairs args))"
| "command_program clock Incr [k] = Some (add_program (clock 0) k 1)"
| "command_program clock Incr _ = Some (Reply (wrong_args ''INCR''))"
| "command_program clock Decr [k] = Some (add_program (clock 0) k (- 1))"
| "command_program clock Decr _ = Some (Reply (wrong_args ''DECR''))"
| "command_program clock Incrby [k, n] =
     Some (case stoll n of Inl f \<Rightarrow> Throw f | Inr delta \<Rightarrow> add_program (clock 0) k delta)"
| "command_program clock Incrby _ = Some (Reply (wrong_args ''INCRBY''))"
| "command_program clock Flushdb _ = Some (Call Op_clear_all (\<lambda>_. Reply ok_response))"
| "command_program clock Dbsize _ =
     Some (Call Op_entry_count (\<lambda>out. Reply (integer_response (long_long_of_size (out_count out)))))"
| "command_program _ _ _ = None"

text \<open>A program without interruption, on the engine and on the map that the engine stands for.\<close>

primrec run_program :: "hash \<Rightarrow> program \<Rightarrow> StorageEngine \<Rightarrow> (StorageEngine \<times> string) res" where
  "run_program h (Reply r) = (\<lambda>s. Inr (s, r))"
| "run_program h (Throw f) = (\<lambda>s. Inl f)"
| "run_program h (Call x k) = (\<lambda>s. bind_res (engine_step h s x) (\<lambda>(s', out). run_program h (k out) s'))"

primrec spec_program :: "program \<Rightarrow> store \<Rightarrow> (store \<times> string) res" where
  "spec_program (Reply r) = (\<lambda>m. Inr (m, r))"
| "spec_program (Throw f) = (\<lambda>m. Inl f)"
| "spec_program (Call x k) = (\<lambda>m. bind_res (spec_step m x) (\<lambda>(m', out). spec_program (k out) m'))"

text \<open>Workers in the middle of their commands: one of them makes its next call.\<close>

inductive call_step :: "hash \<Rightarrow> StorageEngine \<times> program list \<Rightarrow> StorageEngine \<times> program list \<Rightarrow> bool" for h where
  "i < length ps \<Longrightarrow> ps ! i = Call x k \<Longrightarrow> engine_step h s x = Inr (s', out) \<Longrightarrow>
     call_step h (s, ps) (s', ps[i := k out])"

inductive_cases call_stepE: "call_step h st st'"

section \<open>Programs are the handlers\<close>

lemma run_exists:
  "run_program h (exists_program ks n) s
     = Inr (s, integer_response (foldl (\<lambda>count key. if StorageEngine_exists h s key then count + 1 else count) n ks))"
  by (induction ks arbitrary: n) auto

lemma run_mget:
  "run_program h (mget_program clock i ks vs) s
     = Inr (s, mget_reply (vs @ map (\<lambda>(j, key). StorageEngine_get h (clock j) s key) (enumerate i ks)))"
  by (induction ks arbitrary: i vs) auto

lemma run_mset:
  "run_program h (mset_program pairs) s
     = bind_res (BatchOperations_mset h s pairs) (\<lambda>(s', _). Inr (s', ok_response))"
proof -
  have "run_program h (mset_program pairs) s
     = bind_res (fold_res (\<lambda>(s, written) pair. bind_res (StorageEngine_set h s (pair_key pair) (pair_value pair))
           (\<lambda>(s', ok). Inr (s', if ok then written + 1 else written))) pairs (s, n))
         (\<lambda>(s', _). Inr (s', ok_response))" for n :: nat
  proof (induction pairs arbitrary: s n)
    case (Cons pair pairs)
    then show ?case by (cases "StorageEngine_set h s (pair_key pair) (pair_value pair)") auto
  qed simp
  then show ?thesis by (simp add: BatchOperations_mset_def)
qed

lemma run_add:
  "run_program h (add_program now key delta) s
     = bind_res (CounterStore_increment h now s key delta) (\<lambda>(s', n). Inr (s', integer_response n))"
  by (cases "CounterStore_parse_value (StorageEngine_get h now s key)")
    (auto simp: add_program_def CounterStore_increment_def checked_int64_def bind_res_assoc case_prod_unfold)

text \<open>What a request leaves of the dispatcher, from what its program does to the engine.\<close>

definition served :: "CommandDispatcher \<Rightarrow> (StorageEngine \<times> string) res \<Rightarrow> (CommandDispatcher \<times> string) res" where
  "served d r = bind_res r (\<lambda>(s, reply).
     Inr (d\<lparr>metrics := MetricsCollector_record_command (metrics d), storage := s\<rparr>, reply))"

lemma served_Inr [simp]:
  "served d (Inr (s, reply)) = Inr (d\<lparr>metrics := MetricsCollector_record_command (metrics d), storage := s\<rparr>, reply)"
  by (simp add: served_def)

lemma served_Inl [simp]: "served d (Inl f) = Inl f"
  by (simp add: served_def)

lemma served_eqs:
  "d\<lparr>metrics := m, storage := storage d\<rparr> = d\<lparr>metrics := m\<rparr>"
  "on_storage f (d\<lparr>metrics := MetricsCollector_record_command (metrics d)\<rparr>) = served d (f (storage d))"
  by (simp_all add: on_storage_def served_def)

lemmas handler_defs =
  get_handler_def set_handler_def delete_handler_def exists_handler_def expire_handler_def
  handle_mget_def handle_mset_def handle_incr_def handle_decr_def handle_incrby_def handle_flushdb_def
  handle_dbsize_def BatchOperations_mget_def CounterStore_decrement_def checked_int64_def int64_range_def

lemma dispatch_is_program:
  assumes "command_program (env_clock env) (cmd_type cmd) (cmd_args cmd) = Some p"
  shows "CommandDispatcher_dispatch env d cmd = served d (run_program (env_hash env) p (storage d))"
  using assms
  by (cases "(env_clock env, cmd_type cmd, cmd_args cmd)" rule: command_program.cases)
    (auto simp: CommandDispatcher_dispatch_def handler_defs served_eqs run_exists run_mget run_mset run_add
      wrong_args_eqs bulk_reply_def served_def bind_res_assoc case_prod_unfold Let_def split: option.splits sum.splits)

section \<open>Programs refine their specification\<close>

lemma run_refines:
  assumes "engine_ok h s"
  shows "refines_store h (run_program h p s) (spec_program p (engine_view h s))"
  using assms
proof (induction p arbitrary: s)
  case (Call x k)
  note step = engine_step_refines[OF Call.prems, of x]
  show ?case
  proof (cases "engine_step h s x")
    case (Inr r)
    obtain s' out where r: "r = (s', out)" by (rule prod.exhaust)
    with step Inr have "engine_ok h s'" "spec_step (engine_view h s) x = Inr (engine_view h s', out)" by auto
    then show ?thesis using Call.IH[of "k out" s'] Inr r by simp
  qed (use step in simp)
qed (simp_all add: refines_store_def)

lemma call_step_refines:
  assumes "call_step h (s, ps) (s', ps')" "engine_ok h s"
  shows "\<exists>i x k out. i < length ps \<and> ps ! i = Call x k \<and> ps' = ps[i := k out]
     \<and> engine_ok h s' \<and> spec_step (engine_view h s) x = Inr (engine_view h s', out)"
  using assms(1)
proof (cases rule: call_step.cases)
  case (1 i x k out)
  with engine_step_refines[OF assms(2), of x] show ?thesis by auto
qed

section \<open>Commands on different keys\<close>

fun op_keys :: "engine_op \<Rightarrow> string set" where
  "op_keys (Op_set k v) = {k}"
| "op_keys (Op_get now k) = {k}"
| "op_keys (Op_remove k) = {k}"
| "op_keys (Op_exists k) = {k}"
| "op_keys (Op_set_ttl now k ttl) = {k}"
| "op_keys (Op_is_expired now k) = {k}"
| "op_keys (Op_touch now1 now2 k) = {k}"
| "op_keys _ = UNIV"

primrec touches_only :: "string set \<Rightarrow> program \<Rightarrow> bool" where
  "touches_only K (Reply r) = True"
| "touches_only K (Throw f) = True"
| "touches_only K (Call x k) = (op_keys x \<subseteq> K \<and> (\<forall>out. touches_only K (k out)))"

definition command_keys :: "CommandType \<Rightarrow> string list \<Rightarrow> string set" where
  "command_keys ty args =
     (if ty \<in> {Exists, Mget} then set args
      else if ty = Mset then pair_key ` set (arg_pairs args)
      else if ty \<in> {Flushdb, Dbsize} then UNIV
      else set (take 1 args))"

abbreviation same_on :: "string set \<Rightarrow> store \<Rightarrow> store \<Rightarrow> bool" where
  "same_on K m m' \<equiv> \<forall>k \<in> K. m k = m' k"

text \<open>A call sees and changes only its own keys.\<close>

lemma spec_step_local:
  assumes "op_keys x \<subseteq> K" "same_on K m m'" "spec_step m x = Inr (m1, out)"
  shows "\<exists>m1'. spec_step m' x = Inr (m1', out) \<and> same_on K m1 m1'" "same_on (- K) m m1"
proof -
  have *: "m = m'" if "K = UNIV" using assms(2) that by auto
  show "\<exists>m1'. spec_step m' x = Inr (m1', out) \<and> same_on K m1 m1'"
    using assms * by (cases x) (auto simp: spec_get_def split: option.splits)
  show "same_on (- K) m m1" using assms by (cases x) (auto split: option.splits)
qed

lemma touches_mget: "touches_only K (mget_program clock i ks vs) \<longleftrightarrow> set ks \<subseteq> K"
  by (induction ks arbitrary: i vs) auto

lemma touches_exists: "touches_only K (exists_program ks n) \<longleftrightarrow> set ks \<subseteq> K"
  by (induction ks arbitrary: n) auto

lemma touches_mset: "touches_only K (mset_program pairs) \<longleftrightarrow> pair_key ` set pairs \<subseteq> K"
  by (induction pairs) auto

lemma touches_add: "touches_only K (add_program now k delta) \<longleftrightarrow> k \<in> K"
  by (auto simp: add_program_def split: sum.splits)

lemma command_touches:
  "command_program clock ty args = Some p \<Longrightarrow> touches_only (command_keys ty args) p"
  by (cases "(clock, ty, args)" rule: command_program.cases)
    (auto simp: command_keys_def touches_mget touches_exists touches_mset touches_add split: sum.splits if_splits)

text \<open>
  While programs with separate keys are interleaved, each has come as far as it would have
  come alone on the initial store, and the shared store holds its keys as it left them.
\<close>

definition isolated :: "(nat \<Rightarrow> string set) \<Rightarrow> store \<Rightarrow> program list \<Rightarrow> store \<Rightarrow> program list \<Rightarrow> bool" where
  "isolated K m0 ps0 m ps \<longleftrightarrow> length ps = length ps0
     \<and> (\<forall>i < length ps. touches_only (K i) (ps ! i)
          \<and> (\<exists>mi. same_on (K i) m mi \<and> spec_program (ps0 ! i) m0 = spec_program (ps ! i) mi))
     \<and> same_on (- (\<Union>i < length ps. K i)) m0 m"

lemma isolated_step:
  assumes "isolated K m0 ps0 m ps" "i < length ps" "ps ! i = Call x k" "spec_step m x = Inr (m', out)"
    and "disjoint_family_on K {..<length ps0}"
  shows "isolated K m0 ps0 m' (ps[i := k out])"
proof -
  have len: "length ps = length ps0" and keys: "op_keys x \<subseteq> K i" "touches_only (K i) (k out)"
    using assms(1-3) by (fastforce simp: isolated_def)+
  obtain mi where mi: "same_on (K i) m mi" "spec_program (ps0 ! i) m0 = spec_program (Call x k) mi"
    using assms(1-3) unfolding isolated_def by metis
  obtain mi' where mi': "spec_step mi x = Inr (mi', out)" "same_on (K i) m' mi'"
    using spec_step_local(1)[OF keys(1) mi(1) assms(4)] by blast
  have rest: "same_on (- K i) m m'" using spec_step_local(2)[OF keys(1) mi(1) assms(4)] .
  have "\<exists>mj. same_on (K j) m' mj \<and> spec_program (ps0 ! j) m0 = spec_program (ps[i := k out] ! j) mj"
    if "j < length ps" for j
  proof (cases "j = i")
    case True
    then show ?thesis using mi(2) mi' that by auto
  next
    case False
    then have "K j \<subseteq> - K i" using disjoint_family_onD[OF assms(5), of j i] assms(2) that len by auto
    with rest have "same_on (K j) m' m" by fastforce
    then show ?thesis using assms(1) that False unfolding isolated_def by fastforce
  qed
  moreover have "same_on (- (\<Union>j < length ps. K j)) m0 m'"
    using assms(1,2) rest unfolding isolated_def by fastforce
  moreover have "touches_only (K j) (ps[i := k out] ! j)" if "j < length ps" for j
    using assms(1) keys(2) that by (cases "j = i") (auto simp: isolated_def)
  ultimately show ?thesis using len unfolding isolated_def by simp
qed

interpretation isolation: transition_system
  "\<lambda>(s, ps). s = s0 \<and> ps = ps0 \<and> engine_ok h s0 \<and> disjoint_family_on K {..<length ps0}
     \<and> (\<forall>i < length ps0. touches_only (K i) (ps0 ! i))"
  "call_step h"
  "\<lambda>(s, ps). engine_ok h s \<and> disjoint_family_on K {..<length ps0} \<and> isolated K (engine_view h s0) ps0 (engine_view h s) ps"
  for h s0 ps0 K
proof (unfold_locales, goal_cases)
  case (1 st)
  then show ?case by (auto simp: isolated_def)
next
  case (2 st st')
  obtain s ps s' ps' where st: "st = (s, ps)" "st' = (s', ps')" by fastforce
  with 2 call_step_refines[of h s ps s' ps'] obtain i x k out where
    "i < length ps" "ps ! i = Call x k" "ps' = ps[i := k out]" "engine_ok h s'"
    "spec_step (engine_view h s) x = Inr (engine_view h s', out)" by blast
  with 2 st show ?case by (auto intro: isolated_step)
qed

lemma isolated_reachable:
  assumes "(call_step h)\<^sup>*\<^sup>* (s0, ps0) (s, ps)" "engine_ok h s0" "disjoint_family_on K {..<length ps0}"
    and "\<forall>i < length ps0. touches_only (K i) (ps0 ! i)"
  shows "engine_ok h s" "isolated K (engine_view h s0) ps0 (engine_view h s) ps"
  using isolation.inv_reachable[where s = "(s0, ps0)" and t = "(s, ps)" and h = h and K = K and ?s0.0 = s0 and ?ps0.0 = ps0]
    assms by simp_all

text \<open>A program that would return alone is never stuck, and its reply is the one it would give alone.\<close>

lemma isolated_next:
  assumes "isolated K (engine_view h s0) ps0 (engine_view h s) ps" "engine_ok h s" "i < length ps"
    and "spec_program (ps0 ! i) (engine_view h s0) = Inr (mi, r)" "\<And>st. \<not> call_step h (s, ps) st"
  shows "ps ! i = Reply r \<and> same_on (K i) (engine_view h s) mi"
proof -
  obtain m where m: "same_on (K i) (engine_view h s) m" "spec_program (ps ! i) m = Inr (mi, r)"
    "touches_only (K i) (ps ! i)"
    using assms(1,3,4) unfolding isolated_def by metis
  show ?thesis
  proof (cases "ps ! i")
    case (Call x k)
    then obtain m' out where "spec_step m x = Inr (m', out)" using m(2) by auto
    then obtain m'' where "spec_step (engine_view h s) x = Inr (m'', out)"
      using spec_step_local(1)[of x "K i" m "engine_view h s"] m(1,3) Call by auto
    then obtain s' where "engine_step h s x = Inr (s', out)"
      using engine_step_refines[OF assms(2), of x] by (auto split: sum.splits)
    then show ?thesis using assms(3,5) Call call_step.intros by blast
  qed (use m in auto)
qed

section \<open>The number of calls\<close>

primrec calls_within :: "program \<Rightarrow> nat \<Rightarrow> bool" where
  "calls_within (Reply r) = (\<lambda>n. True)"
| "calls_within (Throw f) = (\<lambda>n. True)"
| "calls_within (Call x k) = (\<lambda>n. 0 < n \<and> (\<forall>out. calls_within (k out) (n - 1)))"

lemma calls_within_mget: "calls_within (mget_program clock i ks vs) n \<longleftrightarrow> length ks \<le> n"
  by (induction ks arbitrary: i vs n) auto

lemma calls_within_exists: "calls_within (exists_program ks c) n \<longleftrightarrow> length ks \<le> n"
  by (induction ks arbitrary: c n) auto

lemma calls_within_mset: "calls_within (mset_program pairs) n \<longleftrightarrow> length pairs \<le> n"
proof (induction pairs arbitrary: n)
  case (Cons pair pairs)
  then show ?case by (cases n) simp_all
qed simp

lemma calls_within_add: "2 \<le> n \<Longrightarrow> calls_within (add_program now k delta) n"
  by (auto simp: add_program_def split: sum.splits)

lemma arg_pairs_length: "length (arg_pairs args) \<le> length args"
  by (induction args rule: arg_pairs.induct) auto

text \<open>\<open>FLUSHDB\<close> and \<open>DBSIZE\<close> make one call without an argument, \<open>INCR\<close> and \<open>DECR\<close> two with one.\<close>

lemma command_calls:
  "command_program clock ty args = Some p \<Longrightarrow> calls_within p (length args + 1)"
  using arg_pairs_length[of args]
  by (cases "(clock, ty, args)" rule: command_program.cases)
    (auto simp: calls_within_mget calls_within_exists calls_within_mset calls_within_add split: sum.splits if_splits)

lemma calls_bounded:
  assumes "(call_step h ^^ m) (s0, ps0) (s, ps)" "list_all2 calls_within ps0 ns"
  shows "m \<le> sum_list ns"
  using assms
proof (induction m arbitrary: s0 ps0 ns)
  case (Suc m)
  then obtain st where st: "call_step h (s0, ps0) st" "(call_step h ^^ m) st (s, ps)"
    by (meson relpowp_Suc_D2)
  from st(1) obtain i x k s1 out where c: "i < length ps0" "ps0 ! i = Call x k" "st = (s1, ps0[i := k out])"
    by (auto elim!: call_stepE)
  have n: "0 < ns ! i" "i < length ns" "calls_within (k out) (ns ! i - 1)"
    using Suc.prems(2) c(1,2) by (auto dest: list_all2_nthD list_all2_lengthD)
  have "m \<le> sum_list (ns[i := ns ! i - 1])"
    using Suc.IH[OF st(2)[unfolded c(3)]] list_all2_update_cong[OF Suc.prems(2) n(3)] by blast
  moreover have "sum_list (ns[i := ns ! i - 1]) < sum_list ns"
    using n(1,2) elem_le_sum_list[OF n(2)] by (simp add: sum_list_update)
  ultimately show ?case by simp
qed simp

section \<open>Requests\<close>

text \<open>A request: what a worker reads from outside, and the parsed command.\<close>

type_synonym request = "call_env \<times> ParsedCommand"

definition request_program :: "request \<Rightarrow> program option" where
  "request_program rq = command_program (env_clock (fst rq)) (cmd_type (snd rq)) (cmd_args (snd rq))"

definition request_keys :: "request \<Rightarrow> string set" where
  "request_keys rq = command_keys (cmd_type (snd rq)) (cmd_args (snd rq))"

abbreviation answer :: "CommandDispatcher \<Rightarrow> request \<Rightarrow> (CommandDispatcher \<times> string) res" where
  "answer d rq \<equiv> CommandDispatcher_dispatch (fst rq) d (snd rq)"

lemma map_eq_nth: "map f xs = map g ys \<Longrightarrow> i < length xs \<Longrightarrow> f (xs ! i) = g (ys ! i)"
  by (metis length_map nth_map)

lemma answer_program:
  "request_program rq = Some p \<Longrightarrow> answer d rq = served d (run_program (env_hash (fst rq)) p (storage d))"
  by (simp add: request_program_def dispatch_is_program)

lemma answer_spec:
  assumes "request_program rq = Some p" "env_hash (fst rq) = h" "engine_ok h (storage d)" "answer d rq = Inr (d', r)"
  shows "spec_program p (stored h d) = Inr (stored h d', r)"
  using run_refines[OF assms(3), of p] answer_program[OF assms(1), of d] assms(2,4)
  by (cases "run_program h p (storage d)") (auto simp: refines_store_def)

lemma answer_total:
  assumes "request_program rq = Some p" "env_hash (fst rq) = h" "engine_ok h (storage d)"
    and "spec_program p (stored h d) = Inr (m, r)"
  shows "\<exists>d'. answer d rq = Inr d'"
  using run_refines[OF assms(3), of p] answer_program[OF assms(1), of d] assms(2,4)
  by (cases "run_program h p (storage d)") auto

section \<open>Commands that make one call\<close>

definition single_call :: "CommandType \<Rightarrow> string list \<Rightarrow> bool" where
  "single_call ty args \<longleftrightarrow>
     ty \<in> {Get, Set, Delete, Expire, Flushdb, Dbsize}
     \<or> ty \<in> {Exists, Mget} \<and> length args \<le> 1 \<or> ty = Mset \<and> length args \<le> 2"

text \<open>Requests one after the other, with their replies.\<close>

primrec serve :: "request list \<Rightarrow> CommandDispatcher \<Rightarrow> (CommandDispatcher \<times> string list) res" where
  "serve [] d = Inr (d, [])"
| "serve (rq # rqs) d =
     bind_res (answer d rq) (\<lambda>(d1, r). bind_res (serve rqs d1) (\<lambda>(d2, rs). Inr (d2, r # rs)))"

fun reply_of :: "program \<Rightarrow> string option" where
  "reply_of (Reply r) = Some r"
| "reply_of _ = None"

lemma reply_of_eq: "reply_of p = Some r \<longleftrightarrow> p = Reply r"
  by (cases p) auto

lemma serve_snoc:
  "serve (rqs @ [rq]) d = bind_res (serve rqs d) (\<lambda>(d1, rs). bind_res (answer d1 rq) (\<lambda>(d2, r). Inr (d2, rs @ [r])))"
proof (induction rqs arbitrary: d)
  case (Cons x rqs)
  then show ?case by (cases "answer d x") (auto simp: bind_res_assoc case_prod_unfold)
qed (simp add: case_prod_unfold)

lemma single_call_replies:
  assumes "request_program rq = Some (Call x k)" "single_call (cmd_type (snd rq)) (cmd_args (snd rq))"
  shows "\<exists>r. k out = Reply r"
  using assms unfolding request_program_def single_call_def
  by (cases "(env_clock (fst rq), cmd_type (snd rq), cmd_args (snd rq))" rule: command_program.cases)
    (auto simp: le_Suc_eq length_Suc_conv numeral_eq_Suc split: sum.splits if_splits)

lemma serve_replies:
  assumes "\<forall>rq \<in> set rqs. \<exists>r. request_program rq = Some (Reply r)"
  shows "\<exists>d' rs. serve rqs d = Inr (d', rs) \<and> storage d' = storage d
     \<and> map request_program rqs = map (Some \<circ> Reply) rs"
  using assms
proof (induction rqs arbitrary: d)
  case (Cons rq rqs)
  then obtain r where r: "request_program rq = Some (Reply r)" by auto
  let ?d = "d\<lparr>metrics := MetricsCollector_record_command (metrics d), storage := storage d\<rparr>"
  obtain d' rs where "serve rqs ?d = Inr (d', rs)" "storage d' = storage d"
    "map request_program rqs = map (Some \<circ> Reply) rs"
    using Cons.IH[of ?d] Cons.prems by auto
  then show ?case using r answer_program[OF r, of d] by (intro exI[of _ d'] exI[of _ "r # rs"]) simp
qed simp

text \<open>
  At every moment the requests that have been answered, in the order of their calls, give
  the same replies and leave the same engine when they are served one after the other.
\<close>

definition serial :: "request list \<Rightarrow> program list \<Rightarrow> CommandDispatcher \<Rightarrow> nat list \<Rightarrow> StorageEngine \<times> program list \<Rightarrow> bool" where
  "serial rqs ps0 d order st \<longleftrightarrow> (case st of (s, ps) \<Rightarrow>
     length ps = length ps0 \<and> distinct order \<and> set order = {i. i < length ps0 \<and> reply_of (ps ! i) \<noteq> None}
     \<and> (\<forall>i < length ps0. i \<notin> set order \<longrightarrow> ps ! i = ps0 ! i)
     \<and> (\<exists>d' rs. serve (map (nth rqs) order) d = Inr (d', rs) \<and> storage d' = s
          \<and> map (\<lambda>i. ps ! i) order = map Reply rs))"

lemma serial_start:
  assumes "map request_program rqs = map Some ps"
  shows "serial rqs ps d (filter (\<lambda>i. reply_of (ps ! i) \<noteq> None) [0..<length ps]) (storage d, ps)"
proof -
  let ?order = "filter (\<lambda>i. reply_of (ps ! i) \<noteq> None) [0..<length ps]"
  have len: "length ps = length rqs" using assms by (auto dest: map_eq_imp_length_eq)
  have prog: "request_program (rqs ! i) = Some (ps ! i)" if "i < length ps" for i
    using map_eq_nth[OF assms, of i] that len by simp
  have "\<exists>r. request_program rq = Some (Reply r)" if "rq \<in> set (map (nth rqs) ?order)" for rq
    using that prog by (auto simp: reply_of_eq)
  then obtain d' rs where r: "serve (map (nth rqs) ?order) d = Inr (d', rs)" "storage d' = storage d"
    "map request_program (map (nth rqs) ?order) = map (Some \<circ> Reply) rs"
    using serve_replies[of "map (nth rqs) ?order" d] by blast
  have "map Some (map (\<lambda>i. ps ! i) ?order) = map request_program (map (nth rqs) ?order)"
    using prog by (auto intro!: map_cong)
  with r(3) have "map Some (map (\<lambda>i. ps ! i) ?order) = map Some (map Reply rs)" by simp
  then have "map (\<lambda>i. ps ! i) ?order = map Reply rs" by (simp only: inj_map_eq_map[OF inj_Some])
  with r(1,2) show ?thesis by (auto simp: serial_def)
qed

lemma serial_step:
  assumes "serial rqs ps0 d order (s, ps)" "i < length ps" "ps ! i = Call x k" "engine_step h s x = Inr (s', out)"
    and "map request_program rqs = map Some ps0" "\<forall>rq \<in> set rqs. env_hash (fst rq) = h"
    and "\<forall>rq \<in> set rqs. single_call (cmd_type (snd rq)) (cmd_args (snd rq))"
  shows "serial rqs ps0 d (order @ [i]) (s', ps[i := k out])"
proof -
  obtain d' rs where len: "length ps = length ps0" and order: "distinct order"
    "set order = {i. i < length ps0 \<and> reply_of (ps ! i) \<noteq> None}" "\<forall>i < length ps0. i \<notin> set order \<longrightarrow> ps ! i = ps0 ! i"
    and d': "serve (map (nth rqs) order) d = Inr (d', rs)" "storage d' = s" "map (\<lambda>i. ps ! i) order = map Reply rs"
    using assms(1) unfolding serial_def prod.case by (elim conjE exE) (rule that)
  have n: "length ps0 = length rqs" using assms(5) by (auto dest: map_eq_imp_length_eq)
  have i: "i < length rqs" "i \<notin> set order" "rqs ! i \<in> set rqs" using assms(2,3) len n order(2) by auto
  then have rq: "request_program (rqs ! i) = Some (Call x k)"
    using map_eq_nth[OF assms(5), of i] order(3) assms(3) n by simp
  obtain r where r: "k out = Reply r" using single_call_replies[OF rq] assms(7) i(3) by blast
  have "answer d' (rqs ! i) = Inr (d'\<lparr>metrics := MetricsCollector_record_command (metrics d'), storage := s'\<rparr>, r)"
    using answer_program[OF rq, of d'] assms(4,6) d'(2) r i(3) by simp
  then have "serve (map (nth rqs) (order @ [i])) d
      = Inr (d'\<lparr>metrics := MetricsCollector_record_command (metrics d'), storage := s'\<rparr>, rs @ [r])"
    using d'(1) by (simp add: serve_snoc)
  moreover have "map (\<lambda>j. ps[i := k out] ! j) order = map (\<lambda>j. ps ! j) order"
    using i(2) by (intro map_cong refl) (metis nth_list_update_neq)
  then have "map (\<lambda>j. ps[i := k out] ! j) (order @ [i]) = map Reply (rs @ [r])"
    using d'(3) assms(2) r by simp
  moreover have "set (order @ [i]) = {j. j < length ps0 \<and> reply_of (ps[i := k out] ! j) \<noteq> None}"
    using order(2) r assms(2) len by (auto simp: nth_list_update)
  moreover have "\<forall>j < length ps0. j \<notin> set (order @ [i]) \<longrightarrow> ps[i := k out] ! j = ps0 ! j"
    using order(3) by auto
  ultimately show ?thesis using len order(1) i(2) unfolding serial_def prod.case by fastforce
qed

section \<open>Properties\<close>


abbreviation example_requests :: "request list" where
  "example_requests \<equiv>
     [(quiet_env, \<lparr>cmd_type = Incr, cmd_name = ''INCR'', cmd_args = [''n'']\<rparr>),
      (quiet_env, \<lparr>cmd_type = Set, cmd_name = ''SET'', cmd_args = [''k'', ''v'']\<rparr>)]"

text \<open>\<open>INCR n\<close> reads, \<open>SET k v\<close> writes, \<open>INCR n\<close> writes.\<close>

lemma example_interleaving:
  "\<exists>s. (call_step (\<lambda>_. 0) ^^ 3)
     (StorageEngine_new, [add_program 0 ''n'' 1, Call (Op_set ''k'' ''v'') (\<lambda>_. Reply ok_response)])
     (s, [Reply (integer_response 1), Reply ok_response])"
proof -
  let ?h = "\<lambda>_. 0" and ?put = "Call (Op_set ''k'' ''v'') (\<lambda>_. Reply ok_response)"
  let ?store = "Call (Op_set ''n'' (CounterStore_format_value 1)) (\<lambda>_. Reply (integer_response 1))"
  obtain k where k: "add_program 0 ''n'' 1 = Call (Op_get 0 ''n'') k" "k (Out_value None) = ?store"
    by (simp add: add_program_def CounterStore_parse_value_def checked_int64_def int64_range_def)
  have "call_step ?h (StorageEngine_new, [add_program 0 ''n'' 1, ?put]) (StorageEngine_new, [?store, ?put])"
    using call_step.intros[of 0 "[add_program 0 ''n'' 1, ?put]" _ k ?h StorageEngine_new _ "Out_value None"] k
    by (simp add: get_correct engine_view_new spec_get_def)
  moreover obtain s1 where s1: "engine_ok ?h s1" "StorageEngine_set ?h StorageEngine_new ''k'' ''v'' = Inr (s1, True)"
    using set_correct[OF engine_ok_new] by blast
  have "call_step ?h (StorageEngine_new, [?store, ?put]) (s1, [?store, Reply ok_response])"
    using call_step.intros[of 1 "[?store, ?put]" _ _ ?h StorageEngine_new s1 "Out_bool True"] s1 by simp
  moreover obtain s2 where s2: "StorageEngine_set ?h s1 ''n'' (CounterStore_format_value 1) = Inr (s2, True)"
    using set_correct[OF s1(1)] by blast
  have "call_step ?h (s1, [?store, Reply ok_response]) (s2, [Reply (integer_response 1), Reply ok_response])"
    using call_step.intros[of 0 "[?store, Reply ok_response]" _ _ ?h s1 s2 "Out_bool True"] s2 by simp
  ultimately show ?thesis by (auto simp: numeral_eq_Suc)
qed



abbreviation example_pair :: "request list" where
  "example_pair \<equiv>
     [(quiet_env, \<lparr>cmd_type = Set, cmd_name = ''SET'', cmd_args = [''k'', ''v'']\<rparr>),
      (quiet_env, \<lparr>cmd_type = Get, cmd_name = ''GET'', cmd_args = [''k'']\<rparr>)]"

text \<open>\<open>GET k\<close> is called before \<open>SET k v\<close>.\<close>

lemma example_pair_run:
  fixes get
  defines "get \<equiv> Call (Op_get 0 ''k'') (\<lambda>out. Reply (bulk_reply (out_value out)))"
  shows "\<exists>s. (call_step (\<lambda>_. 0))\<^sup>*\<^sup>*
     (StorageEngine_new, [Call (Op_set ''k'' ''v'') (\<lambda>_. Reply ok_response), get])
     (s, [Reply ok_response, Reply null_bulk_response])"
proof -
  let ?h = "\<lambda>_. 0" and ?put = "Call (Op_set ''k'' ''v'') (\<lambda>_. Reply ok_response)"
  obtain s1 where s1: "StorageEngine_set ?h StorageEngine_new ''k'' ''v'' = Inr (s1, True)"
    using set_correct[OF engine_ok_new] by blast
  have "call_step ?h (StorageEngine_new, [?put, get]) (StorageEngine_new, [?put, Reply null_bulk_response])"
    using call_step.intros[of 1 "[?put, get]" _ _ ?h StorageEngine_new StorageEngine_new "Out_value None"]
    by (simp add: get_def get_correct engine_view_new spec_get_def bulk_reply_def)
  moreover have "call_step ?h (StorageEngine_new, [?put, Reply null_bulk_response])
      (s1, [Reply ok_response, Reply null_bulk_response])"
    using call_step.intros[of 0 "[?put, Reply null_bulk_response]" _ _ ?h StorageEngine_new s1 "Out_bool True"] s1
    by simp
  ultimately show ?thesis by (meson converse_rtranclp_into_rtranclp rtranclp.rtrancl_refl)
qed


end
