(* ===== verification/Hook_Races.thy ===== *)
theory Hook_Races
  imports Persistence
begin

text \<open>
  Workers that write through \<open>StorageHooks\<close> (src/storage/storage_hooks.cpp) at the same time. A
  hook calls the engine and then appends to the log; the log has a mutex of its own
  (src/persistence/aof_log.cpp), but nothing holds the two calls together. Each of them is one
  step here. A worker makes one call: \<open>Called\<close> before the engine is, \<open>Applied\<close> with the line
  it still has to append, \<open>Returned\<close> with the result.
\<close>

section \<open>Model\<close>

datatype hook_request = Hook_set string string | Hook_remove string

datatype hook_phase = Called hook_request | Applied aof_record | Returned bool

text \<open>The two halves of \<open>StorageHooks::set\<close> and \<open>StorageHooks::remove\<close>.\<close>

fun hook_apply :: "hash \<Rightarrow> StorageEngine \<Rightarrow> hook_request \<Rightarrow> (StorageEngine \<times> hook_phase) res" where
  "hook_apply h s (Hook_set key value) =
     bind_res (StorageEngine_set h s key value)
       (\<lambda>(s', ok). Inr (s', if ok then Applied (Aof_set key value) else Returned False))"
| "hook_apply h s (Hook_remove key) =
     (let (s', ok) = StorageEngine_remove h s key in Inr (s', if ok then Applied (Aof_del key) else Returned False))"

fun hook_append :: "bool \<Rightarrow> disk \<Rightarrow> AofLog \<Rightarrow> aof_record \<Rightarrow> disk \<times> AofLog" where
  "hook_append open_ok d a (Aof_set key value) = AofLog_append_set open_ok d a key value"
| "hook_append open_ok d a (Aof_del key) = AofLog_append_del open_ok d a key"

record hooks_run =
  hook_engine :: StorageEngine
  hook_disk :: disk
  hook_log :: AofLog
  hook_phases :: "hook_phase list"

definition hooks_start :: "StorageEngine \<Rightarrow> disk \<Rightarrow> AofLog \<Rightarrow> hook_request list \<Rightarrow> hooks_run" where
  "hooks_start s d a rqs = \<lparr>hook_engine = s, hook_disk = d, hook_log = a, hook_phases = map Called rqs\<rparr>"

inductive hook_step :: "hash \<Rightarrow> hooks_run \<Rightarrow> hooks_run \<Rightarrow> bool" for h where
  engine: "i < length (hook_phases r) \<Longrightarrow> hook_phases r ! i = Called rq \<Longrightarrow>
     hook_apply h (hook_engine r) rq = Inr (s', ph) \<Longrightarrow>
     hook_step h r (r\<lparr>hook_engine := s', hook_phases := (hook_phases r)[i := ph]\<rparr>)"
| append: "i < length (hook_phases r) \<Longrightarrow> hook_phases r ! i = Applied line \<Longrightarrow>
     hook_append open_ok (hook_disk r) (hook_log r) line = (d', a') \<Longrightarrow>
     hook_step h r (r\<lparr>hook_disk := d', hook_log := a', hook_phases := (hook_phases r)[i := Returned True]\<rparr>)"

inductive_cases hook_stepE: "hook_step h r r'"

text \<open>The halves back to back are the hooks.\<close>

fun finish_hook :: "bool \<Rightarrow> disk \<Rightarrow> AofLog \<Rightarrow> StorageEngine \<times> hook_phase \<Rightarrow> (StorageEngine \<times> disk \<times> AofLog) \<times> bool" where
  "finish_hook open_ok d a (s, Applied line) = (let (d', a') = hook_append open_ok d a line in ((s, d', a'), True))"
| "finish_hook open_ok d a (s, ph) = ((s, d, a), False)"

lemma hook_set_split:
  "StorageHooks_set h open_ok (s, d, a) k v
     = bind_res (hook_apply h s (Hook_set k v)) (\<lambda>r. Inr (finish_hook open_ok d a r))"
  by (cases "StorageEngine_set h s k v") (auto simp: StorageHooks_set_def Let_def split: prod.splits)

lemma hook_remove_split:
  "Inr (StorageHooks_remove h open_ok (s, d, a) k)
     = bind_res (hook_apply h s (Hook_remove k)) (\<lambda>r. Inr (finish_hook open_ok d a r))"
  by (auto simp: StorageHooks_remove_def Let_def split: prod.splits)

section \<open>What the log says\<close>

definition log_view :: "hash \<Rightarrow> disk \<Rightarrow> store \<Rightarrow> bool" where
  "log_view h d m \<longleftrightarrow> (\<exists>r. log_consistent h d r \<and> engine_view h r = m)"

lemma log_view_consistent: "log_view h d (engine_view h s) \<longleftrightarrow> log_consistent h d s"
  by (auto simp: log_view_def log_consistent_def)

lemma log_view_unique: "log_view h d m \<Longrightarrow> log_view h d m' \<Longrightarrow> m = m'"
  by (auto simp: log_view_def log_consistent_def)

lemma append_view:
  assumes "log_view h d m" "stream_open a" "aof_good line" "hook_append open_ok d a line = (d', a')"
  shows "stream_open a'" "log_view h d' (m(line_key line := line_value line))"
proof -
  obtain r where r: "log_consistent h d r" "engine_view h r = m" using assms(1) by (auto simp: log_view_def)
  then obtain q where q: "engine_ok h q" "engine_view h q = m" by (auto simp: log_consistent_def)
  have apply_line: "\<exists>q'. aof_apply h q line = Inr q' \<and> engine_ok h q' \<and> engine_view h q' = m(line_key line := line_value line)"
    if "engine_ok h q" "engine_view h q = m" for q
    using aof_apply_view[OF that(1), of line] that(2) by simp
  from apply_line[OF q] obtain q' where q': "engine_view h q' = m(line_key line := line_value line)" by blast
  have "aof_file d' = Some ((case aof_file d of None \<Rightarrow> [] | Some c \<Rightarrow> c) @ aof_line line @ [newline]) \<and> a' = a"
    using assms(2,4) by (cases line) (auto simp: AofLog_append_set_def AofLog_append_del_def write_line_open)
  then have "log_consistent h d' q'" "a' = a"
    using append_record_consistent[OF r(1) assms(3)] apply_line r(2) q' by auto
  then show "stream_open a'" "log_view h d' (m(line_key line := line_value line))"
    using assms(2) q' by (auto simp: log_view_def)
qed

section \<open>Requests on different keys\<close>

fun request_line :: "hook_request \<Rightarrow> aof_record" where
  "request_line (Hook_set k v) = Aof_set k v"
| "request_line (Hook_remove k) = Aof_del k"

abbreviation hook_key :: "hook_request \<Rightarrow> string" where
  "hook_key rq \<equiv> line_key (request_line rq)"

abbreviation hook_value :: "hook_request \<Rightarrow> StorageEntry option" where
  "hook_value rq \<equiv> line_value (request_line rq)"

text \<open>\<open>set\<close> always succeeds, \<open>remove\<close> when the key is there.\<close>

fun hook_result :: "store \<Rightarrow> hook_request \<Rightarrow> bool" where
  "hook_result m (Hook_set k v) = True"
| "hook_result m (Hook_remove k) = (m k \<noteq> None)"

lemma apply_spec:
  assumes "engine_ok h s"
  shows "\<exists>s'. hook_apply h s rq
       = Inr (s', if hook_result (engine_view h s) rq then Applied (request_line rq) else Returned False)
     \<and> engine_ok h s' \<and> engine_view h s' = (engine_view h s)(hook_key rq := hook_value rq)"
proof (cases rq)
  case (Hook_set k v)
  then show ?thesis using set_correct[OF assms, of k v] by auto
next
  case (Hook_remove k)
  obtain s' b where r: "StorageEngine_remove h s k = (s', b)" by (rule prod.exhaust)
  then show ?thesis using remove_correct[OF assms r] Hook_remove by simp
qed

fun hook_progress :: "store \<Rightarrow> hook_request \<Rightarrow> StorageEntry option \<Rightarrow> hook_phase \<Rightarrow> bool" where
  "hook_progress m0 rq e (Called rq') \<longleftrightarrow> rq' = rq \<and> e = m0 (hook_key rq)"
| "hook_progress m0 rq e (Applied line) \<longleftrightarrow> line = request_line rq \<and> hook_result m0 rq \<and> e = hook_value rq"
| "hook_progress m0 rq e (Returned b) \<longleftrightarrow> b = hook_result m0 rq \<and> e = hook_value rq"

text \<open>The log agrees with the engine on every key that has no line still to be appended.\<close>

definition log_behind :: "hash \<Rightarrow> hooks_run \<Rightarrow> bool" where
  "log_behind h r \<longleftrightarrow> (\<exists>m. log_view h (hook_disk r) m
     \<and> (\<forall>k. (\<forall>line. Applied line \<in> set (hook_phases r) \<longrightarrow> line_key line \<noteq> k) \<longrightarrow> m k = engine_view h (hook_engine r) k))"

definition requests_ok :: "hook_request list \<Rightarrow> bool" where
  "requests_ok rqs \<longleftrightarrow> distinct (map hook_key rqs) \<and> (\<forall>rq \<in> set rqs. aof_good (request_line rq))"

definition hooks_inv :: "hash \<Rightarrow> store \<Rightarrow> hook_request list \<Rightarrow> hooks_run \<Rightarrow> bool" where
  "hooks_inv h m0 rqs r \<longleftrightarrow>
     requests_ok rqs \<and> engine_ok h (hook_engine r) \<and> stream_open (hook_log r) \<and> length (hook_phases r) = length rqs
     \<and> (\<forall>i < length rqs. hook_progress m0 (rqs ! i) (engine_view h (hook_engine r) (hook_key (rqs ! i))) (hook_phases r ! i))
     \<and> (\<forall>k. k \<notin> hook_key ` set rqs \<longrightarrow> engine_view h (hook_engine r) k = m0 k)
     \<and> log_behind h r"

lemma keys_apart:
  "requests_ok rqs \<Longrightarrow> i < length rqs \<Longrightarrow> j < length rqs \<Longrightarrow> i \<noteq> j \<Longrightarrow> hook_key (rqs ! i) \<noteq> hook_key (rqs ! j)"
  by (auto simp: requests_ok_def distinct_conv_nth)

lemma result_cong: "m (hook_key rq) = m' (hook_key rq) \<Longrightarrow> hook_result m rq = hook_result m' rq"
  by (cases rq) auto

lemma inv_engine:
  assumes "hooks_inv h m0 rqs r" "i < length (hook_phases r)" "hook_phases r ! i = Called rq"
    and "hook_apply h (hook_engine r) rq = Inr (s', ph)"
  shows "hooks_inv h m0 rqs (r\<lparr>hook_engine := s', hook_phases := (hook_phases r)[i := ph]\<rparr>)"
proof -
  let ?v = "engine_view h (hook_engine r)" and ?ps = "hook_phases r"
  have inv: "requests_ok rqs" "engine_ok h (hook_engine r)" "length ?ps = length rqs"
    "\<And>j. j < length rqs \<Longrightarrow> hook_progress m0 (rqs ! j) (?v (hook_key (rqs ! j))) (?ps ! j)" "log_behind h r"
    using assms(1) by (auto simp: hooks_inv_def)
  have i: "i < length rqs" "rq = rqs ! i" "?v (hook_key rq) = m0 (hook_key rq)"
    using inv(3) inv(4)[of i] assms(2,3) by auto
  have s': "engine_ok h s'" "engine_view h s' = ?v(hook_key rq := hook_value rq)"
    and ph: "ph = (if hook_result m0 rq then Applied (request_line rq) else Returned False)"
    using apply_spec[OF inv(2), of rq] assms(4) result_cong[of ?v rq m0, OF i(3)] by auto
  have "hook_progress m0 (rqs ! j) (engine_view h s' (hook_key (rqs ! j))) (?ps[i := ph] ! j)" if "j < length rqs" for j
    using inv(4)[OF that] s'(2) ph i inv(3) keys_apart[OF inv(1) that i(1)] by (cases "j = i") auto
  moreover have "log_behind h (r\<lparr>hook_engine := s', hook_phases := ?ps[i := ph]\<rparr>)"
  proof -
    obtain m where m: "log_view h (hook_disk r) m"
      "\<And>k. (\<forall>line. Applied line \<in> set ?ps \<longrightarrow> line_key line \<noteq> k) \<Longrightarrow> m k = ?v k"
      using inv(5) by (auto simp: log_behind_def)
    have "m k = engine_view h s' k" if "\<forall>line. Applied line \<in> set (?ps[i := ph]) \<longrightarrow> line_key line \<noteq> k" for k
    proof -
      have "Applied line \<in> set (?ps[i := ph])" if "Applied line \<in> set ?ps" for line
        using that assms(2,3) by (metis hook_phase.distinct(1) in_set_conv_nth length_list_update nth_list_update_neq)
      then have mk: "m k = ?v k" using m(2) that by blast
      moreover have "hook_result m0 rq \<Longrightarrow> k \<noteq> hook_key rq"
        using that set_update_memI[OF assms(2), of ph] ph by auto
      moreover have "\<not> hook_result m0 rq \<Longrightarrow> hook_value rq = ?v (hook_key rq)"
        using i(3) by (cases rq) auto
      ultimately show ?thesis using s'(2) by (cases "hook_result m0 rq") auto
    qed
    with m(1) show ?thesis by (auto simp: log_behind_def)
  qed
  moreover have "hook_key rq \<in> hook_key ` set rqs" using i by simp
  ultimately show ?thesis using assms(1) s' inv unfolding hooks_inv_def by auto
qed

lemma inv_append:
  assumes "hooks_inv h m0 rqs r" "i < length (hook_phases r)" "hook_phases r ! i = Applied line"
    and "hook_append open_ok (hook_disk r) (hook_log r) line = (d', a')"
  shows "hooks_inv h m0 rqs (r\<lparr>hook_disk := d', hook_log := a', hook_phases := (hook_phases r)[i := Returned True]\<rparr>)"
proof -
  let ?v = "engine_view h (hook_engine r)" and ?ps = "hook_phases r"
  have inv: "requests_ok rqs" "stream_open (hook_log r)" "length ?ps = length rqs"
    "\<And>j. j < length rqs \<Longrightarrow> hook_progress m0 (rqs ! j) (?v (hook_key (rqs ! j))) (?ps ! j)" "log_behind h r"
    using assms(1) by (auto simp: hooks_inv_def)
  have i: "i < length rqs" "line = request_line (rqs ! i)" "?v (line_key line) = line_value line" "hook_result m0 (rqs ! i)"
    using inv(3) inv(4)[of i] assms(2,3) by auto
  have good: "aof_good line" using inv(1) i(1,2) by (simp add: requests_ok_def)
  obtain m where m: "log_view h (hook_disk r) m"
    "\<And>k. (\<forall>line. Applied line \<in> set ?ps \<longrightarrow> line_key line \<noteq> k) \<Longrightarrow> m k = ?v k"
    using inv(5) by (auto simp: log_behind_def)
  note app = append_view[OF m(1) inv(2) good assms(4)]
  have "(m(line_key line := line_value line)) k = ?v k"
    if "\<forall>l. Applied l \<in> set (?ps[i := Returned True]) \<longrightarrow> line_key l \<noteq> k" for k
  proof (cases "k = line_key line")
    case False
    have "line_key l \<noteq> k" if "Applied l \<in> set ?ps" for l
    proof -
      from that obtain j where j: "j < length ?ps" "?ps ! j = Applied l" by (auto simp: in_set_conv_nth)
      show ?thesis
      proof (cases "j = i")
        case True
        then show ?thesis using j assms(3) False by simp
      next
        case False
        then have "Applied l \<in> set (?ps[i := Returned True])" using j by (metis length_list_update nth_list_update_neq nth_mem)
        then show ?thesis using \<open>\<forall>l. Applied l \<in> set (?ps[i := Returned True]) \<longrightarrow> line_key l \<noteq> k\<close> by blast
      qed
    qed
    then show ?thesis using m(2) False by simp
  qed (use i(3) in simp)
  then have "log_behind h (r\<lparr>hook_disk := d', hook_log := a', hook_phases := ?ps[i := Returned True]\<rparr>)"
    using app(2) by (auto simp: log_behind_def)
  moreover have "hook_progress m0 (rqs ! j) (?v (hook_key (rqs ! j))) (?ps[i := Returned True] ! j)" if "j < length rqs" for j
    using inv(4)[OF that] i inv(3) by (cases "j = i") auto
  ultimately show ?thesis using assms(1) app(1) inv(3) unfolding hooks_inv_def by auto
qed

interpretation hooks: transition_system
  "\<lambda>r. \<exists>s d a. r = hooks_start s d a rqs \<and> engine_view h s = m0 \<and> requests_ok rqs \<and> engine_ok h s \<and> stream_open a \<and> log_consistent h d s"
  "hook_step h" "hooks_inv h m0 rqs" for h m0 rqs
proof (unfold_locales, goal_cases)
  case (1 r)
  then show ?case
    by (auto simp: hooks_inv_def hooks_start_def log_behind_def log_view_consistent[symmetric])
next
  case (2 r r')
  then show ?case by (auto elim!: hook_stepE intro: inv_engine inv_append)
qed

section \<open>The calls end\<close>

fun hook_calls :: "hook_phase \<Rightarrow> nat" where
  "hook_calls (Called rq) = 2"
| "hook_calls (Applied line) = 1"
| "hook_calls (Returned b) = 0"

definition hook_work :: "hooks_run \<Rightarrow> nat" where
  "hook_work r = sum_list (map hook_calls (hook_phases r))"

lemma hook_work_update:
  assumes "i < length ps" "hook_calls ph < hook_calls (ps ! i)"
  shows "sum_list (map hook_calls (ps[i := ph])) < sum_list (map hook_calls ps)"
  using assms by (induction ps arbitrary: i) (auto split: nat.splits)

lemma apply_calls: "hook_apply h s rq = Inr (s', ph) \<Longrightarrow> hook_calls ph < 2"
  by (cases rq) (auto split: prod.splits if_splits)

lemma hook_step_work: "hook_step h r r' \<Longrightarrow> hook_work r' < hook_work r"
  by (erule hook_stepE) (auto simp: hook_work_def dest!: apply_calls intro!: hook_work_update)

lemma hook_steps_work: "(hook_step h ^^ m) r r' \<Longrightarrow> hook_work r' + m \<le> hook_work r"
proof (induction m arbitrary: r')
  case (Suc m)
  then obtain r1 where "(hook_step h ^^ m) r r1" "hook_step h r1 r'" by auto
  with Suc.IH[of r1] hook_step_work[of h r1 r'] show ?case by simp
qed simp

lemma hook_work_start: "hook_work (hooks_start s d a rqs) = 2 * length rqs"
  by (induction rqs) (simp_all add: hook_work_def hooks_start_def)

lemma hook_progress_possible:
  assumes "hooks_inv h m0 rqs r" "\<not> (\<exists>r'. hook_step h r r')" "i < length rqs"
  shows "hook_phases r ! i = Returned (hook_result m0 (rqs ! i))"
proof -
  have i: "i < length (hook_phases r)" and ok: "engine_ok h (hook_engine r)" using assms(1,3) by (auto simp: hooks_inv_def)
  show ?thesis
  proof (cases "hook_phases r ! i")
    case (Called rq)
    obtain s' ph where "hook_apply h (hook_engine r) rq = Inr (s', ph)" using apply_spec[OF ok, of rq] by blast
    then show ?thesis using assms(2) hook_step.engine[OF i Called] by blast
  next
    case (Applied line)
    obtain d' a' where "hook_append True (hook_disk r) (hook_log r) line = (d', a')" by (rule prod.exhaust)
    then show ?thesis using assms(2) hook_step.append[OF i Applied] by blast
  next
    case (Returned b)
    then show ?thesis using assms(1,3) by (auto simp: hooks_inv_def)
  qed
qed

section \<open>Properties\<close>



text \<open>
  On one key they need not be: two \<open>set\<close> calls that reach the engine in one order and the log
  in the other leave a log that restores the value the engine no longer has.
\<close>

theorem same_key_diverges:
  assumes "engine_ok h s" "stream_open a" "log_consistent h d s"
    and "aof_good (Aof_set k v1)" "aof_good (Aof_set k v2)" "v1 \<noteq> v2"
  shows "\<exists>r. (hook_step h)\<^sup>*\<^sup>* (hooks_start s d a [Hook_set k v1, Hook_set k v2]) r
     \<and> hook_phases r = [Returned True, Returned True] \<and> \<not> log_consistent h (hook_disk r) (hook_engine r)"
proof -
  let ?st = "\<lambda>s d a p q. \<lparr>hook_engine = s, hook_disk = d, hook_log = a, hook_phases = [p, q]\<rparr>"
  obtain s1 where s1: "StorageEngine_set h s k v1 = Inr (s1, True)" "engine_ok h s1"
    using set_correct[OF assms(1)] by blast
  obtain s2 where s2: "StorageEngine_set h s1 k v2 = Inr (s2, True)" "engine_view h s2 k = Some (fresh_entry v2)"
    using set_correct[OF s1(2), of k v2] by auto
  obtain d1 a1 where d1: "AofLog_append_set True d a k v2 = (d1, a1)" by (rule prod.exhaust)
  obtain d2 a2 where d2: "AofLog_append_set True d1 a1 k v1 = (d2, a2)" by (rule prod.exhaust)
  have view1: "stream_open a1" "log_view h d1 ((engine_view h s)(k \<mapsto> fresh_entry v2))"
    using append_view[of h d "engine_view h s" a "Aof_set k v2" True d1 a1] assms(2,3,5) d1
    by (simp_all add: log_view_consistent)
  have view2: "log_view h d2 ((engine_view h s)(k \<mapsto> fresh_entry v1))"
    using append_view(2)[OF view1(2,1) assms(4), of True d2 a2] d2 by simp
  have "hook_step h (?st s d a (Called (Hook_set k v1)) (Called (Hook_set k v2)))
      (?st s1 d a (Applied (Aof_set k v1)) (Called (Hook_set k v2)))"
    using hook_step.engine[of 0 "?st s d a (Called (Hook_set k v1)) (Called (Hook_set k v2))"] s1 by simp
  moreover have "hook_step h (?st s1 d a (Applied (Aof_set k v1)) (Called (Hook_set k v2)))
      (?st s2 d a (Applied (Aof_set k v1)) (Applied (Aof_set k v2)))"
    using hook_step.engine[of 1 "?st s1 d a (Applied (Aof_set k v1)) (Called (Hook_set k v2))"] s2 by simp
  moreover have "hook_step h (?st s2 d a (Applied (Aof_set k v1)) (Applied (Aof_set k v2)))
      (?st s2 d1 a1 (Applied (Aof_set k v1)) (Returned True))"
    using hook_step.append[of 1 "?st s2 d a (Applied (Aof_set k v1)) (Applied (Aof_set k v2))" _ True] d1 by simp
  moreover have "hook_step h (?st s2 d1 a1 (Applied (Aof_set k v1)) (Returned True))
      (?st s2 d2 a2 (Returned True) (Returned True))"
    using hook_step.append[of 0 "?st s2 d1 a1 (Applied (Aof_set k v1)) (Returned True)" _ True] d2 by simp
  ultimately have "(hook_step h)\<^sup>*\<^sup>* (hooks_start s d a [Hook_set k v1, Hook_set k v2]) (?st s2 d2 a2 (Returned True) (Returned True))"
    unfolding hooks_start_def list.map by (meson converse_rtranclp_into_rtranclp rtranclp.rtrancl_refl)
  moreover have "\<not> log_consistent h d2 s2"
  proof
    assume "log_consistent h d2 s2"
    then have "engine_view h s2 = (engine_view h s)(k \<mapsto> fresh_entry v1)"
      using log_view_unique[OF _ view2] by (simp add: log_view_consistent[symmetric])
    with s2(2) assms(6) show False by (simp add: fresh_entry_def)
  qed
  ultimately show ?thesis by (intro exI[of _ "?st s2 d2 a2 (Returned True) (Returned True)"]) simp
qed

end
