(* ===== verification/Torn_Files.thy ===== *)
theory Torn_Files
  imports Persistence "HOL-Library.Sublist"
begin

text \<open>
  Files that were cut short. \<open>SnapshotWriter::write\<close> (src/persistence/snapshot.cpp) truncates
  the only snapshot file and writes over it, so a process that dies while it writes, or a
  device that fills up, leaves the first bytes of the new snapshot and nothing of the old.
  \<open>AofLog::write_line\<close> (src/persistence/aof_log.cpp) appends one record, and leaves the first
  bytes of it. Here the loader and the replay read such files: what a cut snapshot restores is
  part of the snapshot, except that the value of one key may be cut, and a cut record changes
  at most one key (for a \<open>DEL\<close>, possibly another key than the one that was deleted).
\<close>

section \<open>Model\<close>

text \<open>\<open>SnapshotWriter::write\<close> of which the first \<open>n\<close> bytes reach the file.\<close>

definition SnapshotWriter_write_partial :: "nat \<Rightarrow> disk \<Rightarrow> StorageEngine \<Rightarrow> disk" where
  "SnapshotWriter_write_partial n d s =
     d\<lparr>snapshot_file := Some (take n (snapshot_content (StorageEngine_dump_entries s)))\<rparr>"

text \<open>\<open>AofLog::write_line\<close> of which the first \<open>n\<close> bytes reach the file.\<close>

definition AofLog_write_line_partial :: "nat \<Rightarrow> bool \<Rightarrow> disk \<Rightarrow> AofLog \<Rightarrow> string \<Rightarrow> disk" where
  "AofLog_write_line_partial n ok d a line =
     (let (d1, opened) = (if \<not> stream_open a then open_append ok d else (d, True)) in
      if opened
      then d1\<lparr>aof_file := Some ((case aof_file d1 of None \<Rightarrow> [] | Some c \<Rightarrow> c) @ take n (line @ [newline]))\<rparr>
      else d1)"

lemma write_line_partial_all:
  "length line < n \<Longrightarrow> AofLog_write_line_partial n ok d a line = fst (AofLog_write_line ok d a line)"
  by (simp add: AofLog_write_line_partial_def AofLog_write_line_def Let_def split: prod.splits)

lemma write_partial_all:
  "length (snapshot_content (StorageEngine_dump_entries s)) \<le> n \<Longrightarrow>
     SnapshotWriter_write_partial n d s = fst (SnapshotWriter_write True d s)"
  by (simp add: SnapshotWriter_write_partial_def SnapshotWriter_write_def)

section \<open>Lines of a file that was cut\<close>

abbreviation unlines :: "string list \<Rightarrow> string" where
  "unlines ls \<equiv> concat (map (\<lambda>l. l @ [newline]) ls)"

text \<open>The first \<open>j\<close> lines, and the part of the next one that is there.\<close>

definition torn :: "string list \<Rightarrow> nat \<Rightarrow> string \<Rightarrow> string list" where
  "torn ls j p = take j ls @ (if p = [] then [] else [p])"

definition torn_at :: "string list \<Rightarrow> nat \<Rightarrow> string \<Rightarrow> bool" where
  "torn_at ls j p \<longleftrightarrow> j \<le> length ls \<and> (p \<noteq> [] \<longrightarrow> j < length ls \<and> prefix p (ls ! j))"

lemma getlines_open_line: "newline \<notin> set l \<Longrightarrow> getlines l = (if l = [] then [] else [l])"
proof -
  assume "newline \<notin> set l"
  then have eqs: "takeWhile (\<lambda>c. c \<noteq> newline) l = l" "dropWhile (\<lambda>c. c \<noteq> newline) l = []"
    by (auto simp: takeWhile_eq_all_conv dropWhile_eq_Nil_conv)
  show ?thesis by (subst getlines.simps) (simp only: eqs list.case)
qed

lemma getlines_torn:
  assumes "\<forall>l \<in> set ls. newline \<notin> set l"
  shows "\<exists>j p. torn_at ls j p \<and> getlines (take n (unlines ls)) = torn ls j p
     \<and> (\<forall>i \<le> length ls. length (unlines (take i ls)) \<le> n \<longrightarrow> i \<le> j)"
  using assms
proof (induction ls arbitrary: n)
  case Nil
  show ?case by (intro exI[of _ 0] exI[of _ "[]"]) (simp add: torn_at_def torn_def)
next
  case (Cons l ls)
  show ?case
  proof (cases "n \<le> length l")
    case True
    have "newline \<notin> set (take n l)" using Cons.prems by (auto dest: in_set_takeD)
    moreover have "i = 0" if "length (unlines (take i (l # ls))) \<le> n" for i
      using that True by (cases i) auto
    ultimately show ?thesis using True
      by (intro exI[of _ 0] exI[of _ "take n l"])
        (auto simp: torn_at_def torn_def getlines_open_line take_is_prefix simp del: concat_map_singleton)
  next
    case False
    then obtain r where r: "n = length l + Suc r" by (metis less_imp_Suc_add not_le add_Suc_right)
    obtain j p where t: "torn_at ls j p" "getlines (take r (unlines ls)) = torn ls j p"
      and all: "\<forall>i \<le> length ls. length (unlines (take i ls)) \<le> r \<longrightarrow> i \<le> j"
      using Cons.IH[of r] Cons.prems by auto
    have "i \<le> Suc j" if "i \<le> length (l # ls)" "length (unlines (take i (l # ls))) \<le> n" for i
      using that all r by (cases i) auto
    then show ?thesis using Cons.prems r t
      by (intro exI[of _ "Suc j"] exI[of _ p] conjI) (auto simp: torn_at_def torn_def getlines_line)
  qed
qed

section \<open>Entries of a snapshot that was cut\<close>

definition pair_lines :: "(string \<times> string) list \<Rightarrow> string list" where
  "pair_lines xs = concat (map (\<lambda>(k, v). [k, v]) xs)"

text \<open>Some of the first entries, and perhaps the next one with a part of its value.\<close>

definition torn_entries :: "(string \<times> string) list \<Rightarrow> (string \<times> string) list \<Rightarrow> bool" where
  "torn_entries xs ys \<longleftrightarrow> (\<exists>i. ys = take i xs)
     \<or> (\<exists>i p. i < length xs \<and> prefix p (snd (xs ! i)) \<and> ys = take i xs @ [(fst (xs ! i), p)])"

lemma torn_entries_Nil: "torn_entries xs []"
  unfolding torn_entries_def by (metis take0)

lemma torn_entries_Cons: "torn_entries xs ys \<Longrightarrow> torn_entries (x # xs) (x # ys)"
  unfolding torn_entries_def
proof (elim disjE exE conjE, goal_cases)
  case (1 i)
  then have "x # ys = take (Suc i) (x # xs)" by simp
  then show ?case by blast
next
  case (2 i p)
  then have "Suc i < length (x # xs)" "prefix p (snd ((x # xs) ! Suc i))"
    "x # ys = take (Suc i) (x # xs) @ [(fst ((x # xs) ! Suc i), p)]" by simp_all
  then show ?case by blast
qed

lemma line_pairs_torn:
  assumes "torn_at (pair_lines xs) j p"
  shows "torn_entries xs (line_pairs (torn (pair_lines xs) j p))"
  using assms
proof (induction xs arbitrary: j)
  case Nil
  then show ?case by (simp add: pair_lines_def torn_at_def torn_def torn_entries_Nil)
next
  case (Cons x xs)
  obtain k v where x: "x = (k, v)" by (cases x)
  have lines: "pair_lines (x # xs) = k # v # pair_lines xs" by (simp add: pair_lines_def x)
  consider "j = 0" | "j = 1" | i where "j = Suc (Suc i)" by (metis One_nat_def not0_implies_Suc)
  then show ?case
  proof cases
    case 1
    then show ?thesis by (simp add: lines torn_def torn_entries_Nil)
  next
    case 2
    show ?thesis
    proof (cases "p = []")
      case True
      then show ?thesis using 2 by (simp add: lines torn_def torn_entries_Nil)
    next
      case False
      then have "line_pairs (torn (pair_lines (x # xs)) j p) = take 0 (x # xs) @ [(fst ((x # xs) ! 0), p)]"
        "prefix p (snd ((x # xs) ! 0))" "0 < length (x # xs)"
        using 2 Cons.prems by (simp_all add: lines[unfolded x] torn_def torn_at_def x)
      then show ?thesis unfolding torn_entries_def by blast
    qed
  next
    case 3
    then have "torn_at (pair_lines xs) i p" using Cons.prems by (auto simp: lines torn_at_def)
    from torn_entries_Cons[OF Cons.IH[OF this], of x] 3 show ?thesis by (simp add: lines[unfolded x] torn_def x)
  qed
qed

lemma pair_lines_take: "pair_lines (take i xs) = take (2 * i) (pair_lines xs)"
proof (induction xs arbitrary: i)
  case (Cons x xs)
  then show ?case by (cases i) (auto simp: pair_lines_def case_prod_unfold)
qed (simp add: pair_lines_def)

lemma length_pair_lines: "length (pair_lines xs) = 2 * length xs"
  by (induction xs) (auto simp: pair_lines_def)

lemma line_pairs_keeps:
  "2 * i \<le> j \<Longrightarrow> prefix (take i xs) (line_pairs (torn (pair_lines xs) j p)) \<or> length xs < i"
proof (induction xs arbitrary: i j)
  case (Cons x xs)
  obtain k v where x: "x = (k, v)" by (cases x)
  have lines: "pair_lines ((k, v) # xs) = k # v # pair_lines xs" by (simp add: pair_lines_def)
  show ?case
  proof (cases i)
    case (Suc i')
    then obtain j' where j: "j = Suc (Suc j')" using Cons.prems by (cases j; cases "j - 1") auto
    then show ?thesis using Cons.IH[of i' j'] Cons.prems Suc by (auto simp: x lines torn_def)
  qed simp
qed (simp add: torn_def)

lemma torn_entries_length: "torn_entries xs ys \<Longrightarrow> length ys \<le> length xs"
  by (auto simp: torn_entries_def)

text \<open>The bytes of a snapshot up to the end of its \<open>i\<close>-th entry.\<close>

definition bytes_up_to :: "nat \<Rightarrow> (string \<times> string) list \<Rightarrow> nat" where
  "bytes_up_to i xs = length (snapshot_header @ [newline] @ show_nat (length xs) @ [newline]
     @ concat (map (\<lambda>(k, v). k @ [newline] @ v @ [newline]) (take i xs)))"

lemma bytes_up_to_lines:
  "bytes_up_to i xs
     = length (unlines (take (Suc (Suc (2 * i))) (snapshot_header # show_nat (length xs) # pair_lines xs)))"
proof -
  have "concat (map (\<lambda>(k, v). k @ [newline] @ v @ [newline]) (take i xs)) = unlines (take (2 * i) (pair_lines xs))"
    unfolding pair_lines_take[symmetric] by (simp add: pair_lines_def concat_unlines_pairs)
  then show ?thesis by (simp add: bytes_up_to_def)
qed

lemma load_torn_content:
  assumes "\<forall>(k, v) \<in> set xs. newline \<notin> set k \<and> newline \<notin> set v" "length xs < 2 ^ 64"
    and "snapshot_file d = Some (take n (snapshot_content xs))"
  shows "\<exists>ys ok. torn_entries xs ys
     \<and> (\<forall>i \<le> length xs. bytes_up_to i xs \<le> n \<longrightarrow> prefix (take i xs) ys)
     \<and> SnapshotLoader_load_into h True d s = bind_res (put_entries h ys s) (\<lambda>s'. Inr (s', ok))"
proof -
  let ?ls = "snapshot_header # show_nat (length xs) # pair_lines xs"
  have "\<forall>l \<in> set ?ls. newline \<notin> set l"
    using assms(1) show_nat_digits[of "length xs"]
    by (auto simp: pair_lines_def snapshot_header_def newline_def isdigit_def)
  moreover have "snapshot_content xs = unlines ?ls"
    by (simp add: snapshot_content_def pair_lines_def concat_unlines_pairs)
  ultimately obtain j p where t: "torn_at ?ls j p" "getlines (take n (snapshot_content xs)) = torn ?ls j p"
    and whole: "\<And>i. i \<le> length ?ls \<Longrightarrow> length (unlines (take i ?ls)) \<le> n \<Longrightarrow> i \<le> j"
    using getlines_torn[of ?ls n] by auto
  have entries: "Suc (Suc (2 * i)) \<le> j" if "i \<le> length xs" "bytes_up_to i xs \<le> n" for i
    using whole[of "Suc (Suc (2 * i))"] that by (simp add: bytes_up_to_lines length_pair_lines)
  show ?thesis
  proof (cases "2 \<le> j")
    case True
    then obtain i where j: "j = Suc (Suc i)" by (metis Suc_le_D numeral_2_eq_2 le_Suc_ex add_2_eq_Suc)
    then have "torn_at (pair_lines xs) i p" using t(1) by (auto simp: torn_at_def)
    from line_pairs_torn[OF this] have e: "torn_entries xs (line_pairs (torn (pair_lines xs) i p))" .
    moreover have "take (length xs) (line_pairs (torn (pair_lines xs) i p)) = line_pairs (torn (pair_lines xs) i p)"
      using torn_entries_length[OF e] by simp
    moreover have "prefix (take m xs) (line_pairs (torn (pair_lines xs) i p))"
      if "m \<le> length xs" "bytes_up_to m xs \<le> n" for m
      using line_pairs_keeps[of m i xs p] entries[OF that] that(1) j by simp
    ultimately show ?thesis
      using assms(2,3) t(2) j
      by (intro exI[of _ "line_pairs (torn (pair_lines xs) i p)"] exI[of _ True])
        (simp add: SnapshotLoader_load_into_def nth_line_def stream_read_size_def stoull_show_nat torn_def)
  next
    case False
    then have "line_pairs (drop 2 (torn ?ls j p)) = []" by (auto simp: torn_def less_2_cases_iff not_le)
    then have "\<exists>ok. SnapshotLoader_load_into h True d s = Inr (s, ok)"
      using assms(3) t(2) by (auto simp: SnapshotLoader_load_into_def Let_def)
    moreover have "\<forall>m \<le> length xs. \<not> bytes_up_to m xs \<le> n" using entries False by force
    ultimately show ?thesis using torn_entries_Nil by (metis bind_res.simps(2) fold_res.simps(1))
  qed
qed

lemma torn_entries_map_of:
  assumes "torn_entries xs ys" "distinct (map fst xs)"
  shows "distinct (map fst ys) \<and> (\<exists>c. \<forall>k v. map_of ys k = Some v \<longrightarrow>
     (\<exists>w. map_of xs k = Some w \<and> prefix v w \<and> (k \<noteq> c \<longrightarrow> v = w)))"
  using assms(1) unfolding torn_entries_def
proof (elim disjE exE conjE, goal_cases)
  case (1 i)
  have "distinct (map fst ys)" using assms(2) 1 by (simp add: take_map[symmetric] distinct_take)
  moreover have "map_of xs k = Some v" if "map_of ys k = Some v" for k v
    using map_of_SomeD[OF that] assms(2) 1 by (auto dest: in_set_takeD)
  ultimately show ?case by blast
next
  case (2 i p)
  have keys: "map fst ys = take (Suc i) (map fst xs)"
    using 2 by (simp add: take_map take_Suc_conv_app_nth)
  then have dist: "distinct (map fst ys)" using assms(2) by (simp add: distinct_take)
  have "\<exists>w. map_of xs k = Some w \<and> prefix v w \<and> (k \<noteq> fst (xs ! i) \<longrightarrow> v = w)"
    if "map_of ys k = Some v" for k v
  proof (cases "(k, v) \<in> set (take i xs)")
    case True
    then have "map_of xs k = Some v" using assms(2) by (auto dest: in_set_takeD)
    then show ?thesis by simp
  next
    case False
    then have kv: "k = fst (xs ! i)" "v = p" using map_of_SomeD[OF that] 2 by auto
    have "map_of xs (fst (xs ! i)) = Some (snd (xs ! i))" using assms(2) nth_mem[OF 2(1)] by simp
    then show ?thesis using 2(2) kv by simp
  qed
  then show ?case using dist by blast
qed

lemma put_fresh_entries:
  assumes "distinct (map fst ys)"
  shows "\<exists>s'. put_entries h ys StorageEngine_new = Inr s' \<and> engine_ok h s'
     \<and> engine_view h s' = map_option fresh_entry \<circ> map_of ys"
proof -
  have "map fst (map (\<lambda>(k, v). (k, fresh_entry v)) ys) = map fst ys" by auto
  then have "map_of (rev (map (\<lambda>(k, v). (k, fresh_entry v)) ys)) = map_option fresh_entry \<circ> map_of ys"
    using assms by (metis distinct_map_fst_map_of_rev map_of_map)
  then show ?thesis using eng.put_all[OF engine_ok_new, of h ys] by (simp add: engine_view_new)
qed

section \<open>A record that was cut\<close>

text \<open>What the replay of a cut record can do: nothing, or the record with a part of its last field.\<close>

fun cut_record :: "aof_record \<Rightarrow> aof_record \<Rightarrow> bool" where
  "cut_record (Aof_set k' v') (Aof_set k v) \<longleftrightarrow> k' = k \<and> prefix v' v"
| "cut_record (Aof_del k') (Aof_del k) \<longleftrightarrow> prefix k' k"
| "cut_record _ _ \<longleftrightarrow> False"

lemma replay_short: "length p < 4 \<Longrightarrow> replay_line h s p = Inr s"
  by (auto simp: replay_line_def starts_with_def)

lemma cut_word: "prefix p w \<Longrightarrow> p \<noteq> w \<Longrightarrow> length p < length w"
  by (metis prefix_order.le_neq_trans prefix_length_less)

lemma replay_cut_set:
  assumes "CHR '' '' \<notin> set k" "prefix p (aof_line (Aof_set k v))"
  shows "replay_line h s p = Inr s \<or> (\<exists>v'. prefix v' v \<and> replay_line h s p = aof_apply h s (Aof_set k v'))"
proof -
  consider "prefix p ''SET ''" "p \<noteq> ''SET ''" | k' where "p = ''SET '' @ k'" "prefix k' k"
    | v' where "p = aof_line (Aof_set k v')" "prefix v' v"
    using assms(2) by (auto simp: prefix_append prefix_Cons)
  then show ?thesis
  proof cases
    case 1
    then show ?thesis using cut_word replay_short[of p h s] by fastforce
  next
    case 2
    then have "find_char (CHR '' '') k' = None"
      using assms(1) set_mono_prefix by (fastforce simp: find_char_None)
    then show ?thesis using 2 by (simp add: replay_line_def starts_with_def)
  next
    case 3
    have "find_char (CHR '' '') (k @ CHR '' '' # v') = Some (length k)" using assms(1) by (simp add: find_char_append)
    then show ?thesis using 3 by (auto simp: replay_line_def starts_with_def)
  qed
qed

lemma replay_cut_del:
  assumes "prefix p (aof_line (Aof_del k))"
  shows "replay_line h s p = Inr s \<or> (\<exists>k'. prefix k' k \<and> replay_line h s p = aof_apply h s (Aof_del k'))"
proof -
  consider "prefix p ''DEL ''" "p \<noteq> ''DEL ''" | k' where "p = ''DEL '' @ k'" "prefix k' k"
    using assms by (auto simp: prefix_append prefix_Cons)
  then show ?thesis
  proof cases
    case 1
    then show ?thesis using cut_word replay_short[of p h s] by fastforce
  next
    case 2
    then show ?thesis by (auto simp: replay_line_def starts_with_def)
  qed
qed

lemma replay_cut:
  assumes "aof_good r" "prefix p (aof_line r)"
  shows "replay_line h s p = Inr s \<or> (\<exists>r'. cut_record r' r \<and> replay_line h s p = aof_apply h s r')"
proof (cases r)
  case (Aof_set k v)
  then show ?thesis using replay_cut_set[of k p v h s] assms by (metis aof_good.simps(1) cut_record.simps(1))
next
  case (Aof_del k)
  then show ?thesis using replay_cut_del[of p k h s] assms by (metis cut_record.simps(2))
qed

text \<open>The lines of a log to which a part of a record was appended.\<close>

lemma getlines_cut_record:
  assumes "c = [] \<or> last c = newline" "newline \<notin> set l"
  shows "getlines (c @ take n (l @ [newline])) = getlines c @ (if take n l = [] \<and> n \<le> length l then [] else [take n l])"
proof (cases "n \<le> length l")
  case True
  have "newline \<notin> set (take n l)" using assms(2) by (auto dest: in_set_takeD)
  then show ?thesis using True assms(1) by (simp add: getlines_append getlines_open_line)
next
  case False
  then show ?thesis using assms getlines_append_line by simp
qed

section \<open>Properties\<close>

text \<open>
  C22: a snapshot of which only the first \<open>n\<close> bytes were written, for any \<open>n\<close>, never makes the
  loader fault. It restores every entry whose bytes were all written, and nothing that was
  not in the engine: each restored key has its value, except that the value of one key may be
  cut short.
\<close>

theorem torn_snapshot_loads:
  assumes "engine_ok h s" "snapshot_safe s"
  shows "\<exists>s' ok c.
     SnapshotLoader_load_into h True (SnapshotWriter_write_partial n d s) StorageEngine_new = Inr (s', ok)
     \<and> engine_ok h s'
     \<and> (\<forall>i < length (StorageEngine_dump_entries s). bytes_up_to (Suc i) (StorageEngine_dump_entries s) \<le> n \<longrightarrow>
          engine_view h s' (fst (StorageEngine_dump_entries s ! i)) = Some (fresh_entry (snd (StorageEngine_dump_entries s ! i))))
     \<and> (\<forall>k e'. engine_view h s' k = Some e' \<longrightarrow>
          (\<exists>e v. engine_view h s k = Some e \<and> e' = fresh_entry v \<and> prefix v (entry_value e)
             \<and> (k \<noteq> c \<longrightarrow> v = entry_value e)))"
proof -
  define xs where "xs = StorageEngine_dump_entries s"
  have dist: "distinct (map fst xs)" unfolding xs_def using assms(1) by (rule dump_entries_distinct)
  obtain ys ok where ys: "torn_entries xs ys"
    and whole: "\<forall>i \<le> length xs. bytes_up_to i xs \<le> n \<longrightarrow> prefix (take i xs) ys"
    and load: "SnapshotLoader_load_into h True (SnapshotWriter_write_partial n d s) StorageEngine_new
      = bind_res (put_entries h ys StorageEngine_new) (\<lambda>s'. Inr (s', ok))"
    using load_torn_content[of xs "SnapshotWriter_write_partial n d s" n h StorageEngine_new] assms(2)
    by (auto simp: snapshot_safe_def xs_def SnapshotWriter_write_partial_def)
  obtain c where ysd: "distinct (map fst ys)"
    and c: "\<And>k v. map_of ys k = Some v \<Longrightarrow>
      \<exists>w. map_of xs k = Some w \<and> prefix v w \<and> (k \<noteq> c \<longrightarrow> v = w)"
    using torn_entries_map_of[OF ys dist] by blast
  obtain s' where s': "put_entries h ys StorageEngine_new = Inr s'" "engine_ok h s'"
    and view: "engine_view h s' = map_option fresh_entry \<circ> map_of ys"
    using put_fresh_entries[OF ysd] by blast
  have "engine_view h s' (fst (xs ! i)) = Some (fresh_entry (snd (xs ! i)))"
    if "i < length xs" "bytes_up_to (Suc i) xs \<le> n" for i
  proof -
    have "prefix (take (Suc i) xs) ys" using whole that by simp
    then have "xs ! i \<in> set ys" using that(1) by (auto simp: take_Suc_conv_app_nth dest: set_mono_prefix)
    then have "map_of ys (fst (xs ! i)) = Some (snd (xs ! i))" using ysd by simp
    then show ?thesis by (simp add: view)
  qed
  moreover have "\<exists>e v. engine_view h s k = Some e \<and> e' = fresh_entry v \<and> prefix v (entry_value e)
      \<and> (k \<noteq> c \<longrightarrow> v = entry_value e)" if "engine_view h s' k = Some e'" for k e'
    using that c[of k] by (fastforce simp: view xs_def dump_entries_map_of[OF assms(1)])
  ultimately show ?thesis using load s' unfolding xs_def by (intro exI[of _ s'] exI[of _ ok] exI[of _ c]) simp
qed

theorem torn_snapshot_loads_witness:
  "\<exists>s s' ok. StorageEngine_dump_entries s = [(''k'', ''a b'')]
     \<and> SnapshotLoader_load_into (\<lambda>_. 0) True
         (SnapshotWriter_write_partial 28 \<lparr>aof_file = None, rewrite_file = None, snapshot_file = None\<rparr> s)
         StorageEngine_new = Inr (s', ok)
     \<and> engine_view (\<lambda>_. 0) s' ''k'' = Some (fresh_entry ''a b'')"
proof -
  obtain s where s: "engine_ok (\<lambda>_. 0) s" "engine_view (\<lambda>_. 0) s = [''k'' \<mapsto> fresh_entry ''a b'']"
    using set_correct[OF engine_ok_new, of "\<lambda>_. 0" "''k''" "''a b''"] by (auto simp: engine_view_new)
  have safe: "snapshot_safe s"
    using s entry_count_correct[OF s(1)] by (intro snapshot_safe_view[OF s(1)]) (auto simp: fresh_entry_def newline_def split: if_splits)
  have m: "map_of (StorageEngine_dump_entries s) = [''k'' \<mapsto> ''a b'']"
    using dump_entries_map_of[OF s(1)] s(2) by (auto simp: fresh_entry_def fun_eq_iff)
  have "length (StorageEngine_dump_entries s) = 1" using s by (simp add: dump_entries_length)
  moreover have "(''k'', ''a b'') \<in> set (StorageEngine_dump_entries s)" by (rule map_of_SomeD) (simp add: m)
  ultimately have dump: "StorageEngine_dump_entries s = [(''k'', ''a b'')]" by (auto simp: length_Suc_conv)
  then have "bytes_up_to (Suc 0) (StorageEngine_dump_entries s) \<le> 28"
    by (simp add: bytes_up_to_def snapshot_header_def show_nat.simps)
  with torn_snapshot_loads[OF s(1) safe, of 28 "\<lparr>aof_file = None, rewrite_file = None, snapshot_file = None\<rparr>"] dump
  obtain s' ok where "SnapshotLoader_load_into (\<lambda>_. 0) True
      (SnapshotWriter_write_partial 28 \<lparr>aof_file = None, rewrite_file = None, snapshot_file = None\<rparr> s)
      StorageEngine_new = Inr (s', ok)" "engine_view (\<lambda>_. 0) s' ''k'' = Some (fresh_entry ''a b'')"
    by (elim exE conjE) simp
  with dump show ?thesis by blast
qed

text \<open>
  C23: a crash while a record is appended to the log costs nothing that was logged before. If
  the log replayed to the contents of \<open>s\<close>, then the log with the first \<open>n\<close> bytes of the record
  replays, without a fault, to those contents, or to those contents with the record applied
  as far as it was written: a \<open>SET\<close> gives its key a part of the value, a \<open>DEL\<close> deletes a key
  that is a prefix of its own. If all bytes but the newline are there, the record counts.
\<close>

theorem torn_record_replays:
  assumes "log_consistent h d s" "stream_open a" "aof_good r"
  shows "\<exists>s'. AofLog_replay h True (AofLog_write_line_partial n ok d a (aof_line r)) StorageEngine_new = Inr (s', True)
     \<and> engine_ok h s'
     \<and> (engine_view h s' = engine_view h s
        \<or> (\<exists>r'. cut_record r' r \<and> engine_view h s' = (engine_view h s)(line_key r' := line_value r')))
     \<and> (length (aof_line r) \<le> n \<longrightarrow> engine_view h s' = (engine_view h s)(line_key r := line_value r))"
proof -
  obtain c q where c: "aof_file d = Some c" "c = [] \<or> last c = newline"
    "fold_res (replay_line h) (getlines c) StorageEngine_new = Inr q" "engine_ok h q" "engine_view h q = engine_view h s"
    using assms(1) by (auto simp: log_consistent_def)
  let ?p = "take n (aof_line r)"
  have content: "aof_file (AofLog_write_line_partial n ok d a (aof_line r)) = Some (c @ take n (aof_line r @ [newline]))"
    using assms(2) c(1) by (simp add: AofLog_write_line_partial_def)
  have step: "replay_line h q ?p = Inr q \<or> (\<exists>r'. cut_record r' r \<and> replay_line h q ?p = aof_apply h q r')"
    using replay_cut[OF assms(3) take_is_prefix] .
  have whole: "replay_line h q ?p = aof_apply h q r" if "length (aof_line r) \<le> n"
    using that replay_line_enc[OF assms(3)] by simp
  have "\<exists>s'. replay_line h q ?p = Inr s' \<and> engine_ok h s'
      \<and> (engine_view h s' = engine_view h s
         \<or> (\<exists>r'. cut_record r' r \<and> engine_view h s' = (engine_view h s)(line_key r' := line_value r')))
      \<and> (length (aof_line r) \<le> n \<longrightarrow> engine_view h s' = (engine_view h s)(line_key r := line_value r))"
    using step whole aof_apply_view[OF c(4)] c(4,5) by (metis (no_types, lifting) sum.inject(2))
  moreover have "replay_line h q [] = Inr q" by (simp add: replay_short)
  ultimately show ?thesis
    using content c(3) getlines_cut_record[OF c(2) aof_line_no_newline[OF assms(3)], of n]
    by (cases "?p = [] \<and> n \<le> length (aof_line r)") (auto simp: AofLog_replay_def fold_res_append)
qed

theorem torn_record_replays_witness:
  "\<exists>s'. AofLog_replay (\<lambda>_. 0) True (AofLog_write_line_partial 9 True
       \<lparr>aof_file = Some [], rewrite_file = None, snapshot_file = None\<rparr> \<lparr>stream_open = True\<rparr> (aof_line (Aof_set ''k'' ''a b'')))
       StorageEngine_new = Inr (s', True)
     \<and> engine_view (\<lambda>_. 0) s' = [''k'' \<mapsto> fresh_entry ''a b'']"
proof -
  let ?d = "\<lparr>aof_file = Some [], rewrite_file = None, snapshot_file = None\<rparr>"
  have "log_consistent (\<lambda>_. 0) ?d StorageEngine_new" by (simp add: log_consistent_def engine_ok_new)
  moreover have "aof_good (Aof_set ''k'' ''a b'')" by (simp add: newline_def)
  moreover have "length (aof_line (Aof_set ''k'' ''a b'')) \<le> 9" by simp
  ultimately show ?thesis
    using torn_record_replays[of "\<lambda>_. 0" ?d StorageEngine_new "\<lparr>stream_open = True\<rparr>" "Aof_set ''k'' ''a b''" 9 True]
    by (auto simp: engine_view_new simp del: aof_line.simps)
qed

text \<open>A cut \<open>DEL\<close> can delete a key that nobody deleted.\<close>

lemma torn_del_hits_other_key:
  assumes "engine_ok h s"
  shows "\<exists>s'. replay_line h s (take 5 (aof_line (Aof_del ''ab''))) = Inr s' \<and> engine_view h s' = (engine_view h s)(''a'' := None)"
  using aof_apply_view[OF assms, of "Aof_del ''a''"] by (simp add: replay_line_def starts_with_def)

end
