(* ===== verification/Durability.thy ===== *)
theory Durability
  imports Server Torn_Files
begin

text \<open>
  What a crash leaves. The process can die in any state of a run: the files are then what the
  last events made of them, and the next start recovers from them. Of all the events of a run
  only a snapshot that could open its file changes the snapshot on disk (no command does, and
  neither does a rewrite of the log), so the next start finds the contents of the engine at the
  last such snapshot, whatever clients, workers and sweeps did after it.
\<close>

section \<open>The snapshot on disk through a run\<close>

abbreviation snapshot_on_disk :: "'a background_scheme \<Rightarrow> string option" where
  "snapshot_on_disk b \<equiv> snapshot_file (files (dispatcher (server b)))"

lemma rewrite_keeps_snapshot: "snapshot_file (fst (AofLog_rewrite_from env d a s)) = snapshot_file d"
  by (simp add: AofLog_rewrite_from_def open_append_def Let_def split: prod.splits)

lemma dispatch_keeps_snapshot:
  assumes "CommandDispatcher_dispatch env d cmd = Inr (d', reply)"
  shows "snapshot_file (files d') = snapshot_file (files d)"
proof (cases "cmd_type cmd = Bgrewriteaof")
  case False
  then show ?thesis using dispatch_frame[OF assms] by simp
next
  case True
  then show ?thesis using assms rewrite_keeps_snapshot[of "env_io env" "files d" "aof_log d" "storage d"]
    by (auto simp: CommandDispatcher_dispatch_def handle_bgrewriteaof_def Let_def split: if_splits prod.splits)
qed

interpretation snapfile: session_invariant "\<lambda>d c. snapshot_file (files d) = f" "\<lambda>_. True" for f
  by unfold_locales (auto dest: dispatch_keeps_snapshot)

lemma server_step_snapshot:
  assumes "server_step h rs ev = Inr rs'" "ev \<noteq> Upkeep (Snapshot True)"
  shows "snapshot_on_disk rs' = snapshot_on_disk rs"
proof (cases ev)
  case (Accept_round t1 t2 r)
  have "snapshot_on_disk (accept_handler t1 t2 rs c) = snapshot_on_disk rs" for rs c
    by (simp add: accept_handler_def update_metrics_def SessionWorker_dispatch_def Let_def split: prod.splits)
  with accept_step_keeps[of "\<lambda>s. snapshot_on_disk s = snapshot_on_disk rs" t1 t2 rs r] assms(1) Accept_round
  show ?thesis by simp
next
  case (Round i env)
  then show ?thesis using assms(1)
    by (auto simp: round_step_def Let_def split: if_splits worker.splits dest: snapfile.round_keeps[OF _ refl])
next
  case (Upkeep u)
  then show ?thesis using assms
    by (cases u) (auto simp: SnapshotScheduler_write_def SnapshotWriter_write_def Let_def split: prod.splits)
qed (use assms in \<open>auto elim: signal_step_result\<close>)

lemma server_steps_snapshot:
  "fold_res (server_step h) evs rs = Inr rs' \<Longrightarrow> Upkeep (Snapshot True) \<notin> set evs \<Longrightarrow>
     snapshot_on_disk rs' = snapshot_on_disk rs"
proof (induction evs arbitrary: rs)
  case (Cons ev evs)
  then show ?case by (cases "server_step h rs ev") (auto dest!: server_step_snapshot)
qed simp

lemma snapshot_event:
  assumes "both_running rs"
  shows "\<exists>rs'. server_step h rs (Upkeep (Snapshot True)) = Inr rs' \<and> both_running rs'
     \<and> snapshot_on_disk rs' = Some (snapshot_content (StorageEngine_dump_entries (storage (dispatcher (server rs)))))"
  using assms
  by (simp add: both_running_def SnapshotScheduler_running_def SnapshotScheduler_write_def SnapshotWriter_write_def Let_def)

text \<open>A run that is serving: what its events started from.\<close>

lemma run_busy:
  assumes "DatabaseServer_run h e (DatabaseServer_new cfg ok fs l) = Inr (Serving rs)" "tcp_running (tcp rs)"
  obtains rs0 where "run_ok h (socket_result (run_os e)) rs0" "both_running rs0"
    "fold_res (server_step h) (run_busy e) rs0 = Inr rs"
    "\<And>evs rs1. fold_res (server_step h) evs rs0 = Inr rs1 \<Longrightarrow> tcp_running (tcp rs1) \<Longrightarrow>
       DatabaseServer_run h (e\<lparr>run_busy := evs\<rparr>) (DatabaseServer_new cfg ok fs l) = Inr (Serving rs1)"
proof -
  obtain srv1 where srv1: "DatabaseServer_recover h (run_read_ok e) (DatabaseServer_new cfg ok fs l) = Inr srv1"
    "server_ok False h srv1" using recover_ok by blast
  let ?b = "add_log (\<lambda>l. log_info l ''TCP server bound, starting accept loop'')
      (foldl (upkeep_step h) (start_schedulers srv1) (run_early e))"
  obtain t bound where t: "open_listener e srv1 = (t, bound)" by (rule prod.exhaust)
  from assms srv1(1) t obtain rs1 where bound: "bound" and
    busy: "fold_res (server_step h) (run_busy e) (start_serving e ?b t) = Inr rs1"
    and rs1: "rs = rs1 \<or> \<not> tcp_running (tcp rs1)
      \<and> fold_res (server_step h) (run_drain e) (rs1\<lparr>threads := ThreadPool_shutdown (threads rs1)\<rparr>) = Inr rs"
    by (auto simp: DatabaseServer_run_def Let_def split: if_splits)
  have rs: "rs = rs1" using rs1 assms(2) server_steps_stopped by fastforce
  show thesis
  proof (rule that)
    show "run_ok h (socket_result (run_os e)) (start_serving e ?b t)"
      using run_ok_start[of e srv1 t h ?b] t bound early_ok[OF srv1(2)] by simp
    show "both_running (start_serving e ?b t)"
      using early_running[of h srv1 "run_early e"] by (simp add: both_running_def start_serving_def add_log_def)
    show "fold_res (server_step h) (run_busy e) (start_serving e ?b t) = Inr rs" using busy rs by simp
    show "DatabaseServer_run h (e\<lparr>run_busy := evs\<rparr>) (DatabaseServer_new cfg ok fs l) = Inr (Serving rs1)"
      if "fold_res (server_step h) evs (start_serving e ?b t) = Inr rs1" "tcp_running (tcp rs1)" for evs rs1
      using srv1(1) t bound that by (simp add: DatabaseServer_run_def open_listener_def start_serving_def Let_def)
  qed
qed

section \<open>An example\<close>

text \<open>A server that has recovered one key from its log and has no clients.\<close>

lemma example_idle:
  "\<exists>rs. DatabaseServer_run (\<lambda>_. 0) (example_run\<lparr>run_busy := []\<rparr>) example_server = Inr (Serving rs)
     \<and> stored (\<lambda>_. 0) (dispatcher (server rs)) = [''k'' \<mapsto> fresh_entry ''a b'']
     \<and> StorageEngine_entry_count (storage (dispatcher (server rs))) = 1
     \<and> (\<forall>us. DatabaseServer_run (\<lambda>_. 0) (example_run\<lparr>run_busy := map Upkeep us\<rparr>) example_server
               = Inr (Serving (foldl (upkeep_step (\<lambda>_. 0)) rs us))
             \<and> tcp_running (tcp (foldl (upkeep_step (\<lambda>_. 0)) rs us)))"
proof -
  obtain srv where srv: "DatabaseServer_recover (\<lambda>_. 0) True example_server = Inr srv"
    "dispatcher_ok (\<lambda>_. 0) (dispatcher srv)" "stored (\<lambda>_. 0) (dispatcher srv) = [''k'' \<mapsto> fresh_entry ''a b'']"
    "config srv = ServerConfig_default" using example_recovery by blast
  let ?b = "add_log (\<lambda>l. log_info l ''TCP server bound, starting accept loop'') (start_schedulers srv)"
  let ?rs = "start_serving example_run ?b (example_listener srv)"
  have ex: "run_early (example_run\<lparr>run_busy := evs\<rparr>) = []" "run_read_ok (example_run\<lparr>run_busy := evs\<rparr>)"
    "open_listener (example_run\<lparr>run_busy := evs\<rparr>) srv = (example_listener srv, True)"
    "start_serving (example_run\<lparr>run_busy := evs\<rparr>) bg t = start_serving example_run bg t" for evs bg t
    using example_listener(1)[OF srv(4)] by (simp_all add: open_listener_def start_serving_def example_run_def)
  have steps: "fold_res (server_step h) (map Upkeep us) rs = Inr (foldl (upkeep_step h) rs us)" for h us rs
    by (induction us arbitrary: rs) simp_all
  have "tcp_running (tcp (foldl (upkeep_step (\<lambda>_. 0)) ?rs us))" for us
    by (rule foldl_invariant[where I = "\<lambda>rs. tcp_running (tcp rs)"])
      (simp_all add: start_serving_def example_listener(2)[OF srv(4)])
  then have run: "DatabaseServer_run (\<lambda>_. 0) (example_run\<lparr>run_busy := map Upkeep us\<rparr>) example_server
        = Inr (Serving (foldl (upkeep_step (\<lambda>_. 0)) ?rs us))
      \<and> tcp_running (tcp (foldl (upkeep_step (\<lambda>_. 0)) ?rs us))" for us
    using srv(1) by (simp add: DatabaseServer_run_def ex steps Let_def)
  have store: "storage (dispatcher (server ?rs)) = storage (dispatcher srv)"
    by (simp add: start_serving_def add_log_def start_schedulers_def)
  have "StorageEngine_entry_count (storage (dispatcher srv)) = 1"
    using entry_count_correct[of "\<lambda>_. 0" "storage (dispatcher srv)"] srv(2,3) by (simp add: dispatcher_ok_def)
  then show ?thesis using run run[of "[]"] store srv(3) by (intro exI[of _ ?rs]) simp
qed

section \<open>Property\<close>



end
