(* ===== verification/Expiry.thy ===== *)
theory Expiry
  imports Server
begin

text \<open>
  The life of a key with a deadline, across the components that take part in it: the parser,
  the dispatcher, the engine and the sweep of \<open>ExpirationScheduler\<close> (src/ttl/scheduler.cpp).
  The engine keeps an expired entry until a sweep removes it: \<open>GET\<close> hides it at once and
  \<open>EXISTS\<close> does not.
\<close>

section \<open>Requests\<close>

text \<open>What the dispatcher does with a line, if it parses.\<close>

definition request :: "call_env \<Rightarrow> CommandDispatcher \<Rightarrow> string list \<Rightarrow> (CommandDispatcher \<times> string) res option" where
  "request env d ws = map_option (CommandDispatcher_dispatch env d) (parse_line (join_words ws))"

definition request_reply :: "call_env \<Rightarrow> CommandDispatcher \<Rightarrow> string list \<Rightarrow> string option" where
  "request_reply env d ws = (case request env d ws of Some (Inr (d', r)) \<Rightarrow> Some r | _ \<Rightarrow> None)"

lemma request_refines:
  assumes "dispatcher_ok (env_hash env) d" "is_word name" "\<forall>a \<in> set args. is_word a"
    and "spec_command (env_clock env) (command_type_from_name name) args (stored (env_hash env) d) = Some (Inr (m, r))"
  shows "\<exists>d'. request env d (name # args) = Some (Inr (d', r)) \<and> dispatcher_ok (env_hash env) d'
     \<and> stored (env_hash env) d' = m"
proof -
  let ?c = "\<lparr>cmd_type = command_type_from_name name, cmd_name = name, cmd_args = args\<rparr>"
  have "parse_line (join_words (name # args)) = Some ?c"
    using parse_line_join_words[of name args] assms(2,3) by simp
  moreover have "refines_command (env_hash env) (CommandDispatcher_dispatch env d ?c) (Inr (m, r))"
    using dispatch_refines[OF assms(1), of ?c] assms(4) by simp
  ultimately show ?thesis
    by (cases "CommandDispatcher_dispatch env d ?c") (auto simp: request_def refines_command_def)
qed

lemma command_words:
  "command_type_from_name ''SET'' = Set" "command_type_from_name ''GET'' = Get"
  "command_type_from_name ''EXISTS'' = Exists" "command_type_from_name ''EXPIRE'' = Expire"
  by code_simp+

lemma command_is_word: "is_word ''SET''" "is_word ''GET''" "is_word ''EXISTS''" "is_word ''EXPIRE''"
  by (simp_all add: is_word_def isspace_def)

lemmas command_facts = command_words command_is_word

lemma get_reply:
  assumes "dispatcher_ok (env_hash env) d" "is_word k"
  shows "request_reply env d [''GET'', k] = Some (bulk_reply (spec_get (env_clock env 0) (stored (env_hash env) d) k))"
  using request_refines[OF assms(1) command_is_word(2), of "[k]"] assms(2) command_words
  by (auto simp: request_reply_def)

lemma exists_reply:
  assumes "dispatcher_ok (env_hash env) d" "is_word k"
  shows "request_reply env d [''EXISTS'', k]
     = Some (integer_response (if stored (env_hash env) d k \<noteq> None then 1 else 0))"
  using request_refines[OF assms(1) command_is_word(3), of "[k]"] assms(2) command_words
  by (auto simp: request_reply_def)

section \<open>The sweep\<close>

definition swept :: "hash \<Rightarrow> (nat \<Rightarrow> int) \<Rightarrow> logger \<Rightarrow> CommandDispatcher \<Rightarrow> CommandDispatcher" where
  "swept h clock l d = d\<lparr>storage := fst (ExpirationScheduler_sweep h clock (storage d) l)\<rparr>"

lemma swept_ok: "dispatcher_ok h d \<Longrightarrow> dispatcher_ok h (swept h clock l d)"
  by (simp add: swept_def ExpirationScheduler_sweep_def dispatcher_ok_def purge_ok Let_def)

lemma swept_view:
  assumes "dispatcher_ok h d" "stored h d k = Some e" "expires_at e = Some t"
  shows "\<forall>j. t \<le> clock j \<Longrightarrow> stored h (swept h clock l d) k = None"
    and "\<forall>j. clock j < t \<Longrightarrow> stored h (swept h clock l d) k = Some e"
proof -
  have ok: "engine_ok h (storage d)" using assms(1) by (simp add: dispatcher_ok_def)
  show "stored h (swept h clock l d) k = None" if "\<forall>j. t \<le> clock j"
    using purge_removes[OF ok that assms(2)] assms(3)
    by (simp add: swept_def ExpirationScheduler_sweep_def expired_at_def Let_def)
  show "stored h (swept h clock l d) k = Some e" if "\<forall>j. clock j < t"
    using purge_keeps[OF ok _ assms(2), of clock "t - 1"] that assms(3)
    by (simp add: swept_def ExpirationScheduler_sweep_def expired_at_def Let_def)
qed

section \<open>Property\<close>

text \<open>
  C7: the life of a key with a deadline, on the wire. After \<open>SET\<close> a \<open>GET\<close> gives the words of
  the value at any time. After \<open>EXPIRE\<close> with a number \<open>n\<close> of seconds, whose deadline fits the
  clock, a \<open>GET\<close> gives the value before the deadline and null from the deadline on, while
  \<open>EXISTS\<close> still counts the key; a sweep whose clock is past the deadline removes it, and then
  \<open>EXISTS\<close> counts nothing; a sweep before the deadline leaves the key; and a new \<open>SET\<close> takes
  the deadline away.
\<close>

theorem expire_lifecycle:
  assumes "dispatcher_ok h d" "env_hash env1 = h" "env_hash env2 = h" "is_word k" "\<forall>w \<in> set (w1 # ws). is_word w"
    and "is_word ttl" "stoll ttl = Inr n" "add_seconds (env_clock env2 0) n = Inr t"
  shows "\<exists>d1 d2. request env1 d (''SET'' # k # w1 # ws) = Some (Inr (d1, ok_response))
     \<and> request env2 d1 [''EXPIRE'', k, ttl] = Some (Inr (d2, integer_response 1))
     \<and> (\<forall>env. env_hash env = h \<longrightarrow>
          request_reply env d1 [''GET'', k] = Some (bulk_string_response (join_words (w1 # ws)))
        \<and> request_reply env d2 [''GET'', k] = Some (if env_clock env 0 < t
              then bulk_string_response (join_words (w1 # ws)) else null_bulk_response)
        \<and> request_reply env d2 [''EXISTS'', k] = Some (integer_response 1)
        \<and> (\<forall>clock l. (\<forall>j. t \<le> clock j) \<longrightarrow>
             request_reply env (swept h clock l d2) [''EXISTS'', k] = Some (integer_response 0))
        \<and> (\<forall>clock l. (\<forall>j. clock j < t) \<longrightarrow>
             request_reply env (swept h clock l d2) [''EXISTS'', k] = Some (integer_response 1))
        \<and> (\<exists>d3. request env d2 (''SET'' # k # w1 # ws) = Some (Inr (d3, ok_response))
             \<and> (\<forall>env'. env_hash env' = h \<longrightarrow>
                  request_reply env' d3 [''GET'', k] = Some (bulk_string_response (join_words (w1 # ws))))))"
proof -
  let ?v = "join_words (w1 # ws)"
  have set: "\<exists>d'. request env d0 (''SET'' # k # w1 # ws) = Some (Inr (d', ok_response)) \<and> dispatcher_ok h d'
      \<and> stored h d' k = Some (fresh_entry ?v)" if "env_hash env = h" "dispatcher_ok h d0" for env d0
    using request_refines[of env d0 "''SET''" "k # w1 # ws" "(stored h d0)(k \<mapsto> fresh_entry ?v)" ok_response]
      that assms(4,5) command_facts by (auto simp del: join_words.simps)
  have live: "request_reply env d0 [''GET'', k] = Some (bulk_string_response ?v)"
    if "env_hash env = h" "dispatcher_ok h d0" "stored h d0 k = Some (fresh_entry ?v)" for env d0
    using get_reply[of env d0 k] that assms(4) by (simp add: spec_get_def bulk_reply_def fresh_entry_def expired_at_def)
  obtain d1 where d1: "request env1 d (''SET'' # k # w1 # ws) = Some (Inr (d1, ok_response))" "dispatcher_ok h d1"
    "stored h d1 k = Some (fresh_entry ?v)" using set[OF assms(2,1)] by blast
  let ?e = "(fresh_entry ?v)\<lparr>expires_at := Some t\<rparr>"
  obtain d2 where d2: "request env2 d1 [''EXPIRE'', k, ttl] = Some (Inr (d2, integer_response 1))" "dispatcher_ok h d2"
    "stored h d2 k = Some ?e"
    using request_refines[of env2 d1 "''EXPIRE''" "[k, ttl]" "(stored h d1)(k \<mapsto> ?e)" "integer_response 1"]
      assms(3,4,6-8) d1(2,3) command_facts by auto
  have e: "expires_at ?e = Some t" by simp
  have get: "request_reply env d2 [''GET'', k] = Some (if env_clock env 0 < t then bulk_string_response ?v else null_bulk_response)"
    and ex: "request_reply env d2 [''EXISTS'', k] = Some (integer_response 1)"
    and gone: "\<forall>j. t \<le> clock j \<Longrightarrow> request_reply env (swept h clock l d2) [''EXISTS'', k] = Some (integer_response 0)"
    and kept: "\<forall>j. clock j < t \<Longrightarrow> request_reply env (swept h clock l d2) [''EXISTS'', k] = Some (integer_response 1)"
    if "env_hash env = h" for env clock l
    using get_reply[of env d2 k] exists_reply[of env d2 k] exists_reply[of env "swept h clock l d2" k] that assms(4) d2(2,3)
      swept_ok[OF d2(2), of clock l] swept_view[OF d2(2,3) e, of clock l]
    by (simp_all add: spec_get_def bulk_reply_def fresh_entry_def expired_at_def)
  have again: "\<exists>d3. request env d2 (''SET'' # k # w1 # ws) = Some (Inr (d3, ok_response))
      \<and> (\<forall>env'. env_hash env' = h \<longrightarrow> request_reply env' d3 [''GET'', k] = Some (bulk_string_response ?v))"
    if "env_hash env = h" for env
    using set[OF that d2(2)] live by blast
  show ?thesis using d1 d2(1) live get ex gone kept again by blast
qed

theorem expire_lifecycle_witness:
  "\<exists>d1 d2. request quiet_env new_dispatcher [''SET'', ''k'', ''a'', ''b''] = Some (Inr (d1, ''+OK''))
     \<and> request quiet_env d1 [''EXPIRE'', ''k'', ''5''] = Some (Inr (d2, '':1''))
     \<and> request_reply (quiet_env\<lparr>env_clock := \<lambda>_. 4999999999\<rparr>) d2 [''GET'', ''k''] = Some (''$3'' @ crlf @ ''a b'')
     \<and> request_reply (quiet_env\<lparr>env_clock := \<lambda>_. 5000000000\<rparr>) d2 [''GET'', ''k''] = Some ''$-1''
     \<and> request_reply quiet_env (swept (\<lambda>_. 0) (\<lambda>_. 5000000000) \<lparr>g_level = Warn, stderr_out = []\<rparr> d2) [''EXISTS'', ''k''] = Some '':0''"
proof -
  have ok: "dispatcher_ok (\<lambda>_. 0) new_dispatcher" using dispatcher_ok_new by simp
  have words: "is_word ''k''" "\<forall>w \<in> set [''a'', ''b'']. is_word w" "is_word ''5''"
    by (simp_all add: is_word_def isspace_def)
  have num: "stoll ''5'' = Inr 5" "add_seconds (env_clock quiet_env 0) 5 = Inr 5000000000" by code_simp+
  have texts: "bulk_string_response (join_words [''a'', ''b'']) = ''$3'' @ crlf @ ''a b''" "ok_response = ''+OK''"
    "integer_response 1 = '':1''" "integer_response 0 = '':0''" "null_bulk_response = ''$-1''" by code_simp+
  from expire_lifecycle[OF ok, of quiet_env quiet_env "''k''" "''a''" "[''b'']" "''5''" 5 5000000000, OF _ _ words num]
  obtain d1 d2 where d: "request quiet_env new_dispatcher [''SET'', ''k'', ''a'', ''b''] = Some (Inr (d1, ''+OK''))"
    "request quiet_env d1 [''EXPIRE'', ''k'', ''5''] = Some (Inr (d2, '':1''))"
    and at: "\<And>env. env_hash env = (\<lambda>_. 0) \<Longrightarrow> request_reply env d2 [''GET'', ''k'']
        = Some (if env_clock env 0 < 5000000000 then ''$3'' @ crlf @ ''a b'' else ''$-1'')
      \<and> (\<forall>clock l. (\<forall>j. 5000000000 \<le> clock j) \<longrightarrow>
          request_reply env (swept (\<lambda>_. 0) clock l d2) [''EXISTS'', ''k''] = Some '':0'')"
    unfolding texts by fastforce
  from at[of "quiet_env\<lparr>env_clock := \<lambda>_. 4999999999\<rparr>"] at[of "quiet_env\<lparr>env_clock := \<lambda>_. 5000000000\<rparr>"] at[of quiet_env]
  show ?thesis using d by (intro exI[of _ d1] exI[of _ d2]) simp
qed

end
