(* ===== verification/Scan_Writers.thy ===== *)
theory Scan_Writers
  imports Scan_Client
begin

text \<open>
  \<open>SCAN\<close> while other clients write. A cursor is a position in the table, and the table changes
  between two pages. What the code promises then: a new node goes to the front of its chain and
  an overwrite stays where it is, so as long as nothing is deleted and the table is not
  rehashed, no key that was there from the beginning is missed (it may be sent twice), no key
  is made up, and the dialogue has a bounded number of pages. A deletion can make the scan
  pass over a key that was there all the time (\<open>delete_hides_key\<close>).
\<close>

section \<open>Tables that only grow\<close>

text \<open>The second table has more buckets, or every chain of it is a chain of the first with new nodes in front.\<close>

definition grows :: "HashTable \<Rightarrow> HashTable \<Rightarrow> bool" where
  "grows t t' \<longleftrightarrow> length (buckets t) \<le> length (buckets t')
     \<and> (0 < length (buckets t) \<and> length (buckets t') = length (buckets t) \<longrightarrow>
          table_size t \<le> table_size t'
          \<and> (\<forall>b < length (buckets t). \<exists>new. map fst (buckets t' ! b) = new @ map fst (buckets t ! b)))"

lemma grows_refl: "grows t t"
  by (simp add: grows_def)

lemma grows_trans:
  assumes "grows t u" "grows u v"
  shows "grows t v"
proof (cases "length (buckets v) = length (buckets t) \<and> 0 < length (buckets t)")
  case True
  with assms have u: "length (buckets u) = length (buckets t)" by (simp add: grows_def)
  have "\<exists>new. map fst (buckets v ! b) = new @ map fst (buckets t ! b)" if b: "b < length (buckets t)" for b
  proof -
    obtain n1 n2 where "map fst (buckets u ! b) = n1 @ map fst (buckets t ! b)"
      "map fst (buckets v ! b) = n2 @ map fst (buckets u ! b)"
      using assms True u b unfolding grows_def by metis
    then show ?thesis by (metis append.assoc)
  qed
  then show ?thesis using assms True u by (auto simp: grows_def)
qed (use assms in \<open>auto simp: grows_def\<close>)

lemma fold_grows:
  assumes "\<And>t x t'. f t x = Inr t' \<Longrightarrow> grows (g t) (g t')" "fold_res f xs t = Inr t'"
  shows "grows (g t) (g t')"
  using fold_res_invariant[of "\<lambda>u. grows (g t) (g u)" f xs t t'] assms grows_trans grows_refl by metis

lemma insert_depth_buckets: "insert_depth h d t k e = Inr (t', b) \<Longrightarrow> length (buckets t) \<le> length (buckets t')"
proof (induction d arbitrary: t k e t' b)
  case (Suc d)
  have fold: "length (buckets u) \<le> length (buckets u')"
    if "fold_res (\<lambda>t (k, e). bind_res (insert_depth h d t k e) (\<lambda>(t', _). Inr t')) ns u = Inr u'" for ns u u'
    using fold_res_invariant[OF _ that, of "\<lambda>v. length (buckets u) \<le> length (buckets v)"] Suc.IH
    by (fastforce intro: order_trans)
  from Suc.prems show ?case
    by (auto simp: Let_def rehash_with_def split: option.splits if_splits dest!: fold)
qed simp

lemma fold_insert_buckets:
  assumes "fold_res (\<lambda>t (k, e). bind_res (insert_depth h d t k e) (\<lambda>(t', _). Inr t')) ns u = Inr u'"
  shows "length (buckets u) \<le> length (buckets u')"
  by (rule fold_res_invariant[OF _ assms, of "\<lambda>v. length (buckets u) \<le> length (buckets v)"])
    (auto dest!: insert_depth_buckets)

lemma insert_grows:
  assumes "HashTable_insert h t k e = Inr (t', b)"
  shows "grows t t'"
proof -
  let ?i = "HashTable_bucket_index h t k"
  have le: "length (buckets t) \<le> length (buckets t')"
    using insert_depth_buckets assms by (simp add: HashTable_insert_def)
  show ?thesis
  proof (cases "chain_assign k e (buckets t ! ?i)")
    case (Some ns)
    then have "t' = set_bucket ?i ns t" using assms by (simp add: HashTable_insert_def numeral_2_eq_2 Let_def)
    moreover have "\<exists>new. map fst ((buckets t)[?i := ns] ! b) = new @ map fst (buckets t ! b)" if "b < length (buckets t)" for b
      using chain_assign_Some[OF Some] that by (cases "b = ?i") simp_all
    ultimately show ?thesis by (simp add: grows_def)
  next
    case None
    let ?t = "(set_bucket ?i ((k, e) # buckets t ! ?i) t)\<lparr>table_size := Suc (table_size t)\<rparr>"
    have t': "rehash_with (insert_depth h (Suc 0)) ?t = Inr t'"
      using assms None by (simp add: HashTable_insert_def numeral_2_eq_2 Let_def)
    show ?thesis
    proof (cases "load_within (table_size ?t) (length (buckets ?t))")
      case True
      then have "t' = ?t" using t' by (simp add: rehash_with_def)
      moreover have "\<exists>new. map fst ((buckets t)[?i := (k, e) # buckets t ! ?i] ! b) = new @ map fst (buckets t ! b)"
        if "b < length (buckets t)" for b
        using that by (cases "b = ?i") simp_all
      ultimately show ?thesis by (simp add: grows_def)
    next
      case False
      have "length (buckets t) * 2 \<le> length (buckets t')"
        using fold_insert_buckets[of h "Suc 0" "concat (buckets ?t)"
            "\<lparr>buckets = replicate (length (buckets ?t) * 2) [], table_size = 0\<rparr>" t'] t' False
        by (simp add: rehash_with_def del: insert_depth.simps)
      then show ?thesis using le by (auto simp: grows_def)
    qed
  qed
qed

section \<open>Commands that only add\<close>

lemma set_grows: "StorageEngine_set h s k v = Inr (s', ok) \<Longrightarrow> grows (table s) (table s')"
  by (auto simp: StorageEngine_set_def dest!: insert_grows)

lemma set_ttl_grows: "StorageEngine_set_ttl h now s k n = Inr (s', ok) \<Longrightarrow> grows (table s) (table s')"
  by (auto simp: StorageEngine_set_ttl_def grows_refl split: option.splits dest!: insert_grows)

lemma increment_grows: "CounterStore_increment h now s k n = Inr (s', v) \<Longrightarrow> grows (table s) (table s')"
  by (auto simp: CounterStore_increment_def dest!: set_grows)

lemma mset_grows: "BatchOperations_mset h s pairs = Inr (s', n) \<Longrightarrow> grows (table s) (table s')"
  unfolding BatchOperations_mset_def
  by (drule fold_grows[where g = "\<lambda>st. table (fst st)", rotated]) (auto dest: set_grows)

lemma dispatch_grows:
  assumes "CommandDispatcher_dispatch env d cmd = Inr (d', r)" "cmd_type cmd \<noteq> Delete" "cmd_type cmd \<noteq> Flushdb"
  shows "grows (table (storage d)) (table (storage d'))"
  using assms
  by (cases "cmd_type cmd")
    (auto simp: handler_frame_defs on_storage_def handle_mset_def handle_incr_def handle_decr_def handle_incrby_def
      CounterStore_decrement_def grows_refl split: list.splits prod.splits option.splits if_splits
      dest: set_grows set_ttl_grows increment_grows mset_grows)

section \<open>What is left to scan\<close>

lemma set_drop_nth: "x \<in> set (drop n xs) \<longleftrightarrow> (\<exists>b. n \<le> b \<and> b < length xs \<and> x = xs ! b)"
proof
  assume "\<exists>b. n \<le> b \<and> b < length xs \<and> x = xs ! b"
  then obtain b where "n \<le> b" "b < length xs" "x = xs ! b" by blast
  then show "x \<in> set (drop n xs)" by (auto simp: in_set_conv_nth intro!: exI[of _ "b - n"])
next
  assume "x \<in> set (drop n xs)"
  then obtain i where "i < length xs - n" "x = xs ! (n + i)" by (auto simp: in_set_conv_nth)
  then show "\<exists>b. n \<le> b \<and> b < length xs \<and> x = xs ! b" by (intro exI[of _ "n + i"]) simp
qed

lemma scan_rest_mem:
  "k \<in> set (scan_rest t c) \<longleftrightarrow> cur_bucket c < length (buckets t)
     \<and> (k \<in> set (drop (cur_chain c) (map fst (buckets t ! cur_bucket c)))
        \<or> (\<exists>b. cur_bucket c < b \<and> b < length (buckets t) \<and> k \<in> set (map fst (buckets t ! b))))"
proof -
  have "k \<in> set (map fst (concat (drop (Suc a) bs))) \<longleftrightarrow> (\<exists>ch \<in> set (drop (Suc a) bs). k \<in> set (map fst ch))"
    for a and bs :: "Node list list" by (auto simp: image_iff)
  then have "k \<in> set (map fst (concat (drop (Suc a) bs))) \<longleftrightarrow> (\<exists>b. a < b \<and> b < length bs \<and> k \<in> set (map fst (bs ! b)))"
    for a and bs :: "Node list list" unfolding Bex_def set_drop_nth Suc_le_eq by blast
  then show ?thesis by (simp only: scan_rest_def map_append set_append Un_iff drop_map split: if_split) simp
qed

lemma bucket_nodes: "b < length (buckets t) \<Longrightarrow> set (map fst (buckets t ! b)) \<subseteq> set (map fst (table_nodes t))"
  using nth_mem[of b "buckets t"] by (fastforce simp: table_nodes_def)

lemma scan_rest_subset: "set (scan_rest t c) \<subseteq> set (map fst (table_nodes t))"
  using bucket_nodes unfolding subset_iff scan_rest_mem by (meson in_set_dropD)

lemma drop_append_subset: "set (drop i ys) \<subseteq> set (drop i (xs @ ys))"
  by (auto simp: drop_append intro: set_drop_subset_set_drop[THEN subsetD, rotated])

lemma grows_rest:
  assumes "grows t t'" "length (buckets t') = length (buckets t)" "0 < length (buckets t)"
  shows "set (scan_rest t c) \<subseteq> set (scan_rest t' c)" "cursor_ok t c \<Longrightarrow> cursor_ok t' c" "table_size t \<le> table_size t'"
proof -
  have chain: "\<exists>new. map fst (buckets t' ! b) = new @ map fst (buckets t ! b)" if "b < length (buckets t)" for b
    using assms that by (simp add: grows_def)
  show "set (scan_rest t c) \<subseteq> set (scan_rest t' c)"
  proof
    fix k assume k: "k \<in> set (scan_rest t c)"
    then have b: "cur_bucket c < length (buckets t)" by (simp add: scan_rest_mem)
    obtain new where new: "map fst (buckets t' ! cur_bucket c) = new @ map fst (buckets t ! cur_bucket c)"
      using chain[OF b] by blast
    have later: "k \<in> set (map fst (buckets t' ! b))" if "b < length (buckets t)" "k \<in> set (map fst (buckets t ! b))" for b
      using chain[OF that(1)] that(2) by (metis Un_iff set_append)
    from k show "k \<in> set (scan_rest t' c)"
      unfolding scan_rest_mem new assms(2)
      using drop_append_subset[of "cur_chain c" "map fst (buckets t ! cur_bucket c)" new] later by blast
  qed
  show "cursor_ok t' c" if "cursor_ok t c"
    using that chain[of "cur_bucket c"] assms(2) unfolding cursor_ok_def
    by (metis length_append length_map trans_le_add2)
  show "table_size t \<le> table_size t'" using assms by (simp add: grows_def)
qed

lemma stored_nodes:
  assumes "dispatcher_ok h d"
  shows "stored h d k \<noteq> None \<longleftrightarrow> k \<in> set (map fst (table_nodes (table (storage d))))"
proof -
  have "table_shape h (table (storage d))" using assms by (simp add: dispatcher_ok_def engine_ok_def table_ok_def)
  then show ?thesis by (auto simp: engine_view_def find_eq_map_of map_of_eq_None_iff)
qed

section \<open>The dialogue\<close>

text \<open>
  A client that follows its cursor: the token to send next (none when 0 has come back), the
  keys it was sent and the pages it has had. Between two pages any client may have any command
  served, except \<open>DEL\<close> and \<open>FLUSHDB\<close>, and as long as the table keeps its buckets.
\<close>

record scan_client =
  client_dispatcher :: CommandDispatcher
  client_token :: "string option"
  client_keys :: "string list"
  client_pages :: nat

abbreviation client_table :: "scan_client \<Rightarrow> HashTable" where
  "client_table c \<equiv> table (storage (client_dispatcher c))"

definition scan_start :: "CommandDispatcher \<Rightarrow> scan_client" where
  "scan_start d = \<lparr>client_dispatcher = d, client_token = Some ''0'', client_keys = [], client_pages = 0\<rparr>"

inductive scan_step :: "hash \<Rightarrow> string list \<Rightarrow> scan_client \<Rightarrow> scan_client \<Rightarrow> bool" for h opts where
  page: "client_token c = Some token \<Longrightarrow>
     CommandDispatcher_dispatch env (client_dispatcher c) (scan_request token opts) = Inr (d', render (Scan_page token' keys)) \<Longrightarrow>
     scan_step h opts c
       \<lparr>client_dispatcher = d', client_token = (if token' = ''0'' then None else Some token'),
        client_keys = client_keys c @ keys, client_pages = Suc (client_pages c)\<rparr>"
| command: "env_hash env = h \<Longrightarrow> CommandDispatcher_dispatch env (client_dispatcher c) cmd = Inr (d', r) \<Longrightarrow>
     cmd_type cmd \<noteq> Delete \<Longrightarrow> cmd_type cmd \<noteq> Flushdb \<Longrightarrow>
     length (buckets (table (storage d'))) = length (buckets (client_table c)) \<Longrightarrow>
     scan_step h opts c (c\<lparr>client_dispatcher := d'\<rparr>)"

text \<open>The number of a position, when no chain has more than \<open>m\<close> nodes.\<close>

definition cursor_position :: "nat \<Rightarrow> ScanCursor \<Rightarrow> nat" where
  "cursor_position m c = cur_bucket c * Suc m + cur_chain c"

lemma position_mono: "c < c' \<Longrightarrow> cur_chain c \<le> m \<Longrightarrow> cursor_position m c < cursor_position m c'"
proof (cases "cur_bucket c < cur_bucket c'")
  case True
  assume "cur_chain c \<le> m"
  then have "cursor_position m c < Suc (cur_bucket c) * Suc m" by (simp add: cursor_position_def)
  also have "\<dots> \<le> cur_bucket c' * Suc m" using True by (intro mult_le_mono1) simp
  also have "\<dots> \<le> cursor_position m c'" by (simp add: cursor_position_def)
  finally show ?thesis .
qed (auto simp: less_ScanCursor_def cursor_position_def)

lemma position_bound: "cur_bucket c < n \<Longrightarrow> cur_chain c \<le> m \<Longrightarrow> Suc (cursor_position m c) \<le> n * Suc m"
proof -
  assume b: "cur_bucket c < n" and "cur_chain c \<le> m"
  then have "Suc (cursor_position m c) \<le> Suc (cur_bucket c) * Suc m" by (simp add: cursor_position_def)
  also have "\<dots> \<le> n * Suc m" using b by (intro mult_le_mono1) simp
  finally show ?thesis .
qed

text \<open>The keys the scan owes: those that matched when it began.\<close>

abbreviation owed :: "hash \<Rightarrow> CommandDispatcher \<Rightarrow> string \<Rightarrow> string \<Rightarrow> bool" where
  "owed h d pattern k \<equiv> stored h d k \<noteq> None \<and> KeyScanner_matches k pattern"

definition token_inv :: "hash \<Rightarrow> CommandDispatcher \<Rightarrow> string \<Rightarrow> scan_client \<Rightarrow> string option \<Rightarrow> bool" where
  "token_inv h d0 pattern c tok \<longleftrightarrow>
     (case tok of
        None \<Rightarrow> (\<forall>k. owed h d0 pattern k \<longrightarrow> k \<in> set (client_keys c))
          \<and> client_pages c \<le> length (buckets (client_table c)) * Suc (table_size (client_table c))
      | Some token \<Rightarrow> (\<exists>p. decode_scan_cursor token = Inr p \<and> cursor_ok (client_table c) p
          \<and> cur_bucket p < length (buckets (client_table c))
          \<and> (\<forall>k. owed h d0 pattern k \<longrightarrow> k \<in> set (client_keys c) \<or> k \<in> set (scan_rest (client_table c) p))
          \<and> (\<forall>m \<ge> table_size (client_table c). client_pages c \<le> cursor_position m p)))"

definition scan_inv :: "hash \<Rightarrow> CommandDispatcher \<Rightarrow> string \<Rightarrow> scan_client \<Rightarrow> bool" where
  "scan_inv h d0 pattern c \<longleftrightarrow> dispatcher_ok h (client_dispatcher c)
     \<and> length (buckets (client_table c)) \<le> 2 ^ 64
     \<and> (table_size (client_table c) < 2 ^ 64 \<longrightarrow>
          (\<forall>k \<in> set (client_keys c). owed h (client_dispatcher c) pattern k)
          \<and> token_inv h d0 pattern c (client_token c))"

lemma table_buckets: "dispatcher_ok h d \<Longrightarrow> table_ok h (table (storage d)) \<and> 0 < length (buckets (table (storage d)))"
  using table_shapeD(1)[of h "table (storage d)"] by (auto simp: dispatcher_ok_def engine_ok_def table_ok_def)

lemma scan_inv_start:
  assumes "dispatcher_ok h d" "length (buckets (table (storage d))) \<le> 2 ^ 64"
  shows "scan_inv h d pattern (scan_start d)"
  using assms table_buckets[OF assms(1)] stored_nodes[OF assms(1)]
  by (auto simp: scan_inv_def token_inv_def scan_start_def decode_scan_cursor_def cursor_ok_def scan_rest_start)

lemma scan_inv_command:
  assumes inv: "scan_inv h d0 pattern c" and env: "env_hash env = h"
    and d': "CommandDispatcher_dispatch env (client_dispatcher c) cmd = Inr (d', r)"
    and cmd: "cmd_type cmd \<noteq> Delete" "cmd_type cmd \<noteq> Flushdb"
    and len: "length (buckets (table (storage d'))) = length (buckets (client_table c))"
  shows "scan_inv h d0 pattern (c\<lparr>client_dispatcher := d'\<rparr>)"
proof -
  have ok: "dispatcher_ok h (client_dispatcher c)" using inv by (simp add: scan_inv_def)
  then have ok': "dispatcher_ok h d'" using dispatch_ok d' env by blast
  note rest = grows_rest[OF dispatch_grows[OF d' cmd] len conjunct2[OF table_buckets[OF ok]]]
  have "stored h d' k \<noteq> None" if "stored h (client_dispatcher c) k \<noteq> None" for k
    using that rest(1)[of "ScanCursor 0 0"] stored_nodes[OF ok] stored_nodes[OF ok'] by (auto simp: scan_rest_start)
  moreover have "token_inv h d0 pattern (c\<lparr>client_dispatcher := d'\<rparr>) (client_token c)"
    if "token_inv h d0 pattern c (client_token c)"
  proof (cases "client_token c")
    case None
    have "length (buckets (client_table c)) * Suc (table_size (client_table c))
        \<le> length (buckets (client_table c)) * Suc (table_size (table (storage d')))"
      using rest(3) by (intro mult_le_mono2) simp
    moreover have "client_pages c \<le> length (buckets (client_table c)) * Suc (table_size (client_table c))"
      using that None by (simp add: token_inv_def)
    ultimately have "client_pages c \<le> length (buckets (client_table c)) * Suc (table_size (table (storage d')))"
      by (rule order_trans[rotated])
    with that None len show ?thesis by (simp add: token_inv_def)
  next
    case (Some token)
    with that obtain p where p: "decode_scan_cursor token = Inr p" "cursor_ok (client_table c) p"
      "cur_bucket p < length (buckets (client_table c))"
      "\<forall>k. owed h d0 pattern k \<longrightarrow> k \<in> set (client_keys c) \<or> k \<in> set (scan_rest (client_table c) p)"
      "\<forall>m \<ge> table_size (client_table c). client_pages c \<le> cursor_position m p"
      by (auto simp: token_inv_def)
    moreover have "\<forall>k. owed h d0 pattern k \<longrightarrow> k \<in> set (client_keys c) \<or> k \<in> set (scan_rest (table (storage d')) p)"
      using p(4) rest(1)[of p] by blast
    moreover have "\<forall>m \<ge> table_size (table (storage d')). client_pages c \<le> cursor_position m p"
      using p(5) rest(3) order_trans by blast
    ultimately show ?thesis using Some rest(2) len by (simp add: token_inv_def)
  qed
  ultimately show ?thesis using inv ok' rest(3) len by (auto simp: scan_inv_def)
qed

lemma scan_inv_page:
  assumes inv: "scan_inv h d0 pattern c" and tok: "client_token c = Some token"
    and opts: "scan_options opts 10 ''*'' = Inr (count, pattern)" "0 < count"
    and d': "CommandDispatcher_dispatch env (client_dispatcher c) (scan_request token opts) = Inr (d', render (Scan_page token' keys))"
  defines "c' \<equiv> \<lparr>client_dispatcher = d', client_token = (if token' = ''0'' then None else Some token'),
        client_keys = client_keys c @ keys, client_pages = Suc (client_pages c)\<rparr>"
  assumes size: "table_size (client_table c) < 2 ^ 64"
  shows "scan_inv h d0 pattern c'"
proof -
  let ?t = "client_table c"
  have ok: "dispatcher_ok h (client_dispatcher c)" and len: "length (buckets ?t) \<le> 2 ^ 64"
    and sent: "\<forall>k \<in> set (client_keys c). owed h (client_dispatcher c) pattern k"
    using inv size by (auto simp: scan_inv_def)
  obtain p where p: "decode_scan_cursor token = Inr p" "cursor_ok ?t p" "cur_bucket p < length (buckets ?t)"
    "\<forall>k. owed h d0 pattern k \<longrightarrow> k \<in> set (client_keys c) \<or> k \<in> set (scan_rest ?t p)"
    "\<forall>m \<ge> table_size ?t. client_pages c \<le> cursor_position m p"
    using inv tok size by (auto simp: scan_inv_def token_inv_def)
  let ?page = "KeyScanner_scan ?t p count pattern"
  have same: "d' = (client_dispatcher c)\<lparr>metrics := MetricsCollector_record_command (metrics (client_dispatcher c))\<rparr>"
    "token' = page_token ?page" "keys = page_keys ?page"
    using dispatch_scan[OF p(1) opts(1), of env "client_dispatcher c"] d' scan_page_inject by auto
  obtain seen where seen: "scan_rest ?t p = seen @ scan_rest ?t (page_next ?page)"
    "page_keys ?page = filter (\<lambda>k. KeyScanner_matches k pattern) seen" "p \<le> page_next ?page"
    using scan_correct(1)[OF opts(2), where t = ?t and c = p and pattern = pattern] by (auto simp: scanned_def)
  have store: "storage d' = storage (client_dispatcher c)" "dispatcher_ok h d'"
    using same(1) ok by (simp_all add: dispatcher_ok_def)
  have "owed h d' pattern k" if "k \<in> set keys" for k
    using that seen(1,2) same(3) scan_rest_subset[of ?t p] stored_nodes[OF ok, of k] store(1) by auto
  then have sent': "\<forall>k \<in> set (client_keys c'). owed h d' pattern k"
    using sent store(1) by (auto simp: c'_def)
  have owe: "k \<in> set (client_keys c') \<or> k \<in> set (scan_rest ?t (page_next ?page))" if "owed h d0 pattern k" for k
    using p(4) that seen(1,2) same(3) by (auto simp: c'_def)
  have chain: "cur_chain p \<le> table_size ?t"
    using p(2,3) chain_le_size[of h ?t "cur_bucket p"] table_buckets[OF ok] by (auto simp: cursor_ok_def intro: order_trans)
  have "token_inv h d0 pattern c' (client_token c')"
  proof (cases "page_finished ?page")
    case True
    then have "scan_rest ?t (page_next ?page) = []"
      using scan_correct(3)[OF opts(2), where t = ?t and c = p and pattern = pattern] by (simp add: scan_rest_def)
    moreover have "Suc (client_pages c) \<le> length (buckets ?t) * Suc (table_size ?t)"
      using p(5) position_bound[OF p(3) chain] by (meson Suc_le_mono order_refl order_trans)
    ultimately show ?thesis using True owe same(2) store(1) by (simp add: token_inv_def c'_def page_token_def)
  next
    case False
    note nx = unfinished_cursor[OF opts(2) p(2) False]
    let ?q = "page_next ?page"
    have "cur_chain ?q < 2 ^ 64" using nx(2) chain_le_size[of h ?t "cur_bucket ?q"] table_buckets[OF ok] nx(1) size
      by (meson le_less_trans)
    then have dec: "decode_scan_cursor token' = Inr ?q" "token' \<noteq> ''0''"
      using encode_decode_cursor[of ?q] nx(1,3) len False by (auto simp: same(2) page_token_def decode_scan_cursor_def)
    have "p < ?q" using seen(3) nx(4) by (metis order_less_irrefl order_le_less)
    then have "Suc (client_pages c) \<le> cursor_position m ?q" if "table_size ?t \<le> m" for m
      using position_mono[of p ?q m] chain p(5) that by (meson Suc_leI le_less_trans order_trans)
    then show ?thesis using nx(1,5) dec owe store(1) by (simp add: token_inv_def c'_def)
  qed
  then show ?thesis using sent' store len by (simp add: scan_inv_def c'_def)
qed

lemma scan_inv_step:
  assumes "scan_inv h d0 pattern c" "scan_step h opts c c'" "scan_options opts 10 ''*'' = Inr (count, pattern)" "0 < count"
  shows "scan_inv h d0 pattern c'"
  using assms(2)
proof cases
  case (page token env d' token' keys)
  show ?thesis
  proof (cases "table_size (client_table c) < 2 ^ 64")
    case True
    then show ?thesis unfolding page(1) by (rule scan_inv_page[OF assms(1) page(2) assms(3,4) page(3)])
  next
    case False
    obtain p where "decode_scan_cursor token = Inr p"
      using page(3) by (auto simp: CommandDispatcher_dispatch_def scan_request_def handle_scan_def)
    then have "storage d' = storage (client_dispatcher c)" "channels d' = channels (client_dispatcher c)"
      using dispatch_scan[OF _ assms(3), of token p env "client_dispatcher c"] page(3) by auto
    then show ?thesis using assms(1) False page(1) by (simp add: scan_inv_def dispatcher_ok_def)
  qed
next
  case (command env cmd d' r)
  then show ?thesis using scan_inv_command[OF assms(1)] by blast
qed

interpretation scans: transition_system
  "\<lambda>c. \<exists>count. scan_options opts 10 ''*'' = Inr (count, pattern) \<and> 0 < count \<and> dispatcher_ok h d0
     \<and> length (buckets (table (storage d0))) \<le> 2 ^ 64 \<and> c = scan_start d0"
  "scan_step h opts"
  "\<lambda>c. scan_inv h d0 pattern c \<and> (\<exists>count. scan_options opts 10 ''*'' = Inr (count, pattern) \<and> 0 < count)"
  for h opts pattern d0
  by unfold_locales (auto intro: scan_inv_start scan_inv_step)

lemma page_enabled:
  assumes "scan_inv h d0 pattern c" "client_token c \<noteq> None" "table_size (client_table c) < 2 ^ 64"
    and "scan_options opts 10 ''*'' = Inr (count, pattern)"
  shows "\<exists>c'. scan_step h opts c c' \<and> client_pages c' = Suc (client_pages c)"
proof -
  obtain token p where "client_token c = Some token" "decode_scan_cursor token = Inr p"
    using assms(1-3) by (auto simp: scan_inv_def token_inv_def)
  from scan_step.page[OF this(1) dispatch_scan[OF this(2) assms(4)]] show ?thesis by fastforce
qed

section \<open>Property\<close>

text \<open>
  C15: a \<open>SCAN\<close> among writers. While a client follows its cursors, any commands but \<open>DEL\<close> and
  \<open>FLUSHDB\<close> may be served between its pages, in any order, as long as the table is not
  rehashed. When the client is told that it is done, it has been sent every matching key that
  was stored when it began; whatever it was sent matches and is stored; until it is done its
  next request gets a page; and it has had at most as many pages as there are buckets times
  one more than there are keys.
\<close>

theorem scan_among_writers:
  assumes "dispatcher_ok h d" "length (buckets (table (storage d))) \<le> 2 ^ 64"
    and "scan_options opts 10 ''*'' = Inr (count, pattern)" "0 < count"
    and "(scan_step h opts)\<^sup>*\<^sup>* (scan_start d) c"
    and "StorageEngine_entry_count (storage (client_dispatcher c)) < 2 ^ 64"
  shows "(client_token c = None \<longrightarrow>
       (\<forall>k. stored h d k \<noteq> None \<and> KeyScanner_matches k pattern \<longrightarrow> k \<in> set (client_keys c)))
     \<and> (\<forall>k \<in> set (client_keys c). stored h (client_dispatcher c) k \<noteq> None \<and> KeyScanner_matches k pattern)
     \<and> (client_token c \<noteq> None \<longrightarrow> (\<exists>c'. scan_step h opts c c' \<and> client_pages c' = Suc (client_pages c)))
     \<and> client_pages c \<le> length (buckets (client_table c)) * Suc (StorageEngine_entry_count (storage (client_dispatcher c)))"
proof -
  let ?t = "client_table c"
  have inv: "scan_inv h d pattern c" using scans.inv_reachable[OF _ assms(5), of pattern d] assms(1-4) by blast
  have size: "table_size ?t < 2 ^ 64" using assms(6) by (simp add: StorageEngine_entry_count_def)
  have tok: "token_inv h d pattern c (client_token c)"
    and sent: "\<forall>k \<in> set (client_keys c). stored h (client_dispatcher c) k \<noteq> None \<and> KeyScanner_matches k pattern"
    and ok: "table_ok h ?t"
    using inv size table_buckets by (auto simp: scan_inv_def)
  have "client_pages c \<le> length (buckets ?t) * Suc (table_size ?t)"
  proof (cases "client_token c")
    case (Some token)
    with tok obtain p where p: "cursor_ok ?t p" "cur_bucket p < length (buckets ?t)" "client_pages c \<le> cursor_position (table_size ?t) p"
      by (auto simp: token_inv_def)
    then have "cur_chain p \<le> table_size ?t" using chain_le_size[OF ok p(2)] by (simp add: cursor_ok_def)
    with p show ?thesis using position_bound[OF p(2)] by (meson Suc_leD order_trans)
  qed (use tok in \<open>simp add: token_inv_def\<close>)
  moreover have "\<forall>k. stored h d k \<noteq> None \<and> KeyScanner_matches k pattern \<longrightarrow> k \<in> set (client_keys c)" if "client_token c = None"
    using tok that by (simp add: token_inv_def)
  ultimately show ?thesis using sent page_enabled[OF inv _ size assms(3)]
    by (simp only: StorageEngine_entry_count_def) blast
qed

theorem scan_among_writers_witness:
  "\<exists>d c. stored (\<lambda>_. 0) d = [''k'' \<mapsto> fresh_entry ''v''] \<and> (scan_step (\<lambda>_. 0) [])\<^sup>*\<^sup>* (scan_start d) c
     \<and> client_token c = None \<and> ''k'' \<in> set (client_keys c)"
proof -
  let ?t = "\<lparr>buckets = [(''k'', fresh_entry ''v'')] # replicate 15 [], table_size = 1\<rparr>"
  let ?d = "new_dispatcher\<lparr>storage := StorageEngine_new\<lparr>table := ?t\<rparr>\<rparr>"
  have shape: "table_shape (\<lambda>_. 0) ?t" by (auto simp: table_shape_def HashTable_bucket_index_def nth_Cons split: nat.splits)
  then have "table_ok (\<lambda>_. 0) ?t" by (simp add: table_ok_def load_within_half)
  then have ok: "dispatcher_ok (\<lambda>_. 0) ?d"
    using dispatcher_ok_new[of "\<lambda>_. 0"] engine_ok_new[of "\<lambda>_. 0"] by (simp add: dispatcher_ok_def engine_ok_def)
  have view: "stored (\<lambda>_. 0) ?d = [''k'' \<mapsto> fresh_entry ''v'']"
    unfolding engine_view_def using find_eq_map_of[OF shape] by (simp add: table_nodes_def)
  let ?d1 = "?d\<lparr>metrics := MetricsCollector_record_command (metrics ?d)\<rparr>"
  let ?c1 = "(scan_start ?d)\<lparr>client_dispatcher := ?d1\<rparr>"
  let ?page = "KeyScanner_scan ?t (ScanCursor 0 0) 10 ''*''"
  have "scan_step (\<lambda>_. 0) [] (scan_start ?d) ?c1"
    by (rule scan_step.command[of quiet_env _ _ "\<lparr>cmd_type = Ping, cmd_name = ''PING'', cmd_args = []\<rparr>" _ "''+PONG''"])
      (simp_all add: CommandDispatcher_dispatch_def scan_start_def)
  moreover have "page_token ?page = ''0''" by code_simp
  then obtain d2 where d2: "CommandDispatcher_dispatch quiet_env ?d1 (scan_request ''0'' []) = Inr (d2, render (Scan_page ''0'' (page_keys ?page)))"
    "storage d2 = storage ?d"
    using dispatch_scan[of "''0''" "ScanCursor 0 0" "[]" 10 "''*''" quiet_env ?d1] by (simp add: decode_scan_cursor_def)
  let ?c2 = "\<lparr>client_dispatcher = d2, client_token = None, client_keys = page_keys ?page, client_pages = 1\<rparr>"
  have "scan_step (\<lambda>_. 0) [] ?c1 ?c2"
    using scan_step.page[of ?c1 "''0''" quiet_env "[]" d2 "''0''" "page_keys ?page" "\<lambda>_. 0"] d2(1) by (simp add: scan_start_def)
  ultimately have steps: "(scan_step (\<lambda>_. 0) [])\<^sup>*\<^sup>* (scan_start ?d) ?c2" by simp
  have "KeyScanner_matches ''k'' ''*''" by code_simp
  with scan_among_writers[OF ok _ _ _ steps, of 10 "''*''"] d2(2) view have "''k'' \<in> set (client_keys ?c2)"
    by (simp add: StorageEngine_entry_count_def)
  with steps view show ?thesis by (intro exI[of _ ?d] exI[of _ ?c2]) simp
qed

text \<open>A deletion between two pages can hide a key that was there all the time.\<close>

lemma delete_hides_key:
  defines "t \<equiv> \<lparr>buckets = map (\<lambda>k. (k, fresh_entry [])) [''a'', ''b'', ''c''] # replicate 15 [], table_size = 3\<rparr>"
  shows "page_keys (KeyScanner_scan t (ScanCursor 0 0) 1 ''*'') = [''a'']
     \<and> page_keys (KeyScanner_scan (fst (HashTable_erase (\<lambda>_. 0) t ''a''))
                     (page_next (KeyScanner_scan t (ScanCursor 0 0) 1 ''*'')) 10 ''*'') = [''c'']"
  unfolding t_def by code_simp

end
